(* ===== verification/Kv_Prelude.thy ===== *)
theory Kv_Prelude
  imports Main "HOL-Library.Word" "HOL-Library.Signed_Division" "HOL-Library.Sublist"
begin

text \<open>
  Shared vocabulary of the codakv development. A Go \<open>string\<close> or \<open>[]byte\<close> is a list of
  8-bit characters; Go's \<open>int\<close>, \<open>int64\<close> and \<open>uint64\<close> are 64-bit words, read through
  \<open>sint\<close> where the Go type is signed and through \<open>unat\<close> where it is not. A call that
  returns \<open>(T, error)\<close> is a value of the sum type \<open>'e + 'a\<close>, with \<open>Inl\<close> for the
  error. The theory also holds the collections the component theories share and the generic
  facts on words and lists that their proofs rest on.
\<close>

unbundle bit_operations_syntax

type_synonym go_string = string
type_synonym go_int = "64 word"
type_synonym uint64 = "64 word"

named_theorems go_defs \<open>definitions of Go's standard library routines\<close>

section \<open>Go's signed integer operations\<close>

text \<open>Signed division truncates towards zero; the divisor is nonzero wherever the code divides.\<close>

definition go_quot :: "go_int \<Rightarrow> go_int \<Rightarrow> go_int" where
  "go_quot a b = word_of_int (sint a sdiv sint b)"

definition go_rem :: "go_int \<Rightarrow> go_int \<Rightarrow> go_int" where
  "go_rem a b = word_of_int (sint a smod sint b)"

definition go_min :: "go_int \<Rightarrow> go_int \<Rightarrow> go_int" where
  "go_min a b = (if sint a \<le> sint b then a else b)"

section \<open>Reading 64-bit words\<close>

lemma unat_lt64: "unat (w :: 64 word) < 2 ^ 64"
  using unsigned_less[where w = w and 'a = nat] by simp

lemma unat_of_nat64: "n < 2 ^ 64 \<Longrightarrow> unat (word_of_nat n :: 64 word) = n"
  by (simp add: unat_of_nat)

lemma unat_add64: "unat a + unat b < 2 ^ 64 \<Longrightarrow> unat (a + b :: 64 word) = unat a + unat b"
  by (simp add: unat_word_ariths)

lemma unat_mult64: "unat a * unat b < 2 ^ 64 \<Longrightarrow> unat (a * b :: 64 word) = unat a * unat b"
  by (simp add: unat_word_ariths)

lemma sint_eq_unat: "0 \<le> sint (w :: 64 word) \<Longrightarrow> sint w = int (unat w)"
proof -
  assume a: "0 \<le> sint w"
  have "sint w < 2 ^ 63" using sint_less[of w] by simp
  then have "uint w = sint w" using a by (simp add: uint_sint take_bit_int_eq_self)
  then show ?thesis by simp
qed

lemma sint_nonneg_iff: "0 \<le> sint (w :: 64 word) \<longleftrightarrow> unat w < 2 ^ 63"
proof
  assume a: "0 \<le> sint w"
  have "int (unat w) < 2 ^ 63" using sint_less[of w] sint_eq_unat[OF a] by simp
  then show "unat w < 2 ^ 63" by (metis of_nat_less_iff of_nat_numeral of_nat_power)
next
  assume "unat w < 2 ^ 63"
  then have "int (unat w) < 2 ^ 63" by (metis of_nat_less_iff of_nat_numeral of_nat_power)
  then have "sint w = uint w"
    using signed_take_bit_int_eq_self[of 63 "uint w"] unsigned_greater_eq[of w]
    by (simp add: sint_uint order_trans[of _ 0])
  then show "0 \<le> sint w" by simp
qed

lemma sint_pos_iff: "0 < sint (w :: 64 word) \<longleftrightarrow> 0 < unat w \<and> unat w < 2 ^ 63"
proof (cases "0 \<le> sint w")
  case True
  have "0 < int (unat w) \<longleftrightarrow> 0 < unat w" by (rule of_nat_0_less_iff)
  with True show ?thesis using sint_nonneg_iff[of w] sint_eq_unat[of w] by simp
next
  case False
  then show ?thesis using sint_nonneg_iff[of w] by simp
qed

lemma sint_of_nat_small: "n < 2 ^ 63 \<Longrightarrow> sint (word_of_nat n :: 64 word) = int n"
  using sint_eq_unat[of "word_of_nat n"] sint_nonneg_iff[of "word_of_nat n"]
  by (simp add: unat_of_nat)

lemma sint_less_iff_unat:
  "0 \<le> sint (a :: 64 word) \<Longrightarrow> 0 \<le> sint (b :: 64 word) \<Longrightarrow> sint a < sint b \<longleftrightarrow> unat a < unat b"
  by (metis of_nat_less_iff sint_eq_unat)

lemma sint_le_iff_unat:
  "0 \<le> sint (a :: 64 word) \<Longrightarrow> 0 \<le> sint (b :: 64 word) \<Longrightarrow> sint a \<le> sint b \<longleftrightarrow> unat a \<le> unat b"
  by (metis of_nat_le_iff sint_eq_unat)

lemma sdiv_of_nat: "int m sdiv int n = int (m div n)"
  by (cases "m = 0"; cases "n = 0") (simp_all add: signed_divide_int_def zdiv_int)

lemma smod_of_nat: "int m smod int n = int (m mod n)"
  by (cases "m = 0") (simp_all add: signed_modulo_int_def zmod_int)

lemma go_quot_unat:
  assumes "0 \<le> sint a" "0 \<le> sint b"
  shows "unat (go_quot a b) = unat a div unat b"
proof -
  have "sint a sdiv sint b = int (unat a) sdiv int (unat b)"
    using assms sint_eq_unat by simp
  also have "\<dots> = int (unat a div unat b)" by (rule sdiv_of_nat)
  finally have "go_quot a b = word_of_nat (unat a div unat b)" by (simp add: go_quot_def)
  moreover have "unat a div unat b < 2 ^ 64"
    by (rule le_less_trans[OF div_le_dividend unat_lt64])
  ultimately show ?thesis by (simp add: unat_of_nat)
qed

lemma go_rem_unat:
  assumes "0 \<le> sint a" "0 \<le> sint b"
  shows "unat (go_rem a b) = unat a mod unat b"
proof -
  have "sint a smod sint b = int (unat a) smod int (unat b)"
    using assms sint_eq_unat by simp
  also have "\<dots> = int (unat a mod unat b)" by (rule smod_of_nat)
  finally have "go_rem a b = word_of_nat (unat a mod unat b)" by (simp add: go_rem_def)
  moreover have "unat a mod unat b < 2 ^ 64"
    by (rule le_less_trans[OF mod_less_eq_dividend unat_lt64])
  ultimately show ?thesis by (simp add: unat_of_nat)
qed

lemma go_min_unat:
  "0 \<le> sint a \<Longrightarrow> 0 \<le> sint b \<Longrightarrow> unat (go_min a b) = min (unat a) (unat b)"
  by (simp add: go_min_def sint_le_iff_unat)

lemma card_words64:
  assumes "S \<subseteq> {..<2 ^ 64}"
  shows "card {p :: 64 word. unat p \<in> S} = card S"
proof -
  have "unat ` {p :: 64 word. unat p \<in> S} = S"
  proof (intro set_eqI iffI)
    fix n assume "n \<in> S"
    then have "unat (word_of_nat n :: 64 word) = n" using assms by (intro unat_of_nat64) auto
    with \<open>n \<in> S\<close> show "n \<in> unat ` {p :: 64 word. unat p \<in> S}"
      by (intro image_eqI[of _ _ "word_of_nat n"]) auto
  qed auto
  then have "card S = card (unat ` {p :: 64 word. unat p \<in> S})" by simp
  also have "\<dots> = card {p :: 64 word. unat p \<in> S}"
    by (rule card_image) (auto intro: inj_onI unsigned_word_eqI)
  finally show ?thesis by simp
qed

section \<open>Lists of blocks\<close>

text \<open>Blocks of distinct elements that a key function tells apart have no element in common.\<close>

lemma distinct_concat_keyed:
  assumes "\<And>i. i < length xss \<Longrightarrow> distinct (xss ! i)"
    and "\<And>i x. i < length xss \<Longrightarrow> x \<in> set (xss ! i) \<Longrightarrow> f x = n + i"
  shows "distinct (concat xss)"
  using assms
proof (induction xss arbitrary: n)
  case (Cons xs xss)
  have rest: "f x = Suc n + i" if "i < length xss" "x \<in> set (xss ! i)" for i x
    using Cons.prems(2)[of "Suc i" x] that by simp
  have "distinct (concat xss)" using Cons.prems(1)[of "Suc _"] rest by (intro Cons.IH[of "Suc n"]) auto
  moreover have "f x = n" if "x \<in> set xs" for x using Cons.prems(2)[of 0 x] that by simp
  moreover have "n < f x" if "x \<in> set (concat xss)" for x
    using that rest by (fastforce simp: in_set_conv_nth[of _ xss])
  ultimately show ?case using Cons.prems(1)[of 0] by fastforce
qed simp

lemma distinct_concat_owned:
  "distinct xs \<Longrightarrow> \<forall>x \<in> set xs. distinct (L x) \<and> (\<forall>k \<in> set (L x). owner k = x) \<Longrightarrow> distinct (concat (map L xs))"
proof (induction xs)
  case (Cons x xs)
  then have "distinct (L x)" "distinct (concat (map L xs))" by simp_all
  moreover have "set (L x) \<inter> set (L y) = {}" if "y \<in> set xs" for y using Cons.prems that by fastforce
  ultimately show ?case by auto
qed simp

section \<open>Powers of two\<close>

lemma pow2_of_and_pred:
  fixes n :: nat
  assumes "0 < n" "n AND (n - 1) = 0"
  shows "\<exists>k. n = 2 ^ k"
  using assms
proof (induction n rule: less_induct)
  case (less n)
  show ?case
  proof (cases "even n")
    case True
    then obtain m where m: "n = 2 * m" by blast
    with less.prems have "0 < m" by simp
    then have "(n - 1) div 2 = m - 1" using m by simp
    then have "n AND (n - 1) = 2 * (m AND (m - 1))"
      using m by (subst and_rec) simp
    with less.prems less.IH[of m] m \<open>0 < m\<close> obtain k where "m = 2 ^ k" by auto
    then have "n = 2 ^ Suc k" using m by simp
    then show ?thesis by blast
  next
    case False
    then obtain m where m: "n = 2 * m + 1" using oddE by blast
    then have "n AND (n - 1) = 2 * (m AND m)" by (subst and_rec) simp
    then have "n = 2 ^ 0" using less.prems m by simp
    then show ?thesis by blast
  qed
qed

lemma pow2_and_pred: "(2 ^ k :: nat) AND (2 ^ k - 1) = 0"
proof -
  have "(2 ^ k :: nat) AND mask k = take_bit k (2 ^ k)" by (rule take_bit_eq_mask [symmetric])
  then show ?thesis by (simp add: mask_eq_exp_minus_1 take_bit_eq_mod)
qed

lemma and_pred_pow2:
  "unat (n :: 64 word) = 2 ^ k \<Longrightarrow> unat (h AND (n - 1)) = unat h mod 2 ^ k"
  using unat_minus_one[of n]
  by (cases "n = 0") (simp_all add: unsigned_and_eq mask_eq_exp_minus_1 take_bit_eq_mask
      flip: take_bit_eq_mod)

section \<open>Servers\<close>

text \<open>A sequence of requests to a server, with the response to each. The server may be nondeterministic.\<close>

inductive runs :: "('s \<Rightarrow> 'r \<Rightarrow> 's \<Rightarrow> 'p \<Rightarrow> bool) \<Rightarrow> 's \<Rightarrow> 'r list \<Rightarrow> 's \<Rightarrow> 'p list \<Rightarrow> bool"
  for srv :: "'s \<Rightarrow> 'r \<Rightarrow> 's \<Rightarrow> 'p \<Rightarrow> bool" where
  runs_Nil: "runs srv s [] s []"
| runs_Cons: "srv s r s1 p \<Longrightarrow> runs srv s1 rs s' ps \<Longrightarrow> runs srv s (r # rs) s' (p # ps)"

inductive_cases runs_NilE: "runs srv s [] s' ps"
inductive_cases runs_ConsE: "runs srv s (r # rs) s' ps"

end
