(* ===== verification/Go_Strings.thy ===== *)
theory Go_Strings
  imports Kv_Prelude
begin

text \<open>
  The parts of Go's \<open>strconv\<close> and \<open>strings\<close> packages the program calls: decimal
  formatting and parsing of 64-bit integers (\<open>strconv.Itoa\<close>, the verb \<open>%d\<close>,
  \<open>strconv.ParseUint\<close> and \<open>strconv.Atoi\<close> in base 10), \<open>strings.TrimSpace\<close>,
  \<open>strings.Cut\<close>, \<open>strings.Split\<close> and joining at a one-byte separator, and trimming a cut set.
  Strings are byte sequences, so a non-ASCII white-space character is its UTF-8 encoding.
\<close>

section \<open>Decimal formatting and parsing\<close>

definition is_digit :: "char \<Rightarrow> bool" where
  "is_digit c \<longleftrightarrow> 48 \<le> (of_char c :: nat) \<and> (of_char c :: nat) \<le> 57"

definition digit_val :: "char \<Rightarrow> nat" where
  "digit_val c = of_char c - 48"

definition digit_char :: "nat \<Rightarrow> char" where
  "digit_char d = char_of (48 + d)"

fun format_uint :: "nat \<Rightarrow> go_string" where
  "format_uint n =
     (if n < 10 then [digit_char n] else format_uint (n div 10) @ [digit_char (n mod 10)])"

definition Itoa :: "go_int \<Rightarrow> go_string" where
  "Itoa n = (if sint n < 0 then CHR ''-'' # format_uint (nat (- sint n))
             else format_uint (nat (sint n)))"

datatype num_error = ErrSyntax | ErrRange

text \<open>
  The loop of \<open>strconv.ParseUint\<close> reads byte by byte and stops at the first byte that is
  not a digit or that takes the value past \<open>2^64 - 1\<close>.
\<close>

fun parse_uint_loop :: "nat \<Rightarrow> go_string \<Rightarrow> num_error + nat" where
  "parse_uint_loop n [] = Inr n"
| "parse_uint_loop n (c # cs) =
     (if \<not> is_digit c then Inl ErrSyntax
      else let n' = n * 10 + digit_val c in
           if 2 ^ 64 \<le> n' then Inl ErrRange else parse_uint_loop n' cs)"

definition ParseUint :: "go_string \<Rightarrow> num_error + uint64" where
  "ParseUint s =
     (if s = [] then Inl ErrSyntax
      else case parse_uint_loop 0 s of Inl e \<Rightarrow> Inl e | Inr n \<Rightarrow> Inr (word_of_nat n))"

definition Atoi :: "go_string \<Rightarrow> num_error + go_int" where
  "Atoi s =
     (if s = [] then Inl ErrSyntax
      else let neg = (hd s = CHR ''-'');
               digits = (if hd s = CHR ''-'' \<or> hd s = CHR ''+'' then tl s else s) in
           case ParseUint digits of
             Inl e \<Rightarrow> Inl e
           | Inr un \<Rightarrow>
               if \<not> neg \<and> 2 ^ 63 \<le> unat un then Inl ErrRange
               else if neg \<and> 2 ^ 63 < unat un then Inl ErrRange
               else Inr (if neg then - un else un))"

section \<open>Trimming and splitting\<close>

text \<open>UTF-8 encodings of the characters \<open>unicode.IsSpace\<close> accepts.\<close>

definition space_encodings :: "go_string list" where
  "space_encodings =
     [[CHR 0x09], [CHR 0x0A], [CHR 0x0B], [CHR 0x0C], [CHR 0x0D], [CHR 0x20],
      [CHR 0xC2, CHR 0x85], [CHR 0xC2, CHR 0xA0], [CHR 0xE1, CHR 0x9A, CHR 0x80],
      [CHR 0xE2, CHR 0x80, CHR 0x80], [CHR 0xE2, CHR 0x80, CHR 0x81],
      [CHR 0xE2, CHR 0x80, CHR 0x82], [CHR 0xE2, CHR 0x80, CHR 0x83],
      [CHR 0xE2, CHR 0x80, CHR 0x84], [CHR 0xE2, CHR 0x80, CHR 0x85],
      [CHR 0xE2, CHR 0x80, CHR 0x86], [CHR 0xE2, CHR 0x80, CHR 0x87],
      [CHR 0xE2, CHR 0x80, CHR 0x88], [CHR 0xE2, CHR 0x80, CHR 0x89],
      [CHR 0xE2, CHR 0x80, CHR 0x8A], [CHR 0xE2, CHR 0x80, CHR 0xA8],
      [CHR 0xE2, CHR 0x80, CHR 0xA9], [CHR 0xE2, CHR 0x80, CHR 0xAF],
      [CHR 0xE2, CHR 0x81, CHR 0x9F], [CHR 0xE3, CHR 0x80, CHR 0x80]]"

definition leading :: "go_string list \<Rightarrow> go_string \<Rightarrow> go_string option" where
  "leading ws s = find (\<lambda>w. w \<noteq> [] \<and> take (length w) s = w) ws"

lemma leading_SomeD:
  "leading ws s = Some w \<Longrightarrow> w \<in> set ws \<and> w \<noteq> [] \<and> take (length w) s = w"
  by (auto simp: leading_def find_Some_iff)

lemma leading_shrinks: "leading ws s = Some w \<Longrightarrow> length s - length w < length s"
  by (drule leading_SomeD) (cases s; cases w; simp)

function trim_left_by :: "go_string list \<Rightarrow> go_string \<Rightarrow> go_string" where
  "trim_left_by ws s =
     (case leading ws s of None \<Rightarrow> s | Some w \<Rightarrow> trim_left_by ws (drop (length w) s))"
  by pat_completeness auto
termination
  by (relation "measure (\<lambda>(ws, s). length s)") (auto dest: leading_shrinks)

declare trim_left_by.simps [simp del]

definition trim_right_by :: "go_string list \<Rightarrow> go_string \<Rightarrow> go_string" where
  "trim_right_by ws s = rev (trim_left_by (map rev ws) (rev s))"

definition TrimSpace :: "go_string \<Rightarrow> go_string" where
  "TrimSpace s = trim_right_by space_encodings (trim_left_by space_encodings s)"

definition TrimLeft :: "go_string \<Rightarrow> char list \<Rightarrow> go_string" where
  "TrimLeft s cutset = dropWhile (\<lambda>c. c \<in> set cutset) s"

definition TrimRight :: "go_string \<Rightarrow> char list \<Rightarrow> go_string" where
  "TrimRight s cutset = rev (dropWhile (\<lambda>c. c \<in> set cutset) (rev s))"

definition Cut :: "go_string \<Rightarrow> char \<Rightarrow> go_string \<times> go_string \<times> bool" where
  "Cut s sep =
     (if sep \<in> set s
      then (takeWhile (\<lambda>c. c \<noteq> sep) s, tl (dropWhile (\<lambda>c. c \<noteq> sep) s), True)
      else (s, [], False))"

fun Split :: "go_string \<Rightarrow> char \<Rightarrow> go_string list" where
  "Split [] sep = [[]]"
| "Split (c # cs) sep =
     (if c = sep then [] # Split cs sep
      else case Split cs sep of [] \<Rightarrow> [[c]] | w # ws \<Rightarrow> (c # w) # ws)"

fun join :: "go_string \<Rightarrow> go_string list \<Rightarrow> go_string" where
  "join sep [] = []"
| "join sep [x] = x"
| "join sep (x # y # xs) = x @ sep @ join sep (y # xs)"

declare format_uint.simps [simp del]

section \<open>Decimal round trips\<close>

definition dec_value :: "nat \<Rightarrow> go_string \<Rightarrow> nat" where
  "dec_value acc s = foldl (\<lambda>n c. n * 10 + digit_val c) acc s"

lemma dec_value_Nil [simp]: "dec_value acc [] = acc"
  and dec_value_Cons [simp]: "dec_value acc (c # cs) = dec_value (acc * 10 + digit_val c) cs"
  and dec_value_append [simp]: "dec_value acc (s @ t) = dec_value (dec_value acc s) t"
  by (simp_all add: dec_value_def)

lemma dec_value_ge: "acc \<le> dec_value acc s"
proof (induction s arbitrary: acc)
  case (Cons c cs)
  have "acc \<le> acc * 10 + digit_val c" by simp
  also have "\<dots> \<le> dec_value (acc * 10 + digit_val c) cs" by (rule Cons.IH)
  finally show ?case by simp
qed simp

lemma digit_char_props [simp]:
  assumes "d < 10"
  shows "of_char (digit_char d) = (48 + d :: nat)" "is_digit (digit_char d)"
    "digit_val (digit_char d) = d"
proof -
  show "of_char (digit_char d) = (48 + d :: nat)"
    using assms by (simp add: digit_char_def)
  then show "is_digit (digit_char d)" "digit_val (digit_char d) = d"
    using assms by (simp_all add: is_digit_def digit_val_def)
qed

lemma format_uint_digits: "list_all is_digit (format_uint n)"
proof (induction n rule: format_uint.induct)
  case (1 n)
  then show ?case by (cases "n < 10") (simp_all add: format_uint.simps[of n])
qed

lemma format_uint_nonempty [simp]: "format_uint n \<noteq> []"
  by (simp add: format_uint.simps[of n])

lemma dec_value_format_uint [simp]: "dec_value 0 (format_uint n) = n"
proof (induction n rule: format_uint.induct)
  case (1 n)
  then show ?case by (cases "n < 10") (simp_all add: format_uint.simps[of n])
qed

lemma parse_uint_loop_digits:
  "list_all is_digit s \<Longrightarrow> acc < 2 ^ 64 \<Longrightarrow>
   parse_uint_loop acc s = (if dec_value acc s < 2 ^ 64 then Inr (dec_value acc s) else Inl ErrRange)"
proof (induction s arbitrary: acc)
  case (Cons c cs)
  have "acc * 10 + digit_val c \<le> dec_value acc (c # cs)"
    using dec_value_ge by simp
  then show ?case using Cons by (cases "acc * 10 + digit_val c < 2 ^ 64") (auto simp: Let_def)
qed simp

lemma parse_uint_loop_Inr:
  "parse_uint_loop acc s = Inr n \<Longrightarrow> list_all is_digit s \<and> n = dec_value acc s"
  by (induction s arbitrary: acc) (auto simp: Let_def split: if_splits)

lemma ParseUint_Inr_iff:
  "ParseUint s = Inr w \<longleftrightarrow> s \<noteq> [] \<and> list_all is_digit s \<and> dec_value 0 s = unat w"
proof
  assume "ParseUint s = Inr w"
  then obtain n where n: "s \<noteq> []" "parse_uint_loop 0 s = Inr n" "w = word_of_nat n"
    by (auto simp: ParseUint_def split: if_splits sum.splits)
  with parse_uint_loop_Inr[OF n(2)] parse_uint_loop_digits[of s 0]
  show "s \<noteq> [] \<and> list_all is_digit s \<and> dec_value 0 s = unat w"
    by (auto simp: unat_of_nat64 split: if_splits)
next
  assume "s \<noteq> [] \<and> list_all is_digit s \<and> dec_value 0 s = unat w"
  then show "ParseUint s = Inr w"
    using parse_uint_loop_digits[of s 0] unat_lt64[of w] by (simp add: ParseUint_def)
qed

lemma ParseUint_format_uint [simp]: "ParseUint (format_uint (unat w)) = Inr w"
  by (simp add: ParseUint_Inr_iff format_uint_digits)

lemma hd_format_uint_digit: "is_digit (hd (format_uint n))"
  using format_uint_digits[of n] format_uint_nonempty[of n] by (cases "format_uint n") auto

lemma last_format_uint_digit: "is_digit (last (format_uint n))"
  using format_uint_digits[of n] format_uint_nonempty[of n] by (simp add: list_all_iff)

lemma digit_not_sign: "is_digit c \<Longrightarrow> c \<noteq> CHR ''-'' \<and> c \<noteq> CHR ''+''"
  by (auto simp: is_digit_def)

lemma Atoi_Itoa: "Atoi (Itoa n) = Inr n"
proof (cases "sint n < 0")
  case True
  have "- (2 ^ 63) \<le> sint n" using sint_greater_eq[of n] by simp
  then have le: "nat (- sint n) \<le> 2 ^ 63" by simp
  then have un: "unat (word_of_nat (nat (- sint n)) :: 64 word) = nat (- sint n)"
    by (simp add: unat_of_nat64)
  then have "ParseUint (format_uint (nat (- sint n))) = Inr (word_of_nat (nat (- sint n)))"
    using ParseUint_format_uint[of "word_of_nat (nat (- sint n))"] by simp
  moreover have "- (word_of_nat (nat (- sint n)) :: 64 word) = n"
    using True by simp
  ultimately show ?thesis using True le un by (simp add: Itoa_def Atoi_def)
next
  case False
  then have n: "nat (sint n) = unat n" and "unat n < 2 ^ 63"
    using sint_eq_unat[of n] sint_nonneg_iff[of n] by (auto simp del: of_nat_unat)
  then show ?thesis
    using False digit_not_sign[OF hd_format_uint_digit[of "unat n"]]
    by (simp add: Itoa_def Atoi_def)
qed

section \<open>Trimming and cutting\<close>

text \<open>A graphic ASCII byte neither starts nor ends the encoding of a white-space character.\<close>

definition graphic :: "char \<Rightarrow> bool" where
  "graphic c \<longleftrightarrow> 33 \<le> (of_char c :: nat) \<and> (of_char c :: nat) \<le> 126"

lemma graphic_digit: "is_digit c \<Longrightarrow> graphic c"
  by (simp add: is_digit_def graphic_def)

lemma space_encodings_ends:
  "w \<in> set space_encodings \<Longrightarrow> w \<noteq> [] \<and> \<not> graphic (hd w) \<and> \<not> graphic (last w)"
  by (auto simp: space_encodings_def graphic_def)

lemma leading_None:
  assumes "s \<noteq> []" "\<And>w. w \<in> set ws \<Longrightarrow> w \<noteq> [] \<Longrightarrow> hd w \<noteq> hd s"
  shows "leading ws s = None"
proof (cases "leading ws s")
  case (Some w)
  then have w: "w \<in> set ws" "w \<noteq> []" "take (length w) s = w" by (auto dest: leading_SomeD)
  then have "hd w = hd s" using assms(1) by (metis hd_take length_greater_0_conv)
  then show ?thesis using assms(2) w by blast
qed simp

lemma trim_left_by_id: "leading ws s = None \<Longrightarrow> trim_left_by ws s = s"
  by (simp add: trim_left_by.simps)

lemma TrimSpace_id:
  assumes "s \<noteq> []" "graphic (hd s)" "graphic (last s)"
  shows "TrimSpace s = s"
proof -
  have "leading space_encodings s = None"
    using assms space_encodings_ends by (intro leading_None) metis+
  moreover have "leading (map rev space_encodings) (rev s) = None"
    using assms space_encodings_ends
    by (intro leading_None) (auto simp: hd_rev, metis)
  ultimately show ?thesis by (simp add: TrimSpace_def trim_right_by_def trim_left_by_id)
qed

lemma TrimSpace_format_uint [simp]: "TrimSpace (format_uint n) = format_uint n"
  by (simp add: TrimSpace_id graphic_digit hd_format_uint_digit last_format_uint_digit)

lemma Cut_found: "sep \<notin> set a \<Longrightarrow> Cut (a @ sep # b) sep = (a, b, True)"
  by (simp add: Cut_def takeWhile_append dropWhile_append)

lemma Cut_not_found: "sep \<notin> set a \<Longrightarrow> Cut a sep = (a, [], False)"
  by (simp add: Cut_def)

lemma digits_no_char: "\<not> is_digit c \<Longrightarrow> c \<notin> set (format_uint n)"
  using format_uint_digits[of n] by (auto simp: list_all_iff)

lemma Split_no_sep: "sep \<notin> set s \<Longrightarrow> Split s sep = [s]"
  by (induction s) auto

lemma Split_append: "sep \<notin> set s \<Longrightarrow> Split (s @ sep # t) sep = s # Split t sep"
  by (induction s) auto

lemma Split_join:
  "ws \<noteq> [] \<Longrightarrow> \<forall>w \<in> set ws. sep \<notin> set w \<Longrightarrow> Split (join [sep] ws) sep = ws"
  by (induction ws rule: induct_list012) (simp_all add: Split_no_sep Split_append)

end
