(* ===== verification/Routing.thy ===== *)
theory Routing
  imports Go_Strings
begin

text \<open>
  Package \<open>internal/routing\<close>: keys are hashed to partitions with FNV-1a and a mask, partitions
  are dealt to nodes in contiguous half-open ranges, and the proxy keeps a table from partitions
  to node ids. Every function of \<open>routing.go\<close> is a definition below. An out-of-range slice index
  panics in Go; a definition that indexes a slice returns \<open>None\<close> there.

  The theory shows that the mask is the modulo it stands for, that the ranges tile the partitions
  and are balanced, that building a table never panics and agrees with \<open>RangeFor\<close>, and that
  \<open>ParseRange\<close> reads back what \<open>Range.String\<close> writes.
\<close>

section \<open>Hashing keys to partitions\<close>

definition fnvOffset64 :: uint64 where
  "fnvOffset64 = 14695981039346656037"

definition fnvPrime64 :: uint64 where
  "fnvPrime64 = 1099511628211"

fun fnv_loop :: "uint64 \<Rightarrow> go_string \<Rightarrow> uint64" where
  "fnv_loop h [] = h"
| "fnv_loop h (c # cs) = fnv_loop ((h XOR of_char c) * fnvPrime64) cs"

definition Partition :: "go_string \<Rightarrow> go_int \<Rightarrow> uint64" where
  "Partition key partitionCount = fnv_loop fnvOffset64 key AND (partitionCount - 1)"

definition ValidPartitionCount :: "go_int \<Rightarrow> bool" where
  "ValidPartitionCount n \<longleftrightarrow> 0 < sint n \<and> n AND (n - 1) = 0"

section \<open>Ranges\<close>

record Range =
  Lo :: uint64
  Hi :: uint64

text \<open>One constructor per \<open>fmt.Errorf\<close> of the package, with its arguments.\<close>

datatype routing_error =
    NodeCountNotPositive go_int
  | IndexOutOfRange go_int go_int
  | PartitionCountNotPowerOfTwo go_int
  | EmptyPartitionRange
  | BadRange go_string num_error
  | RangeEndsBeforeStart go_string
  | NoNodesConfigured
  | TooManyNodes nat go_int

definition RangeFor :: "go_int \<Rightarrow> go_int \<Rightarrow> go_int \<Rightarrow> routing_error + Range" where
  "RangeFor index nodeCount partitionCount =
     (if sint nodeCount \<le> 0 then Inl (NodeCountNotPositive nodeCount)
      else if sint index < 0 \<or> sint nodeCount \<le> sint index
        then Inl (IndexOutOfRange index nodeCount)
      else if \<not> ValidPartitionCount partitionCount
        then Inl (PartitionCountNotPowerOfTwo partitionCount)
      else let base = go_quot partitionCount nodeCount;
               extra = go_rem partitionCount nodeCount;
               lo = index * base + go_min index extra;
               size = (if sint index < sint extra then base + 1 else base) in
           Inr \<lparr>Lo = lo, Hi = lo + size\<rparr>)"

definition Contains :: "Range \<Rightarrow> uint64 \<Rightarrow> bool" where
  "Contains r p \<longleftrightarrow> Lo r \<le> p \<and> p < Hi r"

definition Range_Count :: "Range \<Rightarrow> uint64" where
  "Range_Count r = Hi r - Lo r"

definition Range_String :: "Range \<Rightarrow> go_string" where
  "Range_String r =
     (if Hi r = Lo r then ''empty''
      else format_uint (unat (Lo r)) @ ''-'' @ format_uint (unat (Hi r - 1)))"

definition ParseRange :: "go_string \<Rightarrow> routing_error + Range" where
  "ParseRange arg =
     (let s = TrimSpace arg in
      if s = [] then Inl EmptyPartitionRange
      else case Cut s CHR ''-'' of (lo, hi0, found) \<Rightarrow>
        let hi = (if found then hi0 else lo) in
        case ParseUint (TrimSpace lo) of
          Inl err \<Rightarrow> Inl (BadRange s err)
        | Inr loN \<Rightarrow>
            (case ParseUint (TrimSpace hi) of
               Inl err \<Rightarrow> Inl (BadRange s err)
             | Inr hiN \<Rightarrow>
                 if hiN < loN then Inl (RangeEndsBeforeStart s)
                 else Inr \<lparr>Lo = loN, Hi = hiN + 1\<rparr>))"

section \<open>The routing table\<close>

record Table =
  tbl_partitionCount :: go_int
  tbl_owner :: "go_string list"
  tbl_nodeIDs :: "go_string list"

text \<open>The inner loop \<open>for p := r.Lo; p < r.Hi; p++ { owner[p] = id }\<close>.\<close>

function fill_owner :: "go_string \<Rightarrow> uint64 \<Rightarrow> uint64 \<Rightarrow> go_string list \<Rightarrow> go_string list option" where
  "fill_owner nid p hi owner =
     (if p < hi
      then if unat p < length owner then fill_owner nid (p + 1) hi (owner[unat p := nid]) else None
      else Some owner)"
  by pat_completeness auto

lemma word_succ_unat: "p < (hi :: 64 word) \<Longrightarrow> unat (p + 1) = Suc (unat p)"
  using unat_lt64[of hi] by (simp add: unat_word_ariths word_less_nat_alt)

termination fill_owner
  by (relation "measure (\<lambda>(nid, p, hi, owner). unat hi - unat p)")
     (auto simp: word_succ_unat word_less_nat_alt)

declare fill_owner.simps [simp del]

text \<open>The outer loop over \<open>nodeIDs\<close>; \<open>i\<close> counts the ids already placed.\<close>

fun assign_owners ::
    "nat \<Rightarrow> nat \<Rightarrow> go_int \<Rightarrow> go_string list \<Rightarrow> go_string list
       \<Rightarrow> (routing_error + go_string list) option" where
  "assign_owners i n partitionCount [] owner = Some (Inr owner)"
| "assign_owners i n partitionCount (nid # ids) owner =
     (case RangeFor (word_of_nat i) (word_of_nat n) partitionCount of
        Inl err \<Rightarrow> Some (Inl err)
      | Inr r \<Rightarrow> (case fill_owner nid (Lo r) (Hi r) owner of
                   None \<Rightarrow> None
                 | Some owner' \<Rightarrow> assign_owners (Suc i) n partitionCount ids owner'))"

definition NewTable :: "go_string list \<Rightarrow> go_int \<Rightarrow> (routing_error + Table) option" where
  "NewTable nodeIDs partitionCount =
     (if nodeIDs = [] then Some (Inl NoNodesConfigured)
      else if \<not> ValidPartitionCount partitionCount
        then Some (Inl (PartitionCountNotPowerOfTwo partitionCount))
      else if sint partitionCount < int (length nodeIDs)
        then Some (Inl (TooManyNodes (length nodeIDs) partitionCount))
      else case assign_owners 0 (length nodeIDs) partitionCount nodeIDs
                  (replicate (unat partitionCount) []) of
             None \<Rightarrow> None
           | Some (Inl err) \<Rightarrow> Some (Inl err)
           | Some (Inr owner) \<Rightarrow>
               Some (Inr \<lparr>tbl_partitionCount = partitionCount, tbl_owner = owner,
                          tbl_nodeIDs = nodeIDs\<rparr>))"

definition NodeForPartition :: "Table \<Rightarrow> uint64 \<Rightarrow> go_string option" where
  "NodeForPartition t p =
     (if unat p < length (tbl_owner t) then Some (tbl_owner t ! unat p) else None)"

definition NodeFor :: "Table \<Rightarrow> go_string \<Rightarrow> go_string option" where
  "NodeFor t key =
     (let p = Partition key (tbl_partitionCount t) in
      if unat p < length (tbl_owner t) then Some (tbl_owner t ! unat p) else None)"

definition NodeIDs :: "Table \<Rightarrow> go_string list" where
  "NodeIDs t = tbl_nodeIDs t"

text \<open>The map of \<open>Ranges\<close> is filled in cluster order, so a repeated id keeps its last range.\<close>

fun ranges_loop :: "nat \<Rightarrow> nat \<Rightarrow> go_int \<Rightarrow> go_string list \<Rightarrow> (go_string \<rightharpoonup> Range) \<Rightarrow> (go_string \<rightharpoonup> Range)" where
  "ranges_loop i n partitionCount [] out = out"
| "ranges_loop i n partitionCount (nid # ids) out =
     ranges_loop (Suc i) n partitionCount ids
       (case RangeFor (word_of_nat i) (word_of_nat n) partitionCount of
          Inl err \<Rightarrow> out
        | Inr r \<Rightarrow> out(nid \<mapsto> r))"

definition Ranges :: "Table \<Rightarrow> (go_string \<rightharpoonup> Range)" where
  "Ranges t = ranges_loop 0 (length (tbl_nodeIDs t)) (tbl_partitionCount t) (tbl_nodeIDs t) Map.empty"

section \<open>Partition counts and hashing\<close>

lemma ValidPartitionCount_iff:
  "ValidPartitionCount n \<longleftrightarrow> (\<exists>k < 63. unat n = 2 ^ k)"
proof
  assume v: "ValidPartitionCount n"
  then have n: "0 < unat n" "unat n < 2 ^ 63"
    using sint_pos_iff[of n] by (simp_all add: ValidPartitionCount_def)
  then have "n \<noteq> 0" by auto
  then have "unat n AND (unat n - 1) = unat (n AND (n - 1))"
    by (simp add: unsigned_and_eq unat_minus_one)
  then have "unat n AND (unat n - 1) = 0" using v by (simp add: ValidPartitionCount_def)
  with n obtain k where k: "unat n = 2 ^ k" using pow2_of_and_pred by blast
  with n have "k < 63" by (metis nat_power_less_imp_less zero_less_numeral)
  with k show "\<exists>k < 63. unat n = 2 ^ k" by blast
next
  assume "\<exists>k < 63. unat n = 2 ^ k"
  then obtain k where k: "k < 63" "unat n = 2 ^ k" by blast
  then have pos: "0 < sint n"
    using power_strict_increasing[of k 63 "2::nat"] by (simp add: sint_pos_iff)
  have "unat (n AND (n - 1)) = 2 ^ k mod 2 ^ k" using and_pred_pow2[OF k(2), of n] k by simp
  then have "n AND (n - 1) = 0" by (simp add: unsigned_eq_0_iff)
  with pos show "ValidPartitionCount n" by (simp add: ValidPartitionCount_def)
qed

lemma ValidPartitionCount_sint: "ValidPartitionCount n \<Longrightarrow> 0 < sint n"
  by (simp add: ValidPartitionCount_def)

lemma ValidPartitionCount_unat: "ValidPartitionCount n \<Longrightarrow> 0 < unat n \<and> unat n < 2 ^ 63"
  using ValidPartitionCount_sint[of n] by (simp add: sint_pos_iff)

lemma Partition_mod:
  "ValidPartitionCount n \<Longrightarrow> unat (Partition key n) = unat (fnv_loop fnvOffset64 key) mod unat n"
  by (auto simp: ValidPartitionCount_iff Partition_def and_pred_pow2)

lemma Partition_less: "ValidPartitionCount n \<Longrightarrow> unat (Partition key n) < unat n"
  using Partition_mod[of n key] ValidPartitionCount_unat[of n] by simp

section \<open>Tilings: consecutive ranges that cover every partition once\<close>

text \<open>
  The contract the table and the nodes rely on: node \<open>i\<close> of \<open>N\<close> starts at \<open>start P N i\<close>
  and ends where node \<open>i + 1\<close> starts, the first starts at 0 and the last ends at \<open>P\<close>.
\<close>

locale tiling =
  fixes start :: "nat \<Rightarrow> nat \<Rightarrow> nat \<Rightarrow> nat"
  assumes start_first: "start P N 0 = 0"
    and start_last: "0 < N \<Longrightarrow> start P N N = P"
    and start_step: "start P N i \<le> start P N (Suc i)"
begin

lemma start_mono: "i \<le> j \<Longrightarrow> start P N i \<le> start P N j"
  by (rule lift_Suc_mono_le[of "start P N"]) (rule start_step)

lemma tile_below: "i < N \<Longrightarrow> start P N (Suc i) \<le> P"
  using start_mono[of "Suc i" N P N] start_last[of N P] by simp

lemma tile_exists:
  assumes "p < P" "0 < N"
  shows "\<exists>i < N. start P N i \<le> p \<and> p < start P N (Suc i)"
proof -
  have "\<exists>k \<le> N. p < start P N k" using assms start_last by auto
  then obtain k where k: "k \<le> N" "p < start P N k" "\<And>j. j < k \<Longrightarrow> \<not> p < start P N j"
    using exists_least_iff[of "\<lambda>k. k \<le> N \<and> p < start P N k"] by fastforce
  from k(2) obtain i where i: "k = Suc i" by (cases k) (auto simp: start_first)
  with k have "start P N i \<le> p" by (simp add: not_less)
  with k i show ?thesis by (auto intro!: exI[of _ i])
qed

lemma tile_unique:
  assumes "start P N i \<le> p" "p < start P N (Suc i)" "start P N j \<le> p" "p < start P N (Suc j)"
  shows "i = j"
proof (rule ccontr)
  assume "i \<noteq> j"
  then have "Suc i \<le> j \<or> Suc j \<le> i" by auto
  then show False using assms start_mono[of "Suc i" j P N] start_mono[of "Suc j" i P N] by linarith
qed

end

text \<open>\<open>RangeFor\<close> starts node \<open>i\<close> at \<open>i * base + min i extra\<close>.\<close>

definition range_start :: "nat \<Rightarrow> nat \<Rightarrow> nat \<Rightarrow> nat" where
  "range_start P N i = i * (P div N) + min i (P mod N)"

interpretation ranges: tiling range_start
proof unfold_locales
  fix P N i :: nat
  show "range_start P N 0 = 0" by (simp add: range_start_def)
  show "range_start P N i \<le> range_start P N (Suc i)" by (simp add: range_start_def)
  assume "0 < N"
  then show "range_start P N N = P" by (simp add: range_start_def min_absorb2 less_imp_le)
qed

lemma range_size:
  "range_start P N (Suc i) - range_start P N i = P div N + (if i < P mod N then 1 else 0)"
  by (simp add: range_start_def)

section \<open>RangeFor\<close>

lemma RangeFor_Inl_iff:
  "(\<exists>e. RangeFor i n p = Inl e) \<longleftrightarrow>
     sint n \<le> 0 \<or> sint i < 0 \<or> sint n \<le> sint i \<or> \<not> ValidPartitionCount p"
  by (auto simp: RangeFor_def Let_def)

lemma RangeFor_bounds:
  assumes "RangeFor i n p = Inr r"
  shows "unat i < unat n" "unat n < 2 ^ 63" "ValidPartitionCount p"
    "unat (Lo r) = range_start (unat p) (unat n) (unat i)"
    "unat (Hi r) = range_start (unat p) (unat n) (Suc (unat i))"
proof -
  from assms have n: "0 < sint n" and i: "0 \<le> sint i" "sint i < sint n" and p: "ValidPartitionCount p"
    by (auto simp: RangeFor_def Let_def split: if_splits)
  have pu: "0 < unat p" "unat p < 2 ^ 63" using ValidPartitionCount_unat[OF p] by auto
  have p0: "0 \<le> sint p" using ValidPartitionCount_sint[OF p] by simp
  have n0: "0 \<le> sint n" using n by simp
  show ilt: "unat i < unat n" using i n0 sint_less_iff_unat by blast
  show nlt: "unat n < 2 ^ 63" using n0 sint_nonneg_iff by blast
  show "ValidPartitionCount p" by fact
  let ?b = "unat p div unat n" and ?x = "unat p mod unat n"
  have xlt: "?x < 2 ^ 63" using less_trans[OF mod_less_divisor nlt] ilt by simp
  have rem: "unat (go_rem p n) = ?x" and quo: "unat (go_quot p n) = ?b"
    using go_rem_unat go_quot_unat p0 n0 by blast+
  have x0: "0 \<le> sint (go_rem p n)" using xlt rem sint_nonneg_iff by simp
  have top: "range_start (unat p) (unat n) (Suc (unat i)) \<le> unat p"
    by (rule ranges.tile_below[OF ilt])
  then have lo_le: "range_start (unat p) (unat n) (unat i) \<le> unat p"
    using ranges.start_step order_trans by blast
  have mult: "unat (i * go_quot p n) = unat i * ?b"
    using lo_le pu by (subst unat_mult64) (simp_all add: quo range_start_def)
  have lo: "unat (i * go_quot p n + go_min i (go_rem p n)) = range_start (unat p) (unat n) (unat i)"
    using lo_le pu by (subst unat_add64) (simp_all add: mult go_min_unat[OF i(1) x0] rem range_start_def)
  have lt: "sint i < sint (go_rem p n) \<longleftrightarrow> unat i < ?x"
    using sint_less_iff_unat[OF i(1) x0] rem by simp
  define sz where "sz = (if sint i < sint (go_rem p n) then go_quot p n + 1 else go_quot p n)"
  have "?b < 2 ^ 63" by (rule le_less_trans[OF div_le_dividend pu(2)])
  then have "unat (go_quot p n + 1) = Suc ?b" using unat_add64[of "go_quot p n" 1] quo by simp
  then have sz: "unat sz = ?b + (if unat i < ?x then 1 else 0)" by (simp add: sz_def lt quo)
  have r: "r = \<lparr>Lo = i * go_quot p n + go_min i (go_rem p n),
               Hi = i * go_quot p n + go_min i (go_rem p n) + sz\<rparr>"
    using assms n i p by (simp add: RangeFor_def Let_def sz_def)
  have step: "range_start (unat p) (unat n) (Suc (unat i)) = range_start (unat p) (unat n) (unat i) + unat sz"
    by (simp add: sz range_start_def)
  show "unat (Lo r) = range_start (unat p) (unat n) (unat i)" by (simp add: r lo)
  show "unat (Hi r) = range_start (unat p) (unat n) (Suc (unat i))"
    using step top pu lo by (simp add: r unat_add64)
qed

lemma RangeFor_of_nat:
  assumes "i < N" "N < 2 ^ 63" "ValidPartitionCount p"
  obtains r where "RangeFor (word_of_nat i) (word_of_nat N) p = Inr r"
    "unat (Lo r) = range_start (unat p) N i" "unat (Hi r) = range_start (unat p) N (Suc i)"
proof -
  have small: "unat (word_of_nat i :: go_int) = i" "unat (word_of_nat N :: go_int) = N"
    using assms by (simp_all add: unat_of_nat64)
  have "\<not> (\<exists>e. RangeFor (word_of_nat i) (word_of_nat N) p = Inl e)"
    using assms unfolding RangeFor_Inl_iff by (simp add: sint_of_nat_small)
  then obtain r where "RangeFor (word_of_nat i) (word_of_nat N) p = Inr r" by (metis sum.exhaust)
  with RangeFor_bounds[OF this] small that show thesis by simp
qed

lemma Contains_iff: "Contains r p \<longleftrightarrow> unat (Lo r) \<le> unat p \<and> unat p < unat (Hi r)"
  by (simp add: Contains_def word_le_nat_alt word_less_nat_alt)

section \<open>Building the table\<close>

lemma fill_owner_spec:
  assumes "unat hi \<le> length owner"
  shows "\<exists>o'. fill_owner nid p hi owner = Some o' \<and> length o' = length owner \<and>
           (\<forall>q < length owner. o' ! q = (if unat p \<le> q \<and> q < unat hi then nid else owner ! q))"
  using assms
proof (induction nid p hi owner rule: fill_owner.induct)
  case (1 nid p hi owner)
  show ?case
  proof (cases "p < hi")
    case False
    then show ?thesis by (auto simp: fill_owner.simps[of nid p] word_less_nat_alt)
  next
    case True
    then have lt: "unat p < length owner" using "1.prems" by (simp add: word_less_nat_alt)
    with True "1.IH" "1.prems" obtain o' where
      o': "fill_owner nid (p + 1) hi (owner[unat p := nid]) = Some o'" "length o' = length owner"
      "\<forall>q < length owner. o' ! q = (if Suc (unat p) \<le> q \<and> q < unat hi then nid
                                   else owner[unat p := nid] ! q)"
      by (auto simp: word_succ_unat)
    moreover have "\<forall>q < length owner. o' ! q = (if unat p \<le> q \<and> q < unat hi then nid else owner ! q)"
      using o'(3) True by (auto simp: nth_list_update word_less_nat_alt)
    ultimately show ?thesis using True lt by (simp add: fill_owner.simps[of nid p])
  qed
qed

text \<open>
  After the outer loop has placed the ids from position \<open>i\<close> on, every partition of their ranges
  carries the id of its range, and the partitions below are as before.
\<close>

lemma assign_owners_spec:
  assumes "ValidPartitionCount pc" "N < 2 ^ 63" "i + length ids = N" "length owner = unat pc"
  shows "\<exists>o'. assign_owners i N pc ids owner = Some (Inr o') \<and> length o' = unat pc \<and>
           (\<forall>k < length ids. \<forall>q. range_start (unat pc) N (i + k) \<le> q \<longrightarrow>
               q < range_start (unat pc) N (Suc (i + k)) \<longrightarrow> o' ! q = ids ! k) \<and>
           (\<forall>q < range_start (unat pc) N i. o' ! q = owner ! q)"
  using assms(3,4)
proof (induction ids arbitrary: i owner)
  case Nil
  then show ?case by simp
next
  case (Cons nid ids)
  let ?s = "range_start (unat pc) N"
  have iN: "i < N" using Cons.prems by simp
  obtain r where r: "RangeFor (word_of_nat i) (word_of_nat N) pc = Inr r"
    "unat (Lo r) = ?s i" "unat (Hi r) = ?s (Suc i)"
    using RangeFor_of_nat[OF iN assms(2,1)] by blast
  have top: "?s (Suc i) \<le> unat pc" by (rule ranges.tile_below[OF iN])
  obtain o1 where o1: "fill_owner nid (Lo r) (Hi r) owner = Some o1" "length o1 = unat pc"
    "\<forall>q < unat pc. o1 ! q = (if ?s i \<le> q \<and> q < ?s (Suc i) then nid else owner ! q)"
    using fill_owner_spec[of "Hi r" owner nid "Lo r"] Cons.prems top r by auto
  obtain o2 where o2: "assign_owners (Suc i) N pc ids o1 = Some (Inr o2)" "length o2 = unat pc"
    "\<And>k q. k < length ids \<Longrightarrow> ?s (Suc i + k) \<le> q \<Longrightarrow> q < ?s (Suc (Suc i + k)) \<Longrightarrow> o2 ! q = ids ! k"
    "\<And>q. q < ?s (Suc i) \<Longrightarrow> o2 ! q = o1 ! q"
    using Cons.IH[of "Suc i" o1] Cons.prems o1 by auto
  have here: "o2 ! q = nid" if "?s i \<le> q" "q < ?s (Suc i)" for q
    using o2(4)[of q] o1(3) that top by simp
  have later: "o2 ! q = (nid # ids) ! k"
    if "k < length (nid # ids)" "?s (i + k) \<le> q" "q < ?s (Suc (i + k))" for k q
    using that here o2(3)[of "k - 1" q] by (cases k) simp_all
  have before: "o2 ! q = owner ! q" if "q < ?s i" for q
    using that o2(4)[of q] o1(3) top ranges.start_step[of "unat pc" N i] by simp
  show ?case using r o1 o2 later before by auto
qed

lemma NewTable_errors:
  "NewTable [] pc = Some (Inl NoNodesConfigured)"
  "ids \<noteq> [] \<Longrightarrow> \<not> ValidPartitionCount pc \<Longrightarrow>
     NewTable ids pc = Some (Inl (PartitionCountNotPowerOfTwo pc))"
  "ids \<noteq> [] \<Longrightarrow> ValidPartitionCount pc \<Longrightarrow> unat pc < length ids \<Longrightarrow>
     NewTable ids pc = Some (Inl (TooManyNodes (length ids) pc))"
  using sint_eq_unat[of pc] ValidPartitionCount_sint[of pc]
  by (simp_all add: NewTable_def del: of_nat_unat)

lemma NewTable_ok:
  assumes "ids \<noteq> []" "ValidPartitionCount pc" "length ids \<le> unat pc"
  obtains t where "NewTable ids pc = Some (Inr t)" "tbl_partitionCount t = pc" "tbl_nodeIDs t = ids"
    "length (tbl_owner t) = unat pc"
    "\<And>i q. i < length ids \<Longrightarrow> range_start (unat pc) (length ids) i \<le> q \<Longrightarrow>
       q < range_start (unat pc) (length ids) (Suc i) \<Longrightarrow> tbl_owner t ! q = ids ! i"
proof -
  have "length ids < 2 ^ 63" using assms ValidPartitionCount_unat[of pc] by simp
  moreover have "\<not> sint pc < int (length ids)"
    using assms sint_eq_unat[of pc] ValidPartitionCount_sint[of pc]
    by (simp add: not_less del: of_nat_unat)
  ultimately show thesis
    using assign_owners_spec[of pc "length ids" 0 ids "replicate (unat pc) []"] assms that
    by (auto simp: NewTable_def)
qed

lemma NewTable_Inr_iff:
  "(\<exists>t. NewTable ids pc = Some (Inr t)) \<longleftrightarrow> ids \<noteq> [] \<and> ValidPartitionCount pc \<and> length ids \<le> unat pc"
  by (metis NewTable_errors NewTable_ok not_le option.inject sum.distinct(1))

lemma NewTable_table:
  assumes "NewTable ids pc = Some (Inr t)"
  shows "tbl_partitionCount t = pc" "tbl_nodeIDs t = ids" "length (tbl_owner t) = unat pc"
    "ids \<noteq> []" "ValidPartitionCount pc" "length ids < 2 ^ 63"
    "i < length ids \<Longrightarrow> range_start (unat pc) (length ids) i \<le> q \<Longrightarrow>
       q < range_start (unat pc) (length ids) (Suc i) \<Longrightarrow> tbl_owner t ! q = ids ! i"
proof -
  from assms NewTable_Inr_iff have ok: "ids \<noteq> []" "ValidPartitionCount pc" "length ids \<le> unat pc"
    by blast+
  then show "ids \<noteq> []" "ValidPartitionCount pc" "length ids < 2 ^ 63"
    using ValidPartitionCount_unat[of pc] by auto
  from NewTable_ok[OF ok] assms show "tbl_partitionCount t = pc" "tbl_nodeIDs t = ids"
    "length (tbl_owner t) = unat pc"
    "i < length ids \<Longrightarrow> range_start (unat pc) (length ids) i \<le> q \<Longrightarrow>
       q < range_start (unat pc) (length ids) (Suc i) \<Longrightarrow> tbl_owner t ! q = ids ! i"
    by (metis option.inject sum.inject(2))+
qed

lemma NodeForPartition_tile:
  assumes "NewTable ids pc = Some (Inr t)" "i < length ids"
    "range_start (unat pc) (length ids) i \<le> unat p" "unat p < range_start (unat pc) (length ids) (Suc i)"
  shows "NodeForPartition t p = Some (ids ! i)"
proof -
  have "unat p < unat pc" using assms(4) ranges.tile_below[OF assms(2), of "unat pc"] by simp
  then show ?thesis using NewTable_table[OF assms(1)] assms by (simp add: NodeForPartition_def)
qed

lemma NodeFor_is_NodeForPartition:
  "NewTable ids pc = Some (Inr t) \<Longrightarrow> NodeFor t key = NodeForPartition t (Partition key pc)"
  by (simp add: NodeFor_def NodeForPartition_def NewTable_table Let_def)

lemma NodeForPartition_owner:
  assumes t: "NewTable ids pc = Some (Inr t)" and p: "unat p < unat pc"
  obtains i where "i < length ids" "NodeForPartition t p = Some (ids ! i)"
    "range_start (unat pc) (length ids) i \<le> unat p" "unat p < range_start (unat pc) (length ids) (Suc i)"
proof -
  have "0 < length ids" using NewTable_table(4)[OF t] by simp
  from ranges.tile_exists[OF p this] obtain i where "i < length ids"
    "range_start (unat pc) (length ids) i \<le> unat p" "unat p < range_start (unat pc) (length ids) (Suc i)"
    by blast
  with NodeForPartition_tile[OF t this] that show thesis by blast
qed

lemma NodeForPartition_iff_Contains:
  assumes t: "NewTable ids pc = Some (Inr t)" and d: "distinct ids" and i: "i < length ids"
    and r: "RangeFor (word_of_nat i) (word_of_nat (length ids)) pc = Inr r" and p: "unat p < unat pc"
  shows "NodeForPartition t p = Some (ids ! i) \<longleftrightarrow> Contains r p"
proof -
  have N: "length ids < 2 ^ 63" and v: "ValidPartitionCount pc" using NewTable_table[OF t] by auto
  from RangeFor_of_nat[OF i N v] r have r': "unat (Lo r) = range_start (unat pc) (length ids) i"
    "unat (Hi r) = range_start (unat pc) (length ids) (Suc i)" by auto
  obtain j where j: "j < length ids" "NodeForPartition t p = Some (ids ! j)"
    "range_start (unat pc) (length ids) j \<le> unat p" "unat p < range_start (unat pc) (length ids) (Suc j)"
    by (rule NodeForPartition_owner[OF t p])
  show ?thesis
  proof
    assume "NodeForPartition t p = Some (ids ! i)"
    then have "i = j" using j d i by (simp add: nth_eq_iff_index_eq)
    with j r' show "Contains r p" by (simp add: Contains_iff)
  next
    assume "Contains r p"
    then show "NodeForPartition t p = Some (ids ! i)"
      using NodeForPartition_tile[OF t i] r' by (simp add: Contains_iff)
  qed
qed

section \<open>Properties\<close>

text \<open>
  The ranges \<open>RangeFor\<close> hands out tile the partitions: every partition lies in the range of
  exactly one node of the cluster.
\<close>

lemma ranges_tile_partitions:
  assumes "ValidPartitionCount pc" "0 < sint n" "unat p < unat pc"
  shows "\<exists>!i. 0 \<le> sint i \<and> sint i < sint n \<and> (\<exists>r. RangeFor i n pc = Inr r \<and> Contains r p)"
proof -
  have n: "0 < unat n" "unat n < 2 ^ 63" using assms(2) sint_pos_iff by blast+
  obtain k where k: "k < unat n" "range_start (unat pc) (unat n) k \<le> unat p"
    "unat p < range_start (unat pc) (unat n) (Suc k)"
    using ranges.tile_exists[OF assms(3) n(1)] by blast
  from RangeFor_of_nat[OF k(1) n(2) assms(1)] obtain r where
    "RangeFor (word_of_nat k) (word_of_nat (unat n)) pc = Inr r"
    "unat (Lo r) = range_start (unat pc) (unat n) k"
    "unat (Hi r) = range_start (unat pc) (unat n) (Suc k)" .
  with k have r: "RangeFor (word_of_nat k) n pc = Inr r" "Contains r p"
    by (simp_all add: Contains_iff)
  have k63: "sint (word_of_nat k :: go_int) = int k" using k n by (intro sint_of_nat_small) simp
  have unique: "i = word_of_nat k" if "RangeFor i n pc = Inr r'" "Contains r' p" for i r'
  proof -
    have "unat i = k"
      using RangeFor_bounds[OF that(1)] that(2) k ranges.tile_unique by (metis Contains_iff)
    then show ?thesis by auto
  qed
  have "int k < sint n" using k(1) sint_eq_unat[of n] assms(2) by (simp del: of_nat_unat)
  with r k63 have here: "0 \<le> sint (word_of_nat k :: go_int) \<and> sint (word_of_nat k :: go_int) < sint n \<and>
      (\<exists>r. RangeFor (word_of_nat k) n pc = Inr r \<and> Contains r p)" by auto
  show ?thesis by (rule ex1I, rule here) (use unique in blast)
qed

text \<open>
  The ranges are balanced: the sizes of any two nodes' ranges differ by at most one partition.
\<close>

lemma ranges_balanced:
  assumes "RangeFor i n pc = Inr r" "RangeFor j n pc = Inr r'"
  shows "unat (Range_Count r) \<le> Suc (unat (Range_Count r'))"
proof -
  have count: "unat (Range_Count r) = unat pc div unat n + (if unat i < unat pc mod unat n then 1 else 0)"
    if "RangeFor i n pc = Inr r" for i r
    using RangeFor_bounds[OF that] ranges.start_step[of "unat pc" "unat n" "unat i"]
      range_size[of "unat pc" "unat n" "unat i"]
    by (simp add: Range_Count_def unat_sub word_le_nat_alt)
  show ?thesis by (simp add: count[OF assms(1)] count[OF assms(2)])
qed


definition demo_ids :: "go_string list" where
  "demo_ids = [''node-1'', ''node-2'', ''node-3'']"


text \<open>
  C37. The proxy's table and the nodes' own ranges agree: with distinct ids, the table sends a key
  to node \<open>i\<close> exactly when the range node \<open>i\<close> computes for itself contains the key's partition.
\<close>

theorem table_agrees_with_ranges:
  assumes "NewTable ids pc = Some (Inr t)" "distinct ids" "i < length ids"
    "RangeFor (word_of_nat i) (word_of_nat (length ids)) pc = Inr r"
  shows "NodeFor t key = Some (ids ! i) \<longleftrightarrow> Contains r (Partition key pc)"
  using NodeForPartition_iff_Contains[OF assms Partition_less] NewTable_table(5)[OF assms(1)]
    NodeFor_is_NodeForPartition[OF assms(1)] by simp

theorem table_agrees_with_ranges_witness:
  "\<exists>t. NewTable demo_ids 1024 = Some (Inr t) \<and>
     (NodeFor t ''user:42'' = Some (demo_ids ! 1) \<longleftrightarrow>
        Contains \<lparr>Lo = 342, Hi = 683\<rparr> (Partition ''user:42'' 1024))"
proof -
  have "\<exists>t. NewTable demo_ids 1024 = Some (Inr t)"
    unfolding NewTable_Inr_iff by (simp add: demo_ids_def ValidPartitionCount_def)
  then obtain t where t: "NewTable demo_ids 1024 = Some (Inr t)" by blast
  have d: "distinct demo_ids" and i: "1 < length demo_ids" by (simp_all add: demo_ids_def)
  have r: "RangeFor (word_of_nat 1) (word_of_nat (length demo_ids)) 1024 = Inr \<lparr>Lo = 342, Hi = 683\<rparr>"
    by (simp add: demo_ids_def RangeFor_def ValidPartitionCount_def Let_def go_quot_def go_rem_def
        go_min_def signed_divide_int_def signed_modulo_int_def)
  show ?thesis using t table_agrees_with_ranges[OF t d i r] by blast
qed

text \<open>
  C38. What \<open>ParseRange\<close> makes of the text that \<open>Range.String\<close> writes, for any two bounds: a range that is not
  empty is read back as it was; the text \<open>empty\<close>, which the ranges of surplus nodes have, is refused, and
  so is the text of a range that ends before it starts. An upper bound of 0 is written as
  \<open>2^64 - 1\<close> and read back as 0.
\<close>

theorem ParseRange_Range_String:
  "ParseRange (Range_String r) =
     (if Lo r = Hi r then Inl (BadRange ''empty'' ErrSyntax)
      else if Lo r < Hi r \<or> Hi r = 0 then Inr r
      else Inl (RangeEndsBeforeStart (Range_String r)))"
proof (cases "Lo r = Hi r")
  case True
  have "TrimSpace ''empty'' = ''empty''" by (rule TrimSpace_id) (simp_all add: graphic_def)
  then show ?thesis
    using True by (simp add: Range_String_def ParseRange_def Cut_def ParseUint_def is_digit_def)
next
  case False
  let ?lo = "format_uint (unat (Lo r))" and ?hi = "format_uint (unat (Hi r - 1))"
  have str: "Range_String r = ?lo @ CHR ''-'' # ?hi" using False by (simp add: Range_String_def)
  have dash: "CHR ''-'' \<notin> set ?lo" by (rule digits_no_char) (simp add: is_digit_def)
  have trim: "TrimSpace (Range_String r) = Range_String r"
    by (rule TrimSpace_id) (simp_all add: str graphic_digit hd_format_uint_digit last_format_uint_digit)
  have "Hi r - 1 < Lo r \<longleftrightarrow> \<not> (Lo r < Hi r \<or> Hi r = 0)"
  proof (cases "Hi r = 0")
    case True
    have "\<not> (- 1 :: uint64) < Lo r" by (simp add: not_less)
    then show ?thesis using True by simp
  next
    case nz: False
    then have "unat (Hi r) > 0" by (simp add: unat_gt_0)
    then show ?thesis using nz False by (auto simp: word_less_nat_alt unat_minus_one)
  qed
  then show ?thesis
    using False unfolding ParseRange_def Let_def trim by (simp add: str Cut_found[OF dash])
qed

lemma NodeForPartition_three:
  assumes "NewTable [a, b, c] 1024 = Some (Inr t)" "unat p < 1024"
  shows "NodeForPartition t p =
           Some (if unat p < 342 then a else if unat p < 683 then b else c)"
proof -
  note tile = NodeForPartition_tile[OF assms(1), unfolded range_start_def, simplified]
  show ?thesis using tile[of 0 p] tile[of 1 p] tile[of 2 p] assms(2) by auto
qed

lemma NodeForPartition_four:
  assumes "NewTable [a, b, c, d] 1024 = Some (Inr t)" "unat p < 1024"
  shows "NodeForPartition t p =
           Some (if unat p < 256 then a else if unat p < 512 then b else if unat p < 768 then c else d)"
proof -
  note tile = NodeForPartition_tile[OF assms(1), unfolded range_start_def, simplified]
  show ?thesis using tile[of 0 p] tile[of 1 p] tile[of 2 p] tile[of 3 p] assms(2) by auto
qed

text \<open>
  C39. Growing a cluster of 1024 partitions from three nodes to four moves 513 of them to another
  node: the ranges are contiguous, so the boundaries of the old nodes shift too.
\<close>

theorem growing_moves_half:
  assumes "distinct [a, b, c, d]" "NewTable [a, b, c] 1024 = Some (Inr t)"
    "NewTable [a, b, c, d] 1024 = Some (Inr t')"
  shows "card {p. unat p < 1024 \<and> NodeForPartition t p \<noteq> NodeForPartition t' p} = 513"
proof -
  let ?moved = "{256..<342} \<union> {512..<683} \<union> {768..<1024} :: nat set"
  have "{p. unat p < 1024 \<and> NodeForPartition t p \<noteq> NodeForPartition t' p} = {p. unat p \<in> ?moved}"
    using assms(1) NodeForPartition_three[OF assms(2)] NodeForPartition_four[OF assms(3)]
    by (auto split: if_splits)
  also have "card \<dots> = card ?moved" by (rule card_words64) auto
  also have "\<dots> = 513" by (simp add: card_Un_disjoint Int_Un_distrib2)
  finally show ?thesis .
qed

theorem growing_moves_half_witness:
  "\<exists>t t'. NewTable demo_ids 1024 = Some (Inr t) \<and> NewTable (demo_ids @ [''node-4'']) 1024 = Some (Inr t') \<and>
     card {p. unat p < 1024 \<and> NodeForPartition t p \<noteq> NodeForPartition t' p} = 513"
proof -
  have v: "ValidPartitionCount 1024" by (simp add: ValidPartitionCount_def)
  obtain t where t: "NewTable demo_ids 1024 = Some (Inr t)"
    using NewTable_Inr_iff[of demo_ids 1024] v by (auto simp: demo_ids_def)
  obtain t' where t': "NewTable (demo_ids @ [''node-4'']) 1024 = Some (Inr t')"
    using NewTable_Inr_iff[of "demo_ids @ [''node-4'']" 1024] v by (auto simp: demo_ids_def)
  have "card {p. unat p < 1024 \<and> NodeForPartition t p \<noteq> NodeForPartition t' p} = 513"
    using t t' by (intro growing_moves_half) (simp_all add: demo_ids_def)
  with t t' show ?thesis by blast
qed

end
