(* ===== verification/Json_Scan.thy ===== *)
theory Json_Scan
  imports Go_Strings
begin

text \<open>
  The scanner of Go's \<open>encoding/json\<close>, as far as the program uses it: a state machine that reads
  one byte at a time and keeps a stack of the objects and arrays it is inside of, at most 10000
  deep. \<open>json.Valid\<close> runs it over a text; \<open>json.Compact\<close>, which encodes a \<open>RawMessage\<close>,
  runs it to find the white space outside strings, drops that, and escapes the bytes that are
  unsafe in HTML.

  The lemmas show how runs compose: a run inside an enclosing object (\<open>run_frame\<close>), a run with
  a larger depth limit (\<open>run_mono\<close>), and the run of a compacted text (\<open>compact_run\<close>).
\<close>

section \<open>The scanner\<close>

datatype parse_state = ObjectKey | ObjectValue | ArrayValue

datatype scan_state =
    BeginValueOrEmpty | BeginValue | BeginStringOrEmpty | BeginString
  | EndValue | EndTop
  | InString | InStringEsc | InHex nat
  | Neg | Num1 | Num0 | Dot | Dot0 | E | ESign | E0
  | InLiteral go_string

text \<open>The head of the list is the innermost enclosing object or array.\<close>

type_synonym scan_cfg = "scan_state \<times> parse_state list"

definition is_space :: "char \<Rightarrow> bool" where
  "is_space c \<longleftrightarrow> c = CHR '' '' \<or> c = CHR 0x09 \<or> c = CHR 0x0D \<or> c = CHR 0x0A"

definition is_hex :: "char \<Rightarrow> bool" where
  "is_hex c \<longleftrightarrow> is_digit c \<or> (97 \<le> (of_char c :: nat) \<and> (of_char c :: nat) \<le> 102)
     \<or> (65 \<le> (of_char c :: nat) \<and> (of_char c :: nat) \<le> 70)"

definition is_digit19 :: "char \<Rightarrow> bool" where
  "is_digit19 c \<longleftrightarrow> is_digit c \<and> c \<noteq> CHR ''0''"

definition is_control :: "char \<Rightarrow> bool" where
  "is_control c \<longleftrightarrow> (of_char c :: nat) < 32"

text \<open>Leaving the innermost object or array; outside all of them the text is complete.\<close>

definition popped :: "parse_state list \<Rightarrow> scan_cfg" where
  "popped ps = (if ps = [] then EndTop else EndValue, ps)"

definition pushed :: "nat \<Rightarrow> scan_state \<Rightarrow> parse_state \<Rightarrow> parse_state list \<Rightarrow> scan_cfg option" where
  "pushed limit st p ps = (if length ps < limit then Some (st, p # ps) else None)"

fun end_value :: "parse_state list \<Rightarrow> char \<Rightarrow> scan_cfg option" where
  "end_value [] c = (if is_space c then Some (EndTop, []) else None)"
| "end_value (p # ps) c =
     (if is_space c then Some (EndValue, p # ps)
      else case p of
        ObjectKey \<Rightarrow> if c = CHR '':'' then Some (BeginValue, ObjectValue # ps) else None
      | ObjectValue \<Rightarrow>
          if c = CHR '','' then Some (BeginString, ObjectKey # ps)
          else if c = CHR ''}'' then Some (popped ps) else None
      | ArrayValue \<Rightarrow>
          if c = CHR '','' then Some (BeginValue, ArrayValue # ps)
          else if c = CHR '']'' then Some (popped ps) else None)"

definition begin_value :: "nat \<Rightarrow> parse_state list \<Rightarrow> char \<Rightarrow> scan_cfg option" where
  "begin_value limit ps c =
     (if is_space c then Some (BeginValue, ps)
      else if c = CHR ''{'' then pushed limit BeginStringOrEmpty ObjectKey ps
      else if c = CHR ''['' then pushed limit BeginValueOrEmpty ArrayValue ps
      else if c = CHR 0x22 then Some (InString, ps)
      else if c = CHR ''-'' then Some (Neg, ps)
      else if c = CHR ''0'' then Some (Num0, ps)
      else if c = CHR ''t'' then Some (InLiteral ''rue'', ps)
      else if c = CHR ''f'' then Some (InLiteral ''alse'', ps)
      else if c = CHR ''n'' then Some (InLiteral ''ull'', ps)
      else if is_digit19 c then Some (Num1, ps)
      else None)"

definition begin_string :: "parse_state list \<Rightarrow> char \<Rightarrow> scan_cfg option" where
  "begin_string ps c =
     (if is_space c then Some (BeginString, ps)
      else if c = CHR 0x22 then Some (InString, ps) else None)"

definition num0 :: "parse_state list \<Rightarrow> char \<Rightarrow> scan_cfg option" where
  "num0 ps c =
     (if c = CHR ''.'' then Some (Dot, ps)
      else if c = CHR ''e'' \<or> c = CHR ''E'' then Some (E, ps)
      else end_value ps c)"

fun step :: "nat \<Rightarrow> scan_cfg \<Rightarrow> char \<Rightarrow> scan_cfg option" where
  "step limit (BeginValueOrEmpty, ps) c =
     (if is_space c then Some (BeginValueOrEmpty, ps)
      else if c = CHR '']'' then end_value ps c else begin_value limit ps c)"
| "step limit (BeginValue, ps) c = begin_value limit ps c"
| "step limit (BeginStringOrEmpty, ps) c =
     (if is_space c then Some (BeginStringOrEmpty, ps)
      else if c = CHR ''}''
        then (case ps of [] \<Rightarrow> None | p # ps' \<Rightarrow> end_value (ObjectValue # ps') c)
      else begin_string ps c)"
| "step limit (BeginString, ps) c = begin_string ps c"
| "step limit (EndValue, ps) c = end_value ps c"
| "step limit (EndTop, ps) c = (if is_space c then Some (EndTop, ps) else None)"
| "step limit (InString, ps) c =
     (if c = CHR 0x22 then Some (EndValue, ps)
      else if c = CHR 0x5C then Some (InStringEsc, ps)
      else if is_control c then None else Some (InString, ps))"
| "step limit (InStringEsc, ps) c =
     (if c \<in> set ''bfnrt/'' \<or> c = CHR 0x5C \<or> c = CHR 0x22 then Some (InString, ps)
      else if c = CHR ''u'' then Some (InHex 4, ps) else None)"
| "step limit (InHex n, ps) c =
     (if is_hex c then Some (if n \<le> 1 then InString else InHex (n - 1), ps) else None)"
| "step limit (Neg, ps) c =
     (if c = CHR ''0'' then Some (Num0, ps)
      else if is_digit19 c then Some (Num1, ps) else None)"
| "step limit (Num1, ps) c = (if is_digit c then Some (Num1, ps) else num0 ps c)"
| "step limit (Num0, ps) c = num0 ps c"
| "step limit (Dot, ps) c = (if is_digit c then Some (Dot0, ps) else None)"
| "step limit (Dot0, ps) c =
     (if is_digit c then Some (Dot0, ps)
      else if c = CHR ''e'' \<or> c = CHR ''E'' then Some (E, ps) else end_value ps c)"
| "step limit (E, ps) c =
     (if c = CHR ''+'' \<or> c = CHR ''-'' then Some (ESign, ps)
      else if is_digit c then Some (E0, ps) else None)"
| "step limit (ESign, ps) c = (if is_digit c then Some (E0, ps) else None)"
| "step limit (E0, ps) c = (if is_digit c then Some (E0, ps) else end_value ps c)"
| "step limit (InLiteral w, ps) c =
     (case w of [] \<Rightarrow> None
      | x # xs \<Rightarrow> if c = x then Some (if xs = [] then EndValue else InLiteral xs, ps) else None)"

fun run :: "nat \<Rightarrow> scan_cfg \<Rightarrow> go_string \<Rightarrow> scan_cfg option" where
  "run limit cfg [] = Some cfg"
| "run limit cfg (c # cs) =
     (case step limit cfg c of None \<Rightarrow> None | Some cfg' \<Rightarrow> run limit cfg' cs)"

text \<open>A number is only known to be over at the byte that follows it.\<close>

fun num_final :: "scan_state \<Rightarrow> bool" where
  "num_final Num1 = True"
| "num_final Num0 = True"
| "num_final Dot0 = True"
| "num_final E0 = True"
| "num_final st = False"

definition eof_ok :: "scan_cfg \<Rightarrow> bool" where
  "eof_ok cfg \<longleftrightarrow> snd cfg = [] \<and> (fst cfg = EndTop \<or> fst cfg = EndValue \<or> num_final (fst cfg))"

definition maxNestingDepth :: nat where
  "maxNestingDepth = 10000"

definition Valid_upto :: "nat \<Rightarrow> go_string \<Rightarrow> bool" where
  "Valid_upto limit s = (case run limit (BeginValue, []) s of None \<Rightarrow> False | Some cfg \<Rightarrow> eof_ok cfg)"

definition Valid :: "go_string \<Rightarrow> bool" where
  "Valid s = Valid_upto maxNestingDepth s"

section \<open>Compaction\<close>

text \<open>Lower-case hexadecimal digits, as in the package's constant \<open>hex\<close>.\<close>

definition hex_digit :: "nat \<Rightarrow> char" where
  "hex_digit d = (if d < 10 then char_of (48 + d) else char_of (87 + d))"

definition html_unsafe :: "char \<Rightarrow> bool" where
  "html_unsafe c \<longleftrightarrow> c = CHR ''<'' \<or> c = CHR ''>'' \<or> c = CHR ''&''"

text \<open>\<open>\u00XX\<close> for a byte, and \<open>\u2028\<close>, \<open>\u2029\<close> for the line separators E2 80 A8 and E2 80 A9.\<close>

definition u00 :: "char \<Rightarrow> go_string" where
  "u00 c = [CHR 0x5C, CHR ''u'', CHR ''0'', CHR ''0'',
            hex_digit (of_char c div 16), hex_digit (of_char c mod 16)]"

definition u202 :: "char \<Rightarrow> go_string" where
  "u202 c = [CHR 0x5C, CHR ''u'', CHR ''2'', CHR ''0'', CHR ''2'', hex_digit (of_char c mod 16)]"

definition line_sep :: "go_string \<Rightarrow> bool" where
  "line_sep s \<longleftrightarrow> take 3 s = [CHR 0xE2, CHR 0x80, CHR 0xA8] \<or> take 3 s = [CHR 0xE2, CHR 0x80, CHR 0xA9]"

definition elides :: "scan_cfg \<Rightarrow> char \<Rightarrow> bool" where
  "elides cfg c \<longleftrightarrow> is_space c \<and> fst cfg \<noteq> InString"

text \<open>
  The three bytes of a line separator are replaced at once but scanned one by one; \<open>skip\<close> counts
  those still to be scanned and not to be copied.
\<close>

fun compact_from :: "nat \<Rightarrow> scan_cfg \<Rightarrow> nat \<Rightarrow> go_string \<Rightarrow> go_string option" where
  "compact_from limit cfg skip [] = (if eof_ok cfg then Some [] else None)"
| "compact_from limit cfg skip (c # cs) =
     (case step limit cfg c of
        None \<Rightarrow> None
      | Some cfg' \<Rightarrow>
          if skip \<noteq> 0 then compact_from limit cfg' (skip - 1) cs
          else if line_sep (c # cs)
            then map_option (\<lambda>out. u202 (cs ! 1) @ out) (compact_from limit cfg' 2 cs)
          else if html_unsafe c
            then map_option (\<lambda>out. u00 c @ out) (compact_from limit cfg' 0 cs)
          else if elides cfg c then compact_from limit cfg' 0 cs
          else map_option (\<lambda>out. c # out) (compact_from limit cfg' 0 cs))"

definition Compact :: "go_string \<Rightarrow> go_string option" where
  "Compact s = compact_from maxNestingDepth (BeginValue, []) 0 s"

section \<open>Runs compose\<close>

lemma run_append:
  "run limit cfg (s @ t) = (case run limit cfg s of None \<Rightarrow> None | Some cfg' \<Rightarrow> run limit cfg' t)"
  by (induction s arbitrary: cfg) (auto split: option.splits)

lemma run_appendI: "run limit cfg s = Some cfg' \<Longrightarrow> run limit cfg (s @ t) = run limit cfg' t"
  by (simp add: run_append)

lemmas scan_defs = begin_value_def begin_string_def num0_def pushed_def popped_def

text \<open>The same run inside enclosing objects or arrays \<open>B\<close>: what completed the text completes a value.\<close>

definition framed :: "parse_state list \<Rightarrow> scan_cfg \<Rightarrow> scan_cfg" where
  "framed B cfg = (if fst cfg = EndTop then EndValue else fst cfg, snd cfg @ B)"

lemma end_value_frame:
  assumes "B \<noteq> []" "end_value ps c = Some cfg"
  shows "end_value (ps @ B) c = Some (framed B cfg)"
proof (cases ps)
  case Nil
  then show ?thesis using assms by (cases B) (auto simp: framed_def split: if_splits)
next
  case (Cons p ps')
  have "framed B (popped ps') = popped (ps' @ B)" using assms(1) by (simp add: framed_def popped_def)
  then show ?thesis using assms(2) Cons by (cases p) (auto simp: framed_def split: if_splits)
qed

lemma pushed_framed:
  "st \<noteq> EndTop \<Longrightarrow> pushed (limit + length B) st p (ps @ B) = map_option (framed B) (pushed limit st p ps)"
  by (simp add: pushed_def framed_def)

lemma framed_same: "st \<noteq> EndTop \<Longrightarrow> framed B (st, ps) = (st, ps @ B)"
  by (simp add: framed_def)

lemma begin_value_framed:
  "begin_value (limit + length B) (ps @ B) c = map_option (framed B) (begin_value limit ps c)"
  unfolding begin_value_def
  by (simp only: pushed_framed framed_same if_distrib[of "map_option (framed B)"] option.map
      scan_state.distinct simp_thms if_True not_False_eq_True)

lemma begin_string_framed: "begin_string (ps @ B) c = map_option (framed B) (begin_string ps c)"
  by (simp add: begin_string_def framed_def)

lemma begin_value_frame:
  "begin_value limit ps c = Some cfg \<Longrightarrow> begin_value (limit + length B) (ps @ B) c = Some (framed B cfg)"
  by (simp add: begin_value_framed)

lemma begin_string_frame:
  "begin_string ps c = Some cfg \<Longrightarrow> begin_string (ps @ B) c = Some (framed B cfg)"
  by (simp add: begin_string_framed)

lemma num0_frame:
  "B \<noteq> [] \<Longrightarrow> num0 ps c = Some cfg \<Longrightarrow> num0 (ps @ B) c = Some (framed B cfg)"
  using end_value_frame[of B ps c cfg] by (auto simp: num0_def framed_def split: if_splits)

lemma step_frame:
  assumes "B \<noteq> []" "step limit cfg c = Some cfg'"
  shows "step (limit + length B) (framed B cfg) c = Some (framed B cfg')"
proof -
  obtain st ps where cfg: "cfg = (st, ps)" by (cases cfg)
  have fr: "framed B (st, ps) = (st, ps @ B)" if "st \<noteq> EndTop" for st ps
    using that by (simp add: framed_def)
  show ?thesis
  proof (cases st)
    case EndTop
    then show ?thesis using assms cfg by (cases "ps @ B") (auto simp: framed_def split: if_splits)
  next
    case BeginStringOrEmpty
    have "end_value (ObjectValue # ps') c = Some cfg' \<Longrightarrow>
        end_value (ObjectValue # ps' @ B) c = Some (framed B cfg')" for ps'
      using end_value_frame[OF assms(1), of "ObjectValue # ps'" c] by simp
    with BeginStringOrEmpty show ?thesis using assms cfg
      by (cases cfg')
         (auto simp: fr begin_string_framed split: if_splits list.splits simp del: end_value.simps)
  next
    case (InLiteral w)
    then show ?thesis using assms cfg by (cases w) (auto simp: fr split: if_splits)
  qed (use assms cfg end_value_frame[OF assms(1), of ps c cfg'] begin_value_frame[of limit ps c cfg' B]
          begin_string_frame[of ps c cfg' B] num0_frame[OF assms(1), of ps c cfg'] in
        \<open>auto simp: fr split: if_splits simp del: end_value.simps\<close>)
qed

lemma run_frame:
  assumes "B \<noteq> []" "run limit cfg s = Some cfg'"
  shows "run (limit + length B) (framed B cfg) s = Some (framed B cfg')"
  using assms(2)
proof (induction s arbitrary: cfg)
  case (Cons c s)
  then obtain cfg1 where "step limit cfg c = Some cfg1" "run limit cfg1 s = Some cfg'"
    by (auto split: option.splits)
  with Cons.IH step_frame[OF assms(1)] show ?case by simp
qed simp

lemma step_mono: "step limit cfg c = Some cfg' \<Longrightarrow> limit \<le> limit' \<Longrightarrow> step limit' cfg c = Some cfg'"
  by (cases cfg, cases "fst cfg") (auto simp: scan_defs split: if_splits list.splits)

lemma run_mono: "run limit cfg s = Some cfg' \<Longrightarrow> limit \<le> limit' \<Longrightarrow> run limit' cfg s = Some cfg'"
  by (induction s arbitrary: cfg) (auto split: option.splits dest: step_mono)

section \<open>Compaction keeps the text a JSON text\<close>

text \<open>A run over a text without white space outside its strings.\<close>

fun tight_run :: "nat \<Rightarrow> scan_cfg \<Rightarrow> go_string \<Rightarrow> scan_cfg option" where
  "tight_run limit cfg [] = Some cfg"
| "tight_run limit cfg (c # cs) =
     (if elides cfg c then None
      else case step limit cfg c of None \<Rightarrow> None | Some cfg' \<Rightarrow> tight_run limit cfg' cs)"

lemma tight_run_is_run: "tight_run limit cfg s = Some cfg' \<Longrightarrow> run limit cfg s = Some cfg'"
  by (induction s arbitrary: cfg) (auto split: option.splits if_splits)

lemma tight_run_append:
  "tight_run limit cfg s = Some cfg' \<Longrightarrow> tight_run limit cfg (s @ t) = tight_run limit cfg' t"
  by (induction s arbitrary: cfg) (auto split: option.splits if_splits)

text \<open>
  Where the scanner of the source text has read white space after a value, that of the compacted
  text may still be at the end of the value.
\<close>

definition trails :: "scan_cfg \<Rightarrow> scan_cfg \<Rightarrow> bool" where
  "trails cfg cfgo \<longleftrightarrow> cfgo = cfg \<or> (snd cfgo = snd cfg \<and>
     (fst cfg = EndValue \<and> num_final (fst cfgo) \<or>
      fst cfg = EndTop \<and> snd cfg = [] \<and> (fst cfgo = EndValue \<or> num_final (fst cfgo))))"

lemma trails_eof: "trails cfg cfgo \<Longrightarrow> eof_ok cfg \<Longrightarrow> eof_ok cfgo"
  by (auto simp: trails_def eof_ok_def)

lemma trails_InString: "trails (InString, ps) cfgo \<Longrightarrow> cfgo = (InString, ps)"
  by (auto simp: trails_def)

lemma end_value_not_number:
  "end_value ps c = Some cfg \<Longrightarrow> \<not> is_digit c \<and> c \<noteq> CHR ''.'' \<and> c \<noteq> CHR ''e'' \<and> c \<noteq> CHR ''E''"
  by (cases ps) (auto simp: is_space_def is_digit_def split: if_splits parse_state.splits)

lemma num_final_step:
  "num_final st \<Longrightarrow> end_value ps c = Some cfg \<Longrightarrow> step limit (st, ps) c = Some cfg"
  using end_value_not_number[of ps c cfg] by (cases st) (auto simp: num0_def simp del: end_value.simps)

lemma trails_step:
  assumes "step limit cfg c = Some cfg'" "trails cfg cfgo" "\<not> elides cfg c"
  shows "step limit cfgo c = Some cfg' \<and> \<not> elides cfgo c"
proof (cases "cfgo = cfg")
  case False
  then obtain ps where cfg: "cfg = (EndValue, ps)" and o: "num_final (fst cfgo)" "snd cfgo = ps"
    using assms by (cases cfg) (auto simp: trails_def elides_def split: if_splits)
  then show ?thesis
    using assms num_final_step[of "fst cfgo" ps c cfg' limit] by (cases cfgo) (auto simp: elides_def)
qed (use assms in simp)

lemma end_value_space:
  "is_space c \<Longrightarrow> end_value ps c = Some (if ps = [] then EndTop else EndValue, ps)"
  by (cases ps) auto

lemma space_not_other:
  "is_space c \<Longrightarrow> c \<noteq> CHR ''.'' \<and> c \<noteq> CHR ''e'' \<and> c \<noteq> CHR ''E'' \<and> \<not> is_digit c \<and> \<not> is_digit19 c \<and> \<not> is_hex c
     \<and> c \<notin> set ''bfnrt/'' \<and> c \<noteq> CHR 0x5C \<and> c \<noteq> CHR 0x22 \<and> c \<noteq> CHR ''u'' \<and> c \<noteq> CHR ''0''
     \<and> c \<noteq> CHR ''+'' \<and> c \<noteq> CHR ''-''"
  by (auto simp: is_space_def is_digit_def is_digit19_def is_hex_def)

text \<open>
  Well-formed configurations: the letters a literal still waits for are letters of \<open>true\<close>,
  \<open>false\<close> and \<open>null\<close>; nothing encloses a complete text; an empty object or array can only end
  inside one.
\<close>

definition wf_cfg :: "scan_cfg \<Rightarrow> bool" where
  "wf_cfg cfg \<longleftrightarrow> (\<forall>w. fst cfg = InLiteral w \<longrightarrow> set w \<subseteq> set ''truefalsn'') \<and>
     (fst cfg = EndTop \<longrightarrow> snd cfg = []) \<and>
     (fst cfg = BeginValueOrEmpty \<or> fst cfg = BeginStringOrEmpty \<longrightarrow> snd cfg \<noteq> [])"

lemma wf_cfg_begin_value: "begin_value limit ps c = Some cfg \<Longrightarrow> wf_cfg cfg"
  by (auto simp: begin_value_def pushed_def wf_cfg_def is_space_def split: if_splits)

lemma wf_cfg_end_value: "end_value ps c = Some cfg \<Longrightarrow> wf_cfg cfg"
  by (cases ps) (auto simp: popped_def wf_cfg_def split: if_splits parse_state.splits)

lemma wf_cfg_begin_string: "begin_string ps c = Some cfg \<Longrightarrow> wf_cfg cfg"
  by (auto simp: begin_string_def wf_cfg_def split: if_splits)

lemma wf_cfg_num0: "num0 ps c = Some cfg \<Longrightarrow> wf_cfg cfg"
  using wf_cfg_end_value[of ps c cfg] by (auto simp: num0_def wf_cfg_def split: if_splits)

lemma wf_cfg_step:
  assumes "step limit cfg c = Some cfg'" "wf_cfg cfg"
  shows "wf_cfg cfg'"
proof -
  obtain st ps where cfg: "cfg = (st, ps)" by (cases cfg)
  note pieces = wf_cfg_begin_value[of limit ps c cfg'] wf_cfg_end_value[of _ c cfg']
    wf_cfg_begin_string[of ps c cfg'] wf_cfg_num0[of ps c cfg']
  have simple: "wf_cfg (st, ps)"
    if "\<And>w. st \<noteq> InLiteral w" "st \<noteq> EndTop" "st \<noteq> BeginValueOrEmpty" "st \<noteq> BeginStringOrEmpty" for st ps
    using that by (simp add: wf_cfg_def)
  show ?thesis
  proof (cases st)
    case (InLiteral w)
    then show ?thesis using assms cfg by (cases w) (auto simp: wf_cfg_def split: if_splits)
  next
    case BeginStringOrEmpty
    then show ?thesis using assms cfg pieces simple
      by (auto split: if_splits list.splits simp del: end_value.simps)
  qed (use assms cfg pieces simple in \<open>auto split: if_splits simp del: end_value.simps\<close>)
qed

lemma step_space:
  assumes "step limit (st, ps) c = Some cfg'" "is_space c" "st \<noteq> InString" "wf_cfg (st, ps)"
  shows "cfg' = (st, ps) \<or> (st = EndValue \<or> num_final st) \<and> cfg' = (if ps = [] then EndTop else EndValue, ps)"
proof -
  note sps = end_value_space[OF assms(2)] space_not_other[OF assms(2)]
  show ?thesis
  proof (cases st)
    case (InLiteral w)
    then show ?thesis using assms
      by (cases w) (auto simp: wf_cfg_def is_space_def split: if_splits)
  qed (use assms(1-3) sps in \<open>simp_all add: begin_value_def begin_string_def num0_def
        split: if_splits del: end_value.simps\<close>)
qed

lemma trails_elide:
  assumes "step limit cfg c = Some cfg'" "trails cfg cfgo" "elides cfg c" "wf_cfg cfg"
  shows "trails cfg' cfgo"
proof -
  obtain st ps where cfg: "cfg = (st, ps)" by (cases cfg)
  have "cfg' = (st, ps) \<or> (st = EndValue \<or> num_final st) \<and> cfg' = (if ps = [] then EndTop else EndValue, ps)"
    using assms cfg by (intro step_space) (auto simp: elides_def)
  then show ?thesis using assms(2) cfg by (cases cfgo) (auto simp: trails_def split: if_splits)
qed

lemma hex_digit_is_hex: "d < 16 \<Longrightarrow> is_hex (hex_digit d)"
  by (auto simp: hex_digit_def is_hex_def is_digit_def)

lemma of_char_lt: "(of_char c :: nat) < 256"
  by (metis nat_of_char_less_256)

lemma hex_not_space: "is_hex c \<Longrightarrow> \<not> is_space c"
  using space_not_other by blast

lemma tight_run_unicode_escape:
  assumes "is_hex a" "is_hex b" "is_hex c" "is_hex d"
  shows "tight_run limit (InString, ps) [CHR 0x5C, CHR ''u'', a, b, c, d] = Some (InString, ps)"
proof -
  have "\<not> is_space CHR ''u''" by (simp add: is_space_def)
  then show ?thesis using assms by (simp add: elides_def hex_not_space)
qed

lemma tight_run_u00: "tight_run limit (InString, ps) (u00 c) = Some (InString, ps)"
proof -
  have "(of_char c :: nat) div 16 < 16" using of_char_lt[of c] by (simp add: less_mult_imp_div_less)
  then show ?thesis
    unfolding u00_def
    by (intro tight_run_unicode_escape hex_digit_is_hex) (simp_all add: is_hex_def is_digit_def)
qed

lemma tight_run_u202: "tight_run limit (InString, ps) (u202 c) = Some (InString, ps)"
  unfolding u202_def
  by (intro tight_run_unicode_escape hex_digit_is_hex) (simp_all add: is_hex_def is_digit_def)

text \<open>Bytes that are only legal inside a string.\<close>

definition string_only :: "char \<Rightarrow> bool" where
  "string_only c \<longleftrightarrow> html_unsafe c \<or> 128 \<le> (of_char c :: nat)"

lemma string_only_excludes:
  assumes "string_only c"
  shows "\<not> is_space c" "\<not> is_digit c" "\<not> is_digit19 c" "\<not> is_hex c" "\<not> is_control c"
    "c \<notin> set ''{}[]:,.eE+-tfnalsru0bfnrt/''" "c \<noteq> CHR 0x22" "c \<noteq> CHR 0x5C"
  using assms by (auto simp: string_only_def html_unsafe_def is_space_def is_digit_def is_digit19_def
      is_hex_def is_control_def)

lemma string_only_end_value: "string_only c \<Longrightarrow> end_value ps c = None"
  using string_only_excludes[of c] by (cases ps) (auto split: parse_state.splits)

lemma string_only_step:
  assumes "string_only c" "step limit cfg c = Some cfg'" "wf_cfg cfg"
  shows "fst cfg = InString \<and> cfg' = cfg"
proof -
  note ex = string_only_excludes[OF assms(1)]
  obtain st ps where cfg: "cfg = (st, ps)" by (cases cfg)
  show ?thesis
  proof (cases st)
    case (InLiteral w)
    then show ?thesis using assms cfg ex by (cases w) (auto simp: wf_cfg_def split: if_splits)
  qed (use assms cfg ex string_only_end_value[OF assms(1)] in
        \<open>auto simp: begin_value_def begin_string_def num0_def split: if_splits list.splits
          simp del: end_value.simps\<close>)
qed

text \<open>
  The invariant of the compaction loop: where bytes of a line separator remain to be skipped,
  the scanner is inside a string and they are bytes of that string.
\<close>

definition skipping :: "scan_cfg \<Rightarrow> nat \<Rightarrow> go_string \<Rightarrow> bool" where
  "skipping cfg skip s \<longleftrightarrow> skip = 0 \<or>
     fst cfg = InString \<and> skip \<le> length s \<and> (\<forall>c \<in> set (take skip s). string_only c)"

lemma skipping_line_sep: "line_sep (c # cs) \<Longrightarrow> fst cfg = InString \<Longrightarrow> skipping cfg 2 cs"
  by (cases cs; cases "tl cs") (auto simp: line_sep_def skipping_def string_only_def numeral_2_eq_2)

lemma line_sep_string_only: "line_sep (c # cs) \<Longrightarrow> string_only c"
  by (auto simp: line_sep_def string_only_def)

lemma compact_run:
  assumes "compact_from limit cfg skip s = Some out" "trails cfg cfgo" "wf_cfg cfg" "skipping cfg skip s"
  shows "\<exists>cfg' cfgo'. run limit cfg s = Some cfg' \<and> eof_ok cfg' \<and>
           tight_run limit cfgo out = Some cfgo' \<and> eof_ok cfgo'"
  using assms
proof (induction s arbitrary: cfg cfgo skip out)
  case Nil
  then have "eof_ok cfg" "out = []" by (auto split: if_splits)
  then show ?case using Nil.prems(2) trails_eof by auto
next
  case (Cons c cs)
  then obtain cfg1 where st: "step limit cfg c = Some cfg1" by (auto split: option.splits)
  have wf1: "wf_cfg cfg1" by (rule wf_cfg_step[OF st Cons.prems(3)])
  have inside: "fst cfg = InString \<and> cfg1 = cfg" if "string_only c"
    by (rule string_only_step[OF that st Cons.prems(3)])
  have same: "cfgo = cfg" if "fst cfg = InString"
    using that Cons.prems(2) trails_InString by (metis prod.collapse)
  have goal: ?case if "compact_from limit cfg1 k cs = Some out1" "skipping cfg1 k cs"
    "trails cfg1 cfgo1" "tight_run limit cfgo w = Some cfgo1" "out = w @ out1" for k out1 cfgo1 w
    using Cons.IH[OF that(1,3) wf1 that(2)] st that tight_run_append[OF that(4), of out1]
    by (auto split: option.splits)
  consider (skip) "skip \<noteq> 0" | (sep) "skip = 0" "line_sep (c # cs)"
    | (html) "skip = 0" "\<not> line_sep (c # cs)" "html_unsafe c"
    | (elide) "skip = 0" "\<not> line_sep (c # cs)" "\<not> html_unsafe c" "elides cfg c"
    | (copy) "skip = 0" "\<not> line_sep (c # cs)" "\<not> html_unsafe c" "\<not> elides cfg c" by blast
  then show ?case
  proof cases
    case skip
    then have sk: "fst cfg = InString" "string_only c" "skipping cfg (skip - 1) cs"
      using Cons.prems(4) by (cases skip; auto simp: skipping_def)+
    then show ?thesis using goal[of "skip - 1" out cfgo "[]"] inside same Cons.prems(1) st skip
      by (auto simp: trails_def)
  next
    case sep
    then have "fst cfg = InString" "cfg1 = cfg" using inside line_sep_string_only by blast+
    with sep Cons.prems(1) st obtain out1 where
      "compact_from limit cfg 2 cs = Some out1" "out = u202 (cs ! 1) @ out1" by auto
    with \<open>fst cfg = InString\<close> \<open>cfg1 = cfg\<close> show ?thesis
      using goal[of 2 out1 cfgo "u202 (cs ! 1)"] same skipping_line_sep[OF sep(2)]
        tight_run_u202[of limit "snd cfg"] by (cases cfg) (auto simp: trails_def)
  next
    case html
    then have "fst cfg = InString" "cfg1 = cfg" using inside by (auto simp: string_only_def)
    with html Cons.prems(1) st obtain out1 where
      "compact_from limit cfg 0 cs = Some out1" "out = u00 c @ out1" by auto
    with \<open>fst cfg = InString\<close> \<open>cfg1 = cfg\<close> show ?thesis
      using goal[of 0 out1 cfgo "u00 c"] same tight_run_u00[of limit "snd cfg" c]
      by (cases cfg) (auto simp: trails_def skipping_def)
  next
    case elide
    then show ?thesis
      using goal[of 0 out cfgo "[]"] trails_elide[OF st Cons.prems(2) elide(4) Cons.prems(3)]
        Cons.prems(1) st by (simp add: skipping_def)
  next
    case copy
    then obtain out1 where "compact_from limit cfg1 0 cs = Some out1" "out = c # out1"
      using Cons.prems(1) st by auto
    then show ?thesis
      using goal[of 0 out1 cfg1 "[c]"] trails_step[OF st Cons.prems(2) copy(4)]
      by (simp add: skipping_def trails_def)
  qed
qed

lemma compact_defined:
  "run limit cfg s = Some cfg' \<Longrightarrow> eof_ok cfg' \<Longrightarrow> \<exists>out. compact_from limit cfg skip s = Some out"
  by (induction s arbitrary: cfg skip) (auto split: option.splits)

lemma wf_start [simp]: "wf_cfg (BeginValue, ps)"
  by (simp add: wf_cfg_def)

lemma Valid_uptoE:
  assumes "Valid_upto limit s"
  obtains cfg where "run limit (BeginValue, []) s = Some cfg" "eof_ok cfg"
  using assms by (auto simp: Valid_upto_def split: option.splits)

lemma compact_from_start:
  assumes "compact_from limit (BeginValue, []) 0 s = Some out"
  obtains cfg where "tight_run limit (BeginValue, []) out = Some cfg" "eof_ok cfg" "Valid_upto limit s"
  using compact_run[OF assms, of "(BeginValue, [])"]
  by (auto simp: trails_def skipping_def Valid_upto_def)

lemma Compact_defined_iff: "(\<exists>out. Compact s = Some out) \<longleftrightarrow> Valid s"
  by (metis Compact_def Valid_def Valid_uptoE compact_defined compact_from_start)

lemma Compact_Valid: "Compact s = Some out \<Longrightarrow> Valid out"
  using compact_from_start[of maxNestingDepth s out] tight_run_is_run
  by (fastforce simp: Compact_def Valid_def Valid_upto_def)

section \<open>One value out of a longer text\<close>

text \<open>
  The decoder cuts the bytes of one value out of a text that goes on after it: a string, a literal,
  an object or an array is over at its last byte, a number before the first byte that is not part
  of it.
\<close>

definition value_done :: "scan_cfg \<Rightarrow> bool" where
  "value_done cfg \<longleftrightarrow> snd cfg = [] \<and> (fst cfg = EndValue \<or> fst cfg = EndTop)"

definition number_byte :: "char \<Rightarrow> bool" where
  "number_byte c \<longleftrightarrow> is_digit c \<or> c = CHR ''.'' \<or> c = CHR ''e'' \<or> c = CHR ''E''"

definition value_over :: "scan_cfg \<Rightarrow> char \<Rightarrow> bool" where
  "value_over cfg c \<longleftrightarrow> value_done cfg \<or> snd cfg = [] \<and> num_final (fst cfg) \<and> \<not> number_byte c"

fun scan_value :: "nat \<Rightarrow> scan_cfg \<Rightarrow> go_string \<Rightarrow> (go_string \<times> go_string) option" where
  "scan_value limit cfg [] = (if eof_ok cfg then Some ([], []) else None)"
| "scan_value limit cfg (c # cs) =
     (if value_over cfg c then Some ([], c # cs)
      else case step limit cfg c of
             None \<Rightarrow> None
           | Some cfg' \<Rightarrow> map_option (\<lambda>(v, rest). (c # v, rest)) (scan_value limit cfg' cs))"

lemma value_over_eof: "value_over cfg c \<Longrightarrow> eof_ok cfg"
  by (auto simp: value_over_def value_done_def eof_ok_def)

lemma scan_value_append: "scan_value limit cfg s = Some (v, rest) \<Longrightarrow> s = v @ rest"
  by (induction s arbitrary: cfg v) (auto split: if_splits option.splits)

lemma end_value_unframe:
  "end_value ((p # ps) @ B) c = Some cfg1 \<Longrightarrow> B \<noteq> [] \<Longrightarrow>
   \<exists>cfg'. end_value (p # ps) c = Some cfg' \<and> cfg1 = framed B cfg'"
  by (cases ps) (auto simp: framed_def popped_def split: if_splits parse_state.splits)

lemma step_unframe:
  assumes "step (limit + length B) (framed B cfg) c = Some cfg1" "B \<noteq> []" "wf_cfg cfg"
    "\<not> value_over cfg c"
  shows "\<exists>cfg'. step limit cfg c = Some cfg' \<and> cfg1 = framed B cfg'"
proof -
  obtain st ps where cfg: "cfg = (st, ps)" by (cases cfg)
  have top: "st \<noteq> EndTop"
  proof
    assume "st = EndTop"
    with assms(3) cfg have "cfg = (EndTop, [])" by (simp add: wf_cfg_def)
    with assms(4) show False by (simp add: value_over_def value_done_def)
  qed
  then have st: "step (limit + length B) (st, ps @ B) c = Some cfg1"
    using assms(1) cfg by (simp add: framed_def)
  have ev: "\<exists>cfg'. end_value qs c = Some cfg' \<and> cfg1 = framed B cfg'"
    if "end_value (qs @ B) c = Some cfg1" "qs \<noteq> []" for qs
    using that end_value_unframe[OF _ assms(2)] by (cases qs) auto
  have num: "ps \<noteq> [] \<or> number_byte c" if "num_final st"
    using that assms(4) cfg by (auto simp: value_over_def)
  have nb: "\<exists>cfg'. end_value ps c = Some cfg' \<and> cfg1 = framed B cfg'"
    if "end_value (ps @ B) c = Some cfg1" "num_final st"
    using that ev num end_value_not_number[of "ps @ B" c cfg1] by (auto simp: number_byte_def)
  show ?thesis
  proof (cases st)
    case BeginStringOrEmpty
    then obtain p ps' where ps: "ps = p # ps'" using assms(3) cfg by (cases ps) (auto simp: wf_cfg_def)
    have bs: "\<exists>cfg'. begin_string ps c = Some cfg' \<and> cfg1 = framed B cfg'"
      if "begin_string (ps @ B) c = Some cfg1" using that by (auto simp: begin_string_framed)
    consider "is_space c" | "\<not> is_space c" "c = CHR ''}''" | "\<not> is_space c" "c \<noteq> CHR ''}''" by blast
    then show ?thesis
    proof cases
      case 1
      then show ?thesis using st cfg BeginStringOrEmpty by (simp add: framed_def)
    next
      case 2
      then show ?thesis using st cfg BeginStringOrEmpty ps ev[of "ObjectValue # ps'"]
        by (simp del: end_value.simps)
    next
      case 3
      then show ?thesis using st cfg BeginStringOrEmpty bs by simp
    qed
  next
    case BeginValueOrEmpty
    then have "ps \<noteq> []" using assms(3) cfg by (auto simp: wf_cfg_def)
    then show ?thesis using st cfg BeginValueOrEmpty ev[of ps]
      by (auto simp: begin_value_framed framed_def split: if_splits simp del: end_value.simps)
  next
    case EndValue
    then have "ps \<noteq> []" using assms(4) cfg by (auto simp: value_over_def value_done_def)
    then show ?thesis using st cfg EndValue ev[of ps] by (auto simp del: end_value.simps)
  next
    case (InLiteral w)
    then show ?thesis using st cfg by (cases w) (auto simp: framed_def split: if_splits)
  qed (use st cfg top nb in \<open>auto simp: begin_value_framed begin_string_framed num0_def framed_def
        split: if_splits simp del: end_value.simps\<close>)
qed

text \<open>
  Inside an enclosing object that the text goes on to close, the decoder finds the value: its bytes
  are a JSON text of their own, and the scanner goes on behind it.
\<close>

lemma scan_value_found:
  assumes "run (limit + length B) (framed B cfg) s = Some cfg1" "snd cfg1 = []" "B \<noteq> []" "wf_cfg cfg"
  shows "\<exists>v rest cfg'. scan_value limit cfg s = Some (v, rest) \<and> run limit cfg v = Some cfg' \<and>
           eof_ok cfg' \<and> run (limit + length B) (framed B cfg') rest = Some cfg1"
  using assms(1,4)
proof (induction s arbitrary: cfg)
  case Nil
  then show ?case using assms(2,3) by (auto simp: framed_def)
next
  case (Cons c cs)
  show ?case
  proof (cases "value_over cfg c")
    case True
    then show ?thesis using Cons.prems value_over_eof
      by (intro exI[of _ "[]"] exI[of _ "c # cs"] exI[of _ cfg]) auto
  next
    case False
    from Cons.prems obtain cfg2 where "step (limit + length B) (framed B cfg) c = Some cfg2"
      "run (limit + length B) cfg2 cs = Some cfg1" by (auto split: option.splits)
    with step_unframe[OF _ assms(3) Cons.prems(2) False] obtain cfg' where
      st: "step limit cfg c = Some cfg'" "run (limit + length B) (framed B cfg') cs = Some cfg1" by blast
    obtain v rest cfg3 where "scan_value limit cfg' cs = Some (v, rest)" "run limit cfg' v = Some cfg3"
      "eof_ok cfg3" "run (limit + length B) (framed B cfg3) rest = Some cfg1"
      using Cons.IH[OF st(2) wf_cfg_step[OF st(1) Cons.prems(2)]] by blast
    then show ?thesis using st False
      by (intro exI[of _ "c # v"] exI[of _ rest] exI[of _ cfg3]) simp
  qed
qed

text \<open>A text without outer white space is found whole in front of any byte that is not a number's.\<close>

lemma scan_value_tight:
  assumes "tight_run limit cfg out = Some cfg'" "eof_ok cfg'" "\<not> number_byte r"
  shows "scan_value limit cfg (out @ r # rest) = Some (out, r # rest)"
  using assms(1)
proof (induction out arbitrary: cfg)
  case Nil
  then have "value_over cfg r" using assms(2,3)
    by (auto simp: eof_ok_def value_over_def value_done_def)
  then show ?case by simp
next
  case (Cons c out)
  then obtain cfg1 where st: "\<not> elides cfg c" "step limit cfg c = Some cfg1" "tight_run limit cfg1 out = Some cfg'"
    by (auto split: option.splits if_splits)
  have "\<not> value_over cfg c"
  proof
    assume over: "value_over cfg c"
    then have "end_value [] c = Some cfg1 \<or> is_space c" using st(2)
      by (cases cfg, cases "fst cfg") (auto simp: value_over_def value_done_def number_byte_def num0_def
          split: if_splits)
    then have "is_space c" by (auto split: if_splits)
    then show False using st(1) over by (auto simp: elides_def value_over_def value_done_def)
  qed
  then show ?case using st Cons.IH[OF st(3)] by simp
qed

end
