(* ===== verification/Json_Text.thy ===== *)
theory Json_Text
  imports Json_Scan
begin

text \<open>
  JSON strings: the UTF-8 decoding of \<open>unicode/utf8\<close>, and the encoding and decoding of JSON
  strings by \<open>encoding/json\<close> (\<open>appendString\<close> with HTML escaping, and \<open>unquote\<close>). Both
  replace a byte that does not start a valid UTF-8 sequence by U+FFFD, so encoding and decoding
  agree up to that replacement (\<open>unquote_quote\<close>), and what decoding yields is always valid UTF-8.
\<close>

section \<open>UTF-8\<close>

definition byte_in :: "nat \<Rightarrow> nat \<Rightarrow> char \<Rightarrow> bool" where
  "byte_in lo hi c \<longleftrightarrow> lo \<le> of_char c \<and> of_char c \<le> hi"

text \<open>The second byte's range depends on the first: no overlong forms, no surrogates, no more than U+10FFFF.\<close>

definition second_ok :: "char \<Rightarrow> char \<Rightarrow> bool" where
  "second_ok a b =
     (if a = CHR 0xE0 then byte_in 0xA0 0xBF b
      else if a = CHR 0xED then byte_in 0x80 0x9F b
      else if a = CHR 0xF0 then byte_in 0x90 0xBF b
      else if a = CHR 0xF4 then byte_in 0x80 0x8F b
      else byte_in 0x80 0xBF b)"

text \<open>The length of the UTF-8 sequence a string starts with, 0 if it does not start with one.\<close>

fun utf8_len :: "go_string \<Rightarrow> nat" where
  "utf8_len [] = 0"
| "utf8_len (a # s) =
     (if byte_in 0 0x7F a then 1
      else if byte_in 0xC2 0xDF a
        then (case s of b # _ \<Rightarrow> if byte_in 0x80 0xBF b then 2 else 0 | _ \<Rightarrow> 0)
      else if byte_in 0xE0 0xEF a
        then (case s of b # c # _ \<Rightarrow> if second_ok a b \<and> byte_in 0x80 0xBF c then 3 else 0 | _ \<Rightarrow> 0)
      else if byte_in 0xF0 0xF4 a
        then (case s of b # c # d # _ \<Rightarrow>
                if second_ok a b \<and> byte_in 0x80 0xBF c \<and> byte_in 0x80 0xBF d then 4 else 0
              | _ \<Rightarrow> 0)
      else 0)"

definition replacement :: go_string where
  "replacement = [CHR 0xEF, CHR 0xBF, CHR 0xBD]"

lemma utf8_len_le: "utf8_len s \<le> length s"
  by (cases s rule: utf8_len.cases) (auto split: list.splits)

lemma utf8_len_pos_Cons: "utf8_len s \<noteq> 0 \<Longrightarrow> length s - utf8_len s < length s"
  using utf8_len_le[of s] by simp

text \<open>A string with every byte that does not start a UTF-8 sequence replaced by U+FFFD.\<close>

function sanitize :: "go_string \<Rightarrow> go_string" where
  "sanitize [] = []"
| "sanitize (c # cs) =
     (let n = utf8_len (c # cs) in
      if n = 0 then replacement @ sanitize cs
      else take n (c # cs) @ sanitize (drop n (c # cs)))"
  by pat_completeness auto
termination
  by (relation "measure length") (simp_all del: utf8_len.simps drop_Cons')

function valid_utf8 :: "go_string \<Rightarrow> bool" where
  "valid_utf8 [] = True"
| "valid_utf8 (c # cs) =
     (let n = utf8_len (c # cs) in if n = 0 then False else valid_utf8 (drop n (c # cs)))"
  by pat_completeness auto
termination
  by (relation "measure length") (simp_all del: utf8_len.simps drop_Cons')

text \<open>\<open>utf8.EncodeRune\<close>: a surrogate or a value past U+10FFFF is encoded as U+FFFD.\<close>

definition encode_rune :: "nat \<Rightarrow> go_string" where
  "encode_rune r =
     (if r < 0x80 then [char_of r]
      else if r < 0x800 then [char_of (0xC0 + r div 64), char_of (0x80 + r mod 64)]
      else if (0xD800 \<le> r \<and> r < 0xE000) \<or> 0x110000 \<le> r then replacement
      else if r < 0x10000
        then [char_of (0xE0 + r div 4096), char_of (0x80 + r div 64 mod 64), char_of (0x80 + r mod 64)]
      else [char_of (0xF0 + r div 262144), char_of (0x80 + r div 4096 mod 64),
            char_of (0x80 + r div 64 mod 64), char_of (0x80 + r mod 64)])"

section \<open>Encoding a string\<close>

text \<open>The ASCII bytes that stand for themselves in a JSON string that is safe in HTML.\<close>

definition html_safe :: "char \<Rightarrow> bool" where
  "html_safe c \<longleftrightarrow> byte_in 0x20 0x7F c \<and> c \<noteq> CHR 0x22 \<and> c \<noteq> CHR 0x5C \<and> \<not> html_unsafe c"

definition escape_byte :: "char \<Rightarrow> go_string" where
  "escape_byte c =
     (if c = CHR 0x5C \<or> c = CHR 0x22 then [CHR 0x5C, c]
      else if c = CHR 0x08 then [CHR 0x5C, CHR ''b'']
      else if c = CHR 0x0C then [CHR 0x5C, CHR ''f'']
      else if c = CHR 0x0A then [CHR 0x5C, CHR ''n'']
      else if c = CHR 0x0D then [CHR 0x5C, CHR ''r'']
      else if c = CHR 0x09 then [CHR 0x5C, CHR ''t'']
      else u00 c)"

function quote_loop :: "go_string \<Rightarrow> go_string" where
  "quote_loop [] = []"
| "quote_loop (c # cs) =
     (if byte_in 0 0x7F c then (if html_safe c then [c] else escape_byte c) @ quote_loop cs
      else if utf8_len (c # cs) = 0
        then CHR 0x5C # ''ufffd'' @ quote_loop cs
      else if line_sep (c # cs) then u202 (cs ! 1) @ quote_loop (drop 3 (c # cs))
      else take (utf8_len (c # cs)) (c # cs) @ quote_loop (drop (utf8_len (c # cs)) (c # cs)))"
  by pat_completeness auto
termination
  by (relation "measure length") (simp_all del: utf8_len.simps drop_Cons')

definition quote :: "go_string \<Rightarrow> go_string" where
  "quote s = CHR 0x22 # quote_loop s @ [CHR 0x22]"

section \<open>Decoding a string\<close>

definition hex_val :: "char \<Rightarrow> nat" where
  "hex_val c =
     (if is_digit c then of_char c - 48
      else if byte_in 97 102 c then of_char c - 87 else of_char c - 55)"

text \<open>\<open>getu4\<close>: the four hexadecimal digits after \<open>\u\<close>.\<close>

fun hex4 :: "go_string \<Rightarrow> nat option" where
  "hex4 (a # b # c # d # _) =
     (if is_hex a \<and> is_hex b \<and> is_hex c \<and> is_hex d
      then Some (((hex_val a * 16 + hex_val b) * 16 + hex_val c) * 16 + hex_val d) else None)"
| "hex4 _ = None"

definition getu4 :: "go_string \<Rightarrow> nat option" where
  "getu4 s = (case s of a # b # rest \<Rightarrow> if a = CHR 0x5C \<and> b = CHR ''u'' then hex4 rest else None
              | _ \<Rightarrow> None)"

definition is_surrogate :: "nat \<Rightarrow> bool" where
  "is_surrogate r \<longleftrightarrow> 0xD800 \<le> r \<and> r < 0xE000"

text \<open>\<open>utf16.DecodeRune\<close> of a high and a low surrogate.\<close>

definition surrogate_pair :: "nat \<Rightarrow> nat option \<Rightarrow> nat option" where
  "surrogate_pair hi lo =
     (case lo of None \<Rightarrow> None
      | Some l \<Rightarrow> if 0xD800 \<le> hi \<and> hi < 0xDC00 \<and> 0xDC00 \<le> l \<and> l < 0xE000
                  then Some ((hi - 0xD800) * 1024 + (l - 0xDC00) + 0x10000) else None)"

definition simple_escape :: "char \<Rightarrow> char option" where
  "simple_escape e =
     (if e = CHR 0x22 \<or> e = CHR 0x5C \<or> e = CHR ''/'' \<or> e = CHR 0x27 then Some e
      else if e = CHR ''b'' then Some CHR 0x08
      else if e = CHR ''f'' then Some CHR 0x0C
      else if e = CHR ''n'' then Some CHR 0x0A
      else if e = CHR ''r'' then Some CHR 0x0D
      else if e = CHR ''t'' then Some CHR 0x09
      else None)"

function unquote_loop :: "go_string \<Rightarrow> go_string option" where
  "unquote_loop [] = Some []"
| "unquote_loop (c # cs) =
     (if c = CHR 0x5C
      then (case cs of
              [] \<Rightarrow> None
            | e # es \<Rightarrow>
                (case simple_escape e of
                   Some x \<Rightarrow> map_option (\<lambda>t. x # t) (unquote_loop es)
                 | None \<Rightarrow>
                     if e \<noteq> CHR ''u'' then None
                     else (case hex4 es of
                             None \<Rightarrow> None
                           | Some r \<Rightarrow>
                               (case (if is_surrogate r then surrogate_pair r (getu4 (drop 4 es)) else None) of
                                  Some q \<Rightarrow> map_option (append (encode_rune q)) (unquote_loop (drop 10 es))
                                | None \<Rightarrow> map_option (append (encode_rune r)) (unquote_loop (drop 4 es))))))
      else if c = CHR 0x22 \<or> is_control c then None
      else if utf8_len (c # cs) = 0
        then map_option (append replacement) (unquote_loop cs)
      else map_option (append (take (utf8_len (c # cs)) (c # cs)))
             (unquote_loop (drop (utf8_len (c # cs)) (c # cs))))"
  by pat_completeness auto
termination
  by (relation "measure length") (simp_all del: utf8_len.simps drop_Cons')

definition unquote :: "go_string \<Rightarrow> go_string option" where
  "unquote item =
     (if length item < 2 \<or> hd item \<noteq> CHR 0x22 \<or> last item \<noteq> CHR 0x22 then None
      else unquote_loop (butlast (tl item)))"

declare sanitize.simps(2) [simp del] valid_utf8.simps(2) [simp del] quote_loop.simps(2) [simp del]
  unquote_loop.simps(2) [simp del]

section \<open>UTF-8 sequences\<close>

lemma utf8_len_cases:
  assumes "utf8_len s \<noteq> 0"
  obtains (one) a t where "s = a # t" "byte_in 0 0x7F a" "utf8_len s = 1"
  | (two) a b t where "s = a # b # t" "byte_in 0xC2 0xDF a" "byte_in 0x80 0xBF b" "utf8_len s = 2"
  | (three) a b c t where "s = a # b # c # t" "byte_in 0xE0 0xEF a" "second_ok a b"
      "byte_in 0x80 0xBF c" "utf8_len s = 3"
  | (four) a b c d t where "s = a # b # c # d # t" "byte_in 0xF0 0xF4 a" "second_ok a b"
      "byte_in 0x80 0xBF c" "byte_in 0x80 0xBF d" "utf8_len s = 4"
  using assms by (cases s) (auto split: list.splits if_splits)

lemma second_ok_high: "second_ok a b \<Longrightarrow> byte_in 0x80 0xBF b"
  by (auto simp: second_ok_def byte_in_def split: if_splits)

lemma utf8_len_simps:
  "byte_in 0 0x7F a \<Longrightarrow> utf8_len (a # t) = 1"
  "byte_in 0xC2 0xDF a \<Longrightarrow> byte_in 0x80 0xBF b \<Longrightarrow> utf8_len (a # b # t) = 2"
  "byte_in 0xE0 0xEF a \<Longrightarrow> second_ok a b \<Longrightarrow> byte_in 0x80 0xBF c \<Longrightarrow> utf8_len (a # b # c # t) = 3"
  "byte_in 0xF0 0xF4 a \<Longrightarrow> second_ok a b \<Longrightarrow> byte_in 0x80 0xBF c \<Longrightarrow> byte_in 0x80 0xBF d \<Longrightarrow>
     utf8_len (a # b # c # d # t) = 4"
  by (auto simp: byte_in_def)

lemma utf8_len_prefix:
  assumes "utf8_len u = length u" "u \<noteq> []"
  shows "utf8_len (u @ s) = length u"
proof -
  have "utf8_len u \<noteq> 0" using assms by simp
  then show ?thesis by (cases rule: utf8_len_cases) (use assms in \<open>auto simp: utf8_len_simps simp del: utf8_len.simps\<close>)
qed

lemma utf8_len_take: "utf8_len s \<noteq> 0 \<Longrightarrow> utf8_len (take (utf8_len s) s) = utf8_len s"
  by (cases s rule: utf8_len_cases) (auto simp: utf8_len_simps simp del: utf8_len.simps)

lemma utf8_tail_bytes:
  assumes "utf8_len s \<noteq> 0" "\<not> byte_in 0 0x7F (hd s)" "x \<in> set (take (utf8_len s) s)"
  shows "128 \<le> (of_char x :: nat)"
proof -
  have hi: "byte_in lo hi y \<Longrightarrow> 128 \<le> lo \<Longrightarrow> 128 \<le> (of_char y :: nat)" for lo hi y
    by (simp add: byte_in_def)
  show ?thesis using assms(1)
    by (cases rule: utf8_len_cases)
       (use assms(2,3) in \<open>auto simp: utf8_len_simps dest: second_ok_high hi simp del: utf8_len.simps\<close>)
qed

lemma sanitize_rune:
  assumes "utf8_len u = length u" "u \<noteq> []"
  shows "sanitize (u @ s) = u @ sanitize s"
  using assms utf8_len_prefix[OF assms, of s] by (cases u) (simp_all add: sanitize.simps)

lemma valid_utf8_rune:
  assumes "utf8_len u = length u" "u \<noteq> []"
  shows "valid_utf8 (u @ s) = valid_utf8 s"
  using assms utf8_len_prefix[OF assms, of s] by (cases u) (simp_all add: valid_utf8.simps)

lemma replacement_rune: "utf8_len replacement = length replacement" "replacement \<noteq> []"
  by (simp_all add: replacement_def byte_in_def second_ok_def)

lemma utf8_split:
  assumes "utf8_len s \<noteq> 0"
  obtains u t where "s = u @ t" "utf8_len u = length u" "u \<noteq> []" "u = take (utf8_len s) s"
    "t = drop (utf8_len s) s"
proof
  show "s = take (utf8_len s) s @ drop (utf8_len s) s" by simp
  show "utf8_len (take (utf8_len s) s) = length (take (utf8_len s) s)"
    using utf8_len_take[OF assms] utf8_len_le[of s] by simp
  show "take (utf8_len s) s \<noteq> []" using assms by (cases s) auto
qed simp_all

lemma valid_utf8_sanitize: "valid_utf8 (sanitize s)"
proof (induction s rule: sanitize.induct)
  case (2 c cs)
  show ?case
  proof (cases "utf8_len (c # cs) = 0")
    case True
    then show ?thesis using 2(1)[OF refl] valid_utf8_rune[OF replacement_rune] by (simp add: sanitize.simps(2))
  next
    case False
    then obtain u t where "c # cs = u @ t" "utf8_len u = length u" "u \<noteq> []" "t = drop (utf8_len (c # cs)) (c # cs)"
      using utf8_split by metis
    then show ?thesis using 2(2)[OF refl False] sanitize_rune[of u t] valid_utf8_rune[of u] by simp
  qed
qed simp

lemma sanitize_valid: "valid_utf8 s \<Longrightarrow> sanitize s = s"
proof (induction s rule: valid_utf8.induct)
  case (2 c cs)
  then have n: "utf8_len (c # cs) \<noteq> 0" and v: "valid_utf8 (drop (utf8_len (c # cs)) (c # cs))"
    by (auto simp: valid_utf8.simps(2) Let_def split: if_splits)
  then show ?case using 2(1)[OF refl n v] by (simp add: sanitize.simps(2) Let_def del: utf8_len.simps)
qed simp

lemma char_code_eq: "(of_char a :: nat) = of_char b \<longleftrightarrow> a = b"
  by simp

lemma second_ok_code:
  "second_ok a b \<longleftrightarrow> byte_in (if of_char a = (0xE0 :: nat) then 0xA0 else if of_char a = (0xF0 :: nat) then 0x90 else 0x80)
     (if of_char a = (0xED :: nat) then 0x9F else if of_char a = (0xF4 :: nat) then 0x8F else 0xBF) b"
  using char_code_eq[of a "CHR 0xE0"] char_code_eq[of a "CHR 0xED"]
    char_code_eq[of a "CHR 0xF0"] char_code_eq[of a "CHR 0xF4"]
  by (auto simp: second_ok_def)

lemma of_char_code: "n < 256 \<Longrightarrow> (of_char (char_of n) :: nat) = n"
  by simp

lemma base64_split:
  obtains q b l :: nat where "r = 4096 * q + 64 * b + l" "b < 64" "l < 64"
    "r div 4096 = q" "r div 64 mod 64 = b" "r mod 64 = l"
proof
  have "r div 4096 = r div 64 div 64" by (simp add: div_mult2_eq [symmetric])
  then have "64 * (r div 4096) + r div 64 mod 64 = r div 64" by simp
  moreover have "64 * (r div 64) + r mod 64 = r" by simp
  ultimately show "r = 4096 * (r div 4096) + 64 * (r div 64 mod 64) + r mod 64" by linarith
qed simp_all

lemma encode_rune_3:
  assumes "0x800 \<le> r" "\<not> ((0xD800 \<le> r \<and> r < 0xE000) \<or> 0x110000 \<le> r)" "r < 0x10000"
  shows "utf8_len (encode_rune r) = length (encode_rune r) \<and> encode_rune r \<noteq> []"
proof -
  have m: "x mod 64 < 64" for x :: nat by simp
  obtain q b l where r: "r = 4096 * q + 64 * b + l" "b < 64" "l < 64"
    "r div 4096 = q" "r div 64 mod 64 = b" "r mod 64 = l" by (rule base64_split)
  have "r < 55296 \<or> 57344 \<le> r" using assms(2) by auto
  moreover have "q < 16" using r(1) assms(3) by linarith
  moreover have "32 \<le> b" if "q = 0" using that r(1-3) assms(1) by linarith
  moreover have "b < 32" if "q = 13" "r < 55296" using that r(1) by linarith
  moreover have False if "q = 13" "57344 \<le> r" using that r(1-3) by linarith
  ultimately have d: "r div 4096 < 16" "r div 4096 = 0 \<longrightarrow> 32 \<le> r div 64 mod 64"
    "r div 4096 = 13 \<longrightarrow> r div 64 mod 64 < 32" unfolding r(4,5) by blast+
  have "byte_in 0xE0 0xEF (char_of (0xE0 + r div 4096))" using d(1) by (simp add: byte_in_def)
  moreover have "second_ok (char_of (0xE0 + r div 4096)) (char_of (0x80 + r div 64 mod 64))"
    using d r(2) unfolding second_ok_code r(4,5) by (auto simp: byte_in_def)
  moreover have "byte_in 0x80 0xBF (char_of (0x80 + r mod 64))" using m[of r] by (simp add: byte_in_def)
  ultimately show ?thesis using assms replacement_rune
    by (simp add: encode_rune_def utf8_len_simps del: utf8_len.simps)
qed

lemma encode_rune_4:
  assumes "0x10000 \<le> r" "r < 0x110000"
  shows "utf8_len (encode_rune r) = length (encode_rune r) \<and> encode_rune r \<noteq> []"
proof -
  have m: "x mod 64 < 64" for x :: nat by simp
  obtain q b l where r: "r = 4096 * q + 64 * b + l" "b < 64" "l < 64" "r div 4096 = q"
    by (rule base64_split)
  have "64 * (q div 64) + q mod 64 = q" "q mod 64 < 64" by simp_all
  moreover have "r div 262144 = q div 64" by (simp add: r(4) [symmetric] div_mult2_eq [symmetric])
  moreover define q1 q2 where "q1 = q div 64" and "q2 = q mod 64"
  ultimately have q: "64 * q1 + q2 = q" "q2 < 64" "r div 262144 = q1" "r div 4096 mod 64 = q2"
    using r(4) by simp_all
  have "q1 \<le> 4" using r(1) q(1) assms(2) by linarith
  moreover have "16 \<le> q2" if "q1 = 0" using that r(1-3) q(1) assms(1) by linarith
  moreover have "q2 < 16" if "q1 = 4" using that r(1) q(1) assms(2) by linarith
  ultimately have d: "r div 262144 \<le> 4" "r div 262144 = 0 \<longrightarrow> 16 \<le> r div 4096 mod 64"
    "r div 262144 = 4 \<longrightarrow> r div 4096 mod 64 < 16" unfolding q(3,4) by blast+
  have "byte_in 0xF0 0xF4 (char_of (0xF0 + r div 262144))" using d(1) by (simp add: byte_in_def)
  moreover have "second_ok (char_of (0xF0 + r div 262144)) (char_of (0x80 + r div 4096 mod 64))"
    using d q(2) unfolding second_ok_code q(3,4) by (auto simp: byte_in_def)
  moreover have "byte_in 0x80 0xBF (char_of (0x80 + r div 64 mod 64))" "byte_in 0x80 0xBF (char_of (0x80 + r mod 64))"
    using m[of r] m[of "r div 64"] by (simp_all add: byte_in_def)
  ultimately show ?thesis using assms by (simp add: encode_rune_def utf8_len_simps del: utf8_len.simps)
qed

lemma encode_rune_rune: "utf8_len (encode_rune r) = length (encode_rune r) \<and> encode_rune r \<noteq> []"
proof -
  have m: "x mod 64 < 64" for x :: nat by simp
  consider "r < 0x80" | "0x80 \<le> r" "r < 0x800" | "0x800 \<le> r" "(0xD800 \<le> r \<and> r < 0xE000) \<or> 0x110000 \<le> r"
    | "0x800 \<le> r" "\<not> ((0xD800 \<le> r \<and> r < 0xE000) \<or> 0x110000 \<le> r)" "r < 0x10000"
    | "0x10000 \<le> r" "r < 0x110000" by linarith
  then show ?thesis
  proof cases
    case 1
    then show ?thesis by (simp add: encode_rune_def byte_in_def)
  next
    case 2
    then have "2 \<le> r div 64" "r div 64 < 32" by auto
    with 2 m[of r] show ?thesis by (simp add: encode_rune_def byte_in_def)
  next
    case 3
    then show ?thesis using replacement_rune by (simp add: encode_rune_def)
  next
    case 4
    then show ?thesis by (rule encode_rune_3)
  next
    case 5
    then show ?thesis by (rule encode_rune_4)
  qed
qed

lemma encode_rune_valid: "valid_utf8 (encode_rune r @ s) = valid_utf8 s"
  using valid_utf8_rune encode_rune_rune by blast

section \<open>Decoding undoes encoding\<close>

lemma append_single: "append [c] = (\<lambda>t. c # t)"
  by (rule ext) simp

lemma ascii_rune: "byte_in 0 0x7F c \<Longrightarrow> utf8_len [c] = length [c]"
  by simp

lemma unquote_loop_rune:
  assumes "utf8_len u = length u" "u \<noteq> []" "hd u \<noteq> CHR 0x5C" "hd u \<noteq> CHR 0x22" "\<not> is_control (hd u)"
  shows "unquote_loop (u @ rest) = map_option (append u) (unquote_loop rest)"
  using assms utf8_len_prefix[OF assms(1,2), of rest]
  by (cases u) (simp_all add: unquote_loop.simps(2) del: utf8_len.simps)

lemma unquote_loop_simple:
  "simple_escape e = Some x \<Longrightarrow>
   unquote_loop (CHR 0x5C # e # rest) = map_option (\<lambda>t. x # t) (unquote_loop rest)"
  by (simp add: unquote_loop.simps(2) del: utf8_len.simps)

lemma unquote_loop_unicode:
  assumes "hex4 (a # b # c # d # rest) = Some r" "\<not> is_surrogate r"
  shows "unquote_loop (CHR 0x5C # CHR ''u'' # a # b # c # d # rest) =
           map_option (append (encode_rune r)) (unquote_loop rest)"
proof -
  have "simple_escape CHR ''u'' = None" by (simp add: simple_escape_def)
  then show ?thesis using assms by (simp add: unquote_loop.simps(2) del: utf8_len.simps hex4.simps)
qed

lemma hex_val_hex_digit: "d < 16 \<Longrightarrow> hex_val (hex_digit d) = d"
  by (auto simp: hex_val_def hex_digit_def is_digit_def byte_in_def)

lemma is_hex_numeral [simp]: "is_hex CHR ''0''" "is_hex CHR ''2''" "is_hex CHR ''d''" "is_hex CHR ''f''"
  by (simp_all add: is_hex_def is_digit_def)

lemma hex_val_numeral [simp]:
  "hex_val CHR ''0'' = 0" "hex_val CHR ''2'' = 2" "hex_val CHR ''d'' = 13" "hex_val CHR ''f'' = 15"
  by (simp_all add: hex_val_def is_digit_def byte_in_def)

lemma unquote_loop_u00:
  assumes "byte_in 0 0x7F c"
  shows "unquote_loop (u00 c @ rest) = map_option (\<lambda>t. c # t) (unquote_loop rest)"
proof -
  let ?n = "of_char c :: nat"
  have n: "?n < 128" using assms by (simp add: byte_in_def)
  then have h: "?n div 16 < 16" by (simp add: less_mult_imp_div_less)
  have "hex4 (CHR ''0'' # CHR ''0'' # hex_digit (?n div 16) # hex_digit (?n mod 16) # rest) = Some ?n"
    using h hex_digit_is_hex hex_val_hex_digit by simp
  moreover have "\<not> is_surrogate ?n" using n by (simp add: is_surrogate_def)
  moreover have "encode_rune ?n = [c]" using n by (simp add: encode_rune_def)
  ultimately show ?thesis using unquote_loop_unicode
    by (simp add: u00_def append_single del: hex4.simps)
qed

lemma unquote_loop_escape_byte:
  assumes "byte_in 0 0x7F c"
  shows "unquote_loop (escape_byte c @ rest) = map_option (\<lambda>t. c # t) (unquote_loop rest)"
proof -
  have se: "simple_escape CHR 0x5C = Some CHR 0x5C" "simple_escape CHR 0x22 = Some CHR 0x22"
    "simple_escape CHR ''b'' = Some CHR 0x08" "simple_escape CHR ''f'' = Some CHR 0x0C"
    "simple_escape CHR ''n'' = Some CHR 0x0A" "simple_escape CHR ''r'' = Some CHR 0x0D"
    "simple_escape CHR ''t'' = Some CHR 0x09"
    by (simp_all add: simple_escape_def)
  show ?thesis
    unfolding escape_byte_def using unquote_loop_u00[OF assms] se[THEN unquote_loop_simple]
    by (simp only: append.simps split: if_splits) auto
qed

lemma unquote_loop_fffd:
  "unquote_loop (CHR 0x5C # ''ufffd'' @ rest) = map_option (append replacement) (unquote_loop rest)"
proof -
  have "hex4 (CHR ''f'' # CHR ''f'' # CHR ''f'' # CHR ''d'' # rest) = Some 0xFFFD" by simp
  moreover have "\<not> is_surrogate 0xFFFD" by (simp add: is_surrogate_def)
  moreover have "encode_rune 0xFFFD = replacement"
    by (simp add: encode_rune_def replacement_def char_of_def bit_simps)
  ultimately show ?thesis using unquote_loop_unicode by simp
qed

lemma unquote_loop_u202:
  assumes "line_sep s"
  shows "unquote_loop (u202 (s ! 2) @ rest) = map_option (append (take 3 s)) (unquote_loop rest)"
proof -
  define c where "c = s ! 2"
  have c: "c = take 3 s ! 2" by (simp add: c_def)
  then consider "c = CHR 0xA8" "take 3 s = [CHR 0xE2, CHR 0x80, CHR 0xA8]"
    | "c = CHR 0xA9" "take 3 s = [CHR 0xE2, CHR 0x80, CHR 0xA9]"
    using assms by (auto simp: line_sep_def)
  then show ?thesis
  proof cases
    case 1
    have "hex4 (CHR ''2'' # CHR ''0'' # CHR ''2'' # hex_digit 8 # rest) = Some 0x2028"
      by (simp add: hex_digit_is_hex hex_val_hex_digit)
    moreover have "\<not> is_surrogate 0x2028" by (simp add: is_surrogate_def)
    moreover have "encode_rune 0x2028 = take 3 s"
      using 1 by (simp add: encode_rune_def char_of_def bit_simps)
    ultimately show ?thesis using unquote_loop_unicode 1 by (simp add: u202_def flip: c_def)
  next
    case 2
    have "hex4 (CHR ''2'' # CHR ''0'' # CHR ''2'' # hex_digit 9 # rest) = Some 0x2029"
      by (simp add: hex_digit_is_hex hex_val_hex_digit)
    moreover have "\<not> is_surrogate 0x2029" by (simp add: is_surrogate_def)
    moreover have "encode_rune 0x2029 = take 3 s"
      using 2 by (simp add: encode_rune_def char_of_def bit_simps)
    ultimately show ?thesis using unquote_loop_unicode 2 by (simp add: u202_def flip: c_def)
  qed
qed

lemma line_sep_utf8: "line_sep s \<Longrightarrow> utf8_len s = 3"
proof -
  assume "line_sep s"
  then obtain c t where "s = CHR 0xE2 # CHR 0x80 # c # t" "c = CHR 0xA8 \<or> c = CHR 0xA9"
    by (cases s; cases "tl s"; cases "tl (tl s)") (auto simp: line_sep_def)
  then show "utf8_len s = 3" by (auto simp: byte_in_def second_ok_def)
qed

lemma html_safe_props: "html_safe c \<Longrightarrow> c \<noteq> CHR 0x5C \<and> c \<noteq> CHR 0x22 \<and> \<not> is_control c"
  by (auto simp: html_safe_def byte_in_def is_control_def)

lemma high_props:
  "128 \<le> (of_char c :: nat) \<Longrightarrow> c \<noteq> CHR 0x5C \<and> c \<noteq> CHR 0x22 \<and> \<not> is_control c \<and> \<not> byte_in 0 0x7F c"
  by (auto simp: is_control_def byte_in_def)

lemma not_ascii_high: "\<not> byte_in 0 0x7F c \<Longrightarrow> 128 \<le> (of_char c :: nat)"
  by (simp add: byte_in_def)

theorem unquote_loop_quote_loop: "unquote_loop (quote_loop s) = Some (sanitize s)"
proof (induction s rule: quote_loop.induct)
  case (2 c cs)
  show ?case
  proof (cases "byte_in 0 0x7F c")
    case True
    then have sz: "sanitize (c # cs) = c # sanitize cs" using sanitize_rune[OF ascii_rune, of c cs] by simp
    show ?thesis
    proof (cases "html_safe c")
      case safe: True
      then show ?thesis
        using unquote_loop_rune[OF ascii_rune[OF True], of "quote_loop cs"] html_safe_props[OF safe] True
          "2.IH"(1)[OF True] sz by (simp add: quote_loop.simps(2))
    next
      case False
      then show ?thesis
        using unquote_loop_escape_byte[OF True, of "quote_loop cs"] True "2.IH"(1)[OF True] sz
        by (simp add: quote_loop.simps(2))
    qed
  next
    case nonascii: False
    note hp = high_props[OF not_ascii_high[OF nonascii]]
    show ?thesis
    proof (cases "utf8_len (c # cs) = 0")
      case True
      then show ?thesis
        using nonascii "2.IH"(2)[OF nonascii True] unquote_loop_fffd[of "quote_loop cs"]
        by (simp add: quote_loop.simps(2) sanitize.simps(2) del: utf8_len.simps)
    next
      case len: False
      then obtain u t where ut: "c # cs = u @ t" "utf8_len u = length u" "u \<noteq> []"
        "u = take (utf8_len (c # cs)) (c # cs)" "t = drop (utf8_len (c # cs)) (c # cs)"
        by (rule utf8_split)
      then have sz: "sanitize (c # cs) = u @ sanitize t" using sanitize_rune by metis
      have hdu: "hd u = c" using ut(1,3) by (cases u) auto
      show ?thesis
      proof (cases "line_sep (c # cs)")
        case True
        have three: "utf8_len (c # cs) = 3" by (rule line_sep_utf8[OF True])
        note ih = "2.IH"(3)[OF nonascii len True, folded three, folded ut(5)]
        have "quote_loop (c # cs) = u202 ((c # cs) ! 2) @ quote_loop t"
          using nonascii len True unfolding quote_loop.simps(2) ut(5) three by simp
        then show ?thesis
          using ih sz unquote_loop_u202[OF True, of "quote_loop t"] ut(4) three by simp
      next
        case False
        note ih = "2.IH"(4)[OF nonascii len False, folded ut(5)]
        have "quote_loop (c # cs) = u @ quote_loop t"
          using nonascii len False by (simp only: quote_loop.simps(2) if_False ut(4,5) [symmetric])
        then show ?thesis using ih sz hdu hp unquote_loop_rune[OF ut(2,3), of "quote_loop t"] by simp
      qed
    qed
  qed
qed simp

section \<open>Encoded strings are JSON strings\<close>

lemma string_step:
  "c \<noteq> CHR 0x5C \<Longrightarrow> c \<noteq> CHR 0x22 \<Longrightarrow> \<not> is_control c \<Longrightarrow> step limit (InString, ps) c = Some (InString, ps)"
  by simp

lemma tight_run_plain:
  "\<forall>c \<in> set u. c \<noteq> CHR 0x5C \<and> c \<noteq> CHR 0x22 \<and> \<not> is_control c \<Longrightarrow>
   tight_run limit (InString, ps) u = Some (InString, ps)"
  by (induction u) (auto simp: elides_def)

lemma tight_run_escape_byte: "tight_run limit (InString, ps) (escape_byte c) = Some (InString, ps)"
proof -
  have "tight_run limit (InString, ps) [CHR 0x5C, e] = Some (InString, ps)"
    if "e \<in> set ''bfnrt'' \<or> e = CHR 0x5C \<or> e = CHR 0x22" for e
    using that by (auto simp: elides_def is_space_def)
  then show ?thesis unfolding escape_byte_def using tight_run_u00 by auto
qed

lemma tight_run_quote_loop: "tight_run limit (InString, ps) (quote_loop s) = Some (InString, ps)"
proof (induction s rule: quote_loop.induct)
  case (2 c cs)
  have then_rest: "tight_run limit (InString, ps) (w @ rest) = Some (InString, ps)"
    if "tight_run limit (InString, ps) w = Some (InString, ps)"
      "tight_run limit (InString, ps) rest = Some (InString, ps)" for w rest
    using that tight_run_append by metis
  consider (ascii) "byte_in 0 0x7F c" | (bad) "\<not> byte_in 0 0x7F c" "utf8_len (c # cs) = 0"
    | (sep) "\<not> byte_in 0 0x7F c" "utf8_len (c # cs) \<noteq> 0" "line_sep (c # cs)"
    | (rune) "\<not> byte_in 0 0x7F c" "utf8_len (c # cs) \<noteq> 0" "\<not> line_sep (c # cs)" by blast
  then show ?case
  proof cases
    case ascii
    have "tight_run limit (InString, ps) (if html_safe c then [c] else escape_byte c) = Some (InString, ps)"
      using tight_run_escape_byte tight_run_plain[of "[c]"] html_safe_props[of c] by simp
    then show ?thesis using then_rest "2.IH"(1)[OF ascii] ascii by (simp add: quote_loop.simps(2))
  next
    case bad
    have "tight_run limit (InString, ps) (CHR 0x5C # ''ufffd'') = Some (InString, ps)"
      using tight_run_unicode_escape[of "CHR ''f''" "CHR ''f''" "CHR ''f''" "CHR ''d''"] by simp
    from then_rest[OF this "2.IH"(2)[OF bad]] show ?thesis
      using bad by (simp add: quote_loop.simps(2) del: tight_run.simps utf8_len.simps)
  next
    case sep
    then show ?thesis using then_rest[OF tight_run_u202 "2.IH"(3)[OF sep]]
      by (simp add: quote_loop.simps(2) del: tight_run.simps utf8_len.simps)
  next
    case rune
    have "\<forall>x \<in> set (take (utf8_len (c # cs)) (c # cs)). x \<noteq> CHR 0x5C \<and> x \<noteq> CHR 0x22 \<and> \<not> is_control x"
      using utf8_tail_bytes[OF rune(2)] rune(1) high_props by (metis list.sel(1))
    from then_rest[OF tight_run_plain[OF this] "2.IH"(4)[OF rune]] show ?thesis
      using rune by (simp only: quote_loop.simps(2) if_False)
  qed
qed simp

lemma tight_run_quote: "tight_run limit (BeginString, ps) (quote s) = Some (EndValue, ps)"
  and tight_run_quote_value: "tight_run limit (BeginValue, ps) (quote s) = Some (EndValue, ps)"
  using tight_run_append[OF tight_run_quote_loop[of limit ps s], of "[CHR 0x22]"]
  by (simp_all add: quote_def elides_def begin_string_def begin_value_def is_space_def)

lemma unquote_quote: "unquote (quote s) = Some (sanitize s)"
  by (simp add: unquote_def quote_def unquote_loop_quote_loop)

section \<open>Every JSON string decodes, to valid UTF-8\<close>

lemma simple_escape_ascii: "simple_escape e = Some x \<Longrightarrow> byte_in 0 0x7F x"
  by (auto simp: simple_escape_def byte_in_def split: if_splits)

lemma valid_utf8_ascii: "byte_in 0 0x7F x \<Longrightarrow> valid_utf8 (x # t) = valid_utf8 t"
  using valid_utf8_rune[OF ascii_rune, of x t] by simp

lemma unquote_loop_valid: "unquote_loop s = Some k \<Longrightarrow> valid_utf8 k"
proof (induction s arbitrary: k rule: unquote_loop.induct)
  case (2 c cs)
  show ?case
  proof (cases "c = CHR 0x5C")
    case True
    with "2.prems" obtain e es where cs: "cs = e # es"
      by (cases cs) (auto simp: unquote_loop.simps(2))
    show ?thesis
    proof (cases "simple_escape e")
      case (Some x)
      with "2.prems" True cs "2.IH"(3)[OF True cs Some] show ?thesis
        by (auto simp: unquote_loop_simple valid_utf8_ascii simple_escape_ascii)
    next
      case None
      with "2.prems" True cs obtain r where u: "e = CHR ''u''" "hex4 es = Some r"
        by (auto simp: unquote_loop.simps(2) split: if_splits option.splits)
      show ?thesis
      proof (cases "if is_surrogate r then surrogate_pair r (getu4 (drop 4 es)) else None")
        case q: None
        then show ?thesis using "2.prems" True cs None u encode_rune_valid
            "2.IH"(1)[OF True cs None _ u(2) q]
          by (auto simp: unquote_loop.simps(2))
      next
        case (Some q)
        then show ?thesis using "2.prems" True cs None u encode_rune_valid
            "2.IH"(2)[OF True cs None _ u(2) Some]
          by (auto simp: unquote_loop.simps(2))
      qed
    qed
  next
    case plain: False
    have ctl: "\<not> (c = CHR 0x22 \<or> is_control c)"
      using "2.prems" plain by (auto simp: unquote_loop.simps(2) split: if_splits)
    show ?thesis
    proof (cases "utf8_len (c # cs) = 0")
      case True
      then show ?thesis using "2.prems" plain ctl "2.IH"(4)[OF plain ctl True] valid_utf8_rune[OF replacement_rune]
        by (auto simp: unquote_loop.simps(2) simp del: utf8_len.simps)
    next
      case False
      then obtain u where u: "utf8_len u = length u" "u \<noteq> []" "u = take (utf8_len (c # cs)) (c # cs)"
        by (rule utf8_split)
      from "2.prems" plain ctl False obtain t where
        t: "unquote_loop (drop (utf8_len (c # cs)) (c # cs)) = Some t" "k = u @ t"
        unfolding u(3) by (auto simp: unquote_loop.simps(2) simp del: utf8_len.simps drop_Cons' take_Cons')
      then show ?thesis using "2.IH"(5)[OF plain ctl False t(1)] valid_utf8_rune[OF u(1,2)] by simp
    qed
  qed
qed simp

lemma run_after_top:
  "run limit (EndTop, ps) s = Some cfg \<Longrightarrow> fst cfg = EndTop"
  "run limit (EndValue, []) s = Some cfg \<Longrightarrow> fst cfg \<noteq> InString"
proof -
  show top: "run limit (EndTop, ps) s = Some cfg \<Longrightarrow> fst cfg = EndTop" for ps s cfg
    by (induction s) (auto split: if_splits)
  assume "run limit (EndValue, []) s = Some cfg"
  then show "fst cfg \<noteq> InString" using top by (cases s) (auto split: if_splits)
qed

lemma run_hex:
  "run limit (InHex n, ps) es = Some (InString, qs) \<Longrightarrow>
   \<exists>a t. es = a # t \<and> is_hex a \<and>
     run limit (if n \<le> 1 then InString else InHex (n - 1), ps) t = Some (InString, qs)"
  by (cases es) (auto split: if_splits)

lemma run_hex4:
  assumes "run limit (InHex 4, ps) es = Some (InString, qs)"
  shows "\<exists>r. hex4 es = Some r \<and> 4 \<le> length es \<and> run limit (InString, ps) (drop 4 es) = Some (InString, qs)"
proof -
  obtain a t1 where 1: "es = a # t1" "is_hex a" "run limit (InHex 3, ps) t1 = Some (InString, qs)"
    using run_hex[OF assms] by auto
  obtain b t2 where 2: "t1 = b # t2" "is_hex b" "run limit (InHex 2, ps) t2 = Some (InString, qs)"
    using run_hex[OF 1(3)] by auto
  obtain c t3 where 3: "t2 = c # t3" "is_hex c" "run limit (InHex 1, ps) t3 = Some (InString, qs)"
    using run_hex[OF 2(3)] by auto
  obtain d t4 where 4: "t3 = d # t4" "is_hex d" "run limit (InString, ps) t4 = Some (InString, qs)"
    using run_hex[OF 3(3)] by auto
  show ?thesis using 1 2 3 4 by simp
qed

lemma run_getu4:
  assumes "getu4 s = Some l" "run limit (InString, ps) s = Some (InString, qs)"
  shows "run limit (InString, ps) (drop 6 s) = Some (InString, qs)"
proof -
  obtain es where s: "s = CHR 0x5C # CHR ''u'' # es"
    using assms(1) by (auto simp: getu4_def split: list.splits if_splits)
  then have "run limit (InHex 4, ps) es = Some (InString, qs)" using assms(2) by simp
  from run_hex4[OF this] s show ?thesis by simp
qed

lemma run_plain:
  "\<forall>c \<in> set u. c \<noteq> CHR 0x5C \<and> c \<noteq> CHR 0x22 \<and> \<not> is_control c \<Longrightarrow>
   run limit (InString, ps) (u @ t) = run limit (InString, ps) t"
  by (rule run_appendI, rule tight_run_is_run, rule tight_run_plain)

lemma unquote_loop_total:
  "run limit (InString, []) w = Some (InString, []) \<Longrightarrow> \<exists>k. unquote_loop w = Some k"
proof (induction w rule: unquote_loop.induct)
  case (2 c cs)
  show ?case
  proof (cases "c = CHR 0x5C")
    case True
    with "2.prems" obtain e es where cs: "cs = e # es" by (cases cs) auto
    show ?thesis
    proof (cases "simple_escape e")
      case (Some x)
      then have "e \<noteq> CHR ''u''" by (auto simp: simple_escape_def)
      then have "run limit (InString, []) es = Some (InString, [])"
        using "2.prems" True cs by (auto split: if_splits)
      with "2.IH"(3)[OF True cs Some] Some True cs show ?thesis by (auto simp: unquote_loop_simple)
    next
      case None
      then have "e \<notin> set ''bfnrt/'' \<and> e \<noteq> CHR 0x5C \<and> e \<noteq> CHR 0x22" by (auto simp: simple_escape_def split: if_splits)
      then have u: "e = CHR ''u''" and hx: "run limit (InHex 4, []) es = Some (InString, [])"
        using "2.prems" True cs by (auto split: if_splits)
      then have nu: "\<not> e \<noteq> CHR ''u''" by simp
      obtain r where r: "hex4 es = Some r" "run limit (InString, []) (drop 4 es) = Some (InString, [])"
        using run_hex4[OF hx] by blast
      show ?thesis
      proof (cases "if is_surrogate r then surrogate_pair r (getu4 (drop 4 es)) else None")
        case q: None
        then show ?thesis using True cs None u r "2.IH"(1)[OF True cs None nu r(1) q r(2)]
          by (auto simp: unquote_loop.simps(2))
      next
        case q: (Some q)
        then obtain l where "getu4 (drop 4 es) = Some l"
          by (auto simp: surrogate_pair_def split: if_splits option.splits)
        from run_getu4[OF this r(2)] have "run limit (InString, []) (drop 10 es) = Some (InString, [])" by simp
        then show ?thesis using True cs None u r "2.IH"(2)[OF True cs None nu r(1) q]
          using q by (auto simp: unquote_loop.simps(2))
      qed
    qed
  next
    case plain: False
    have ctl: "\<not> (c = CHR 0x22 \<or> is_control c)"
      using "2.prems" plain run_after_top(2)[of limit cs "(InString, [])"] by (auto split: if_splits)
    show ?thesis
    proof (cases "utf8_len (c # cs) = 0")
      case True
      then show ?thesis using "2.prems" plain ctl "2.IH"(4)[OF plain ctl True]
        by (auto simp: unquote_loop.simps(2) simp del: utf8_len.simps)
    next
      case False
      let ?u = "take (utf8_len (c # cs)) (c # cs)" and ?t = "drop (utf8_len (c # cs)) (c # cs)"
      have ch: "x \<noteq> CHR 0x5C \<and> x \<noteq> CHR 0x22 \<and> \<not> is_control x" if "x \<in> set ?u" for x
      proof (cases "byte_in 0 0x7F c")
        case True
        then have "?u = [c]" by (simp add: utf8_len_simps(1))
        then show ?thesis using that plain ctl by simp
      next
        case False
        then show ?thesis using utf8_tail_bytes[OF \<open>utf8_len (c # cs) \<noteq> 0\<close>] that high_props by (metis list.sel(1))
      qed
      have "run limit (InString, []) (?u @ ?t) = run limit (InString, []) ?t"
        using ch by (intro run_plain ballI) blast
      then have "run limit (InString, []) ?t = Some (InString, [])"
        using "2.prems" by (simp only: append_take_drop_id)
      from "2.IH"(5)[OF plain ctl False this] show ?thesis
        using plain ctl False by (auto simp: unquote_loop.simps(2) simp del: utf8_len.simps)
    qed
  qed
qed simp

text \<open>The bytes the decoder cuts out for a string are a quoted text that decodes.\<close>

fun in_string :: "scan_state \<Rightarrow> bool" where
  "in_string InString = True"
| "in_string InStringEsc = True"
| "in_string (InHex n) = True"
| "in_string st = False"

lemma scan_string_rest:
  "scan_value limit (st, []) s = Some (v, rest) \<Longrightarrow> in_string st \<Longrightarrow>
   \<exists>w. v = w @ [CHR 0x22] \<and> run limit (st, []) w = Some (InString, [])"
proof (induction s arbitrary: st v)
  case Nil
  then show ?case by (cases st) (auto simp: eof_ok_def)
next
  case (Cons c cs)
  then have "\<not> value_over (st, []) c" by (cases st) (auto simp: value_over_def value_done_def)
  with Cons.prems obtain cfg v' where v: "step limit (st, []) c = Some cfg"
    "scan_value limit cfg cs = Some (v', rest)" "v = c # v'"
    by (auto split: option.splits if_splits)
  show ?case
  proof (cases "st = InString \<and> c = CHR 0x22")
    case True
    then have "cfg = (EndValue, [])" using v by simp
    then have "v' = []" using v(2) by (cases cs) (auto simp: value_over_def value_done_def eof_ok_def)
    then show ?thesis using True v by (intro exI[of _ "[]"]) simp
  next
    case False
    then obtain st' where "cfg = (st', [])" "in_string st'"
      using Cons.prems(2) v(1) by (cases st) (auto split: if_splits)
    with Cons.IH v obtain w where "v' = w @ [CHR 0x22]" "run limit (st', []) w = Some (InString, [])" by blast
    then show ?thesis using v \<open>cfg = (st', [])\<close> by (intro exI[of _ "c # w"]) simp
  qed
qed

lemma scan_string_unquote:
  assumes "scan_value limit (BeginValue, []) (CHR 0x22 # s) = Some (v, rest)"
  shows "\<exists>k. unquote v = Some k \<and> valid_utf8 k"
proof -
  have "\<not> value_over (BeginValue, []) CHR 0x22" by (simp add: value_over_def value_done_def)
  with assms obtain v' where v: "v = CHR 0x22 # v'" "scan_value limit (InString, []) s = Some (v', rest)"
    by (auto simp: begin_value_def is_space_def)
  then obtain w where "v' = w @ [CHR 0x22]" "run limit (InString, []) w = Some (InString, [])"
    using scan_string_rest[OF v(2)] by auto
  then show ?thesis using unquote_loop_total unquote_loop_valid v(1) by (fastforce simp: unquote_def)
qed

end
