(* ===== verification/Json_Object.thy ===== *)
theory Json_Object
  imports Json_Text "HOL-Library.AList" "HOL-Library.Multiset" "HOL-Library.Char_ord" "HOL-Library.List_Lexorder"
begin

text \<open>
  Decoding a JSON object into Go's \<open>map[string]json.RawMessage\<close> and encoding it back, as
  \<open>json.Unmarshal\<close> and \<open>json.Marshal\<close> do for that type. The map is an association list with
  distinct keys. Decoding keeps the bytes of every value and lets a later duplicate of a key win;
  encoding sorts the keys by their bytes, escapes them, and compacts the values.

  Decoding the text of an object always succeeds and yields a map that can be encoded
  (\<open>Unmarshal_object\<close>), and a map that came out of a decoder is encoded as a valid text that
  decodes to the same keys with compacted values (\<open>Marshal_map_ok\<close>).
\<close>

type_synonym object = "(go_string \<times> go_string) list"

section \<open>Decoding\<close>

definition skip_space :: "go_string \<Rightarrow> go_string" where
  "skip_space = dropWhile is_space"

text \<open>What encloses a member is the object itself, so a value may nest one level less.\<close>

definition member_limit :: nat where
  "member_limit = maxNestingDepth - 1"

definition decode_pair :: "go_string \<Rightarrow> ((go_string \<times> go_string) \<times> go_string) option" where
  "decode_pair s =
     (if take 1 (skip_space s) \<noteq> [CHR 0x22] then None
      else case scan_value member_limit (BeginValue, []) (skip_space s) of
             None \<Rightarrow> None
           | Some (q, r) \<Rightarrow>
               (case (unquote q, skip_space r) of
                  (Some k, c # r') \<Rightarrow>
                    if c \<noteq> CHR '':'' then None
                    else map_option (\<lambda>(v, r''). ((k, v), skip_space r''))
                           (scan_value member_limit (BeginValue, []) (skip_space r'))
                | _ \<Rightarrow> None))"

lemma skip_space_length: "length (skip_space s) \<le> length s"
  by (simp add: skip_space_def length_dropWhile_le)

lemma skip_space_hd: "skip_space s = c # r \<Longrightarrow> \<not> is_space c"
  unfolding skip_space_def by (metis dropWhile_eq_Cons_conv)

lemma decode_pair_length:
  assumes "decode_pair s = Some (kv, r)"
  shows "length r < length s"
proof -
  obtain q r1 c r2 v r3 where
    "scan_value member_limit (BeginValue, []) (skip_space s) = Some (q, r1)" "skip_space r1 = c # r2"
    "scan_value member_limit (BeginValue, []) (skip_space r2) = Some (v, r3)" "r = skip_space r3"
    using assms by (auto simp: decode_pair_def split: if_splits option.splits list.splits)
  then have "skip_space s = q @ r1" "skip_space r1 = c # r2" "skip_space r2 = v @ r3" "r = skip_space r3"
    by (auto dest: scan_value_append)
  then have "length r \<le> length r3" "length r3 \<le> length (skip_space r2)" "length (skip_space r1) = Suc (length r2)"
    "length r1 \<le> length (skip_space s)" using skip_space_length[of r3] by auto
  then show ?thesis using skip_space_length[of s] skip_space_length[of r1] skip_space_length[of r2] by linarith
qed

text \<open>The members of an object, from behind its brace or a comma; a later value of a key replaces an earlier one.\<close>

function decode_members :: "object \<Rightarrow> go_string \<Rightarrow> object option" where
  "decode_members m [] = None"
| "decode_members m (x # xs) =
     (case decode_pair (x # xs) of
        Some ((k, v), c # rest) \<Rightarrow>
          if c = CHR '','' then decode_members (AList.update k v m) rest
          else if c = CHR ''}'' then Some (AList.update k v m) else None
      | _ \<Rightarrow> None)"
  by pat_completeness auto
termination
  by (relation "measure (\<lambda>(m, s). length s)") (auto dest!: decode_pair_length)

declare decode_members.simps [simp del]

lemma decode_members_step:
  "decode_pair s = Some ((k, v), c # rest) \<Longrightarrow>
   decode_members m s =
     (if c = CHR '','' then decode_members (AList.update k v m) rest
      else if c = CHR ''}'' then Some (AList.update k v m) else None)"
  by (cases s) (auto simp: decode_members.simps dest: decode_pair_length)

definition decode_object :: "go_string \<Rightarrow> object option" where
  "decode_object s = (if take 1 (skip_space s) = ''}'' then Some [] else decode_members [] s)"

text \<open>
  \<open>json.Unmarshal(raw, &m)\<close> for a nil map \<open>m\<close>: \<open>null\<close> leaves it nil (here empty), an object
  fills it, and every other text is an error.
\<close>

definition Unmarshal_map :: "go_string \<Rightarrow> object option" where
  "Unmarshal_map raw =
     (if \<not> Valid raw then None
      else case skip_space raw of
             [] \<Rightarrow> None
           | c # s \<Rightarrow> if c = CHR ''n'' then Some [] else if c = CHR ''{'' then decode_object s else None)"

section \<open>Encoding\<close>

definition member_text :: "go_string \<times> go_string \<Rightarrow> go_string" where
  "member_text kw = quote (fst kw) @ CHR '':'' # snd kw"

definition compact_member :: "go_string \<times> go_string \<Rightarrow> (go_string \<times> go_string) option" where
  "compact_member kv = map_option (Pair (fst kv)) (Compact (snd kv))"

text \<open>The members in the order of their keys, the values compacted.\<close>

definition compacted :: "object \<Rightarrow> object option" where
  "compacted m = those (map compact_member (sort_key fst m))"

definition Marshal_map :: "object \<Rightarrow> go_string option" where
  "Marshal_map m = map_option (\<lambda>ms. CHR ''{'' # join '','' (map member_text ms) @ ''}'') (compacted m)"

section \<open>Maps that can be encoded\<close>

definition good_value :: "go_string \<Rightarrow> bool" where
  "good_value v \<longleftrightarrow> Valid_upto member_limit v"

definition good_map :: "object \<Rightarrow> bool" where
  "good_map m \<longleftrightarrow> distinct (map fst m) \<and> (\<forall>(k, v) \<in> set m. valid_utf8 k \<and> good_value v)"

lemma good_map_Nil [simp]: "good_map []"
  by (simp add: good_map_def)

lemma good_map_update: "good_map m \<Longrightarrow> valid_utf8 k \<Longrightarrow> good_value v \<Longrightarrow> good_map (AList.update k v m)"
proof -
  assume "good_map m" "valid_utf8 k" "good_value v"
  moreover have "set (AList.update k v m) \<subseteq> insert (k, v) (set m)"
    by (induction m) auto
  ultimately show ?thesis by (fastforce simp: good_map_def distinct_update)
qed

section \<open>Runs over the text of an object\<close>

lemma compact_from_mono:
  assumes "limit \<le> limit'"
  shows "compact_from limit cfg skip s = Some out \<Longrightarrow> compact_from limit' cfg skip s = Some out"
proof (induction s arbitrary: cfg skip out)
  case (Cons c s)
  then obtain cfg1 where "step limit cfg c = Some cfg1" by (cases "step limit cfg c") auto
  with Cons.prems step_mono[OF this assms] Cons.IH[of cfg1] show ?case
    by (cases cfg1) (auto split: if_splits simp del: step.simps)
qed simp

lemma tight_run_frame:
  assumes "B \<noteq> []" "tight_run limit cfg s = Some cfg'"
  shows "tight_run (limit + length B) (framed B cfg) s = Some (framed B cfg')"
  using assms(2)
proof (induction s arbitrary: cfg)
  case (Cons c s)
  then obtain cfg1 where "\<not> elides cfg c" "step limit cfg c = Some cfg1" "tight_run limit cfg1 s = Some cfg'"
    by (auto split: option.splits if_splits)
  moreover have "elides (framed B cfg) c = elides cfg c" by (auto simp: elides_def framed_def)
  ultimately show ?case using Cons.IH step_frame[OF assms(1)] by simp
qed simp

text \<open>What a value is followed by is read the same way wherever the value ended.\<close>

lemma step_value_over:
  assumes "value_over cfg c" "B \<noteq> []"
  shows "step limit (framed B cfg) c = end_value B c"
  using assms
  by (cases cfg, cases "fst cfg")
     (auto simp: value_over_def value_done_def framed_def num0_def number_byte_def simp del: end_value.simps)

lemma eof_ok_over: "eof_ok cfg \<Longrightarrow> \<not> number_byte c \<Longrightarrow> value_over cfg c"
  by (auto simp: eof_ok_def value_over_def value_done_def)

lemma scan_value_over:
  "scan_value limit cfg s = Some (v, c # r) \<Longrightarrow> run limit cfg v = Some cfg' \<Longrightarrow> value_over cfg' c"
  by (induction s arbitrary: cfg v) (auto split: if_splits option.splits)

definition tight_value :: "go_string \<Rightarrow> bool" where
  "tight_value w \<longleftrightarrow> (\<exists>cfg. tight_run member_limit (BeginValue, []) w = Some cfg \<and> eof_ok cfg)"

lemma good_value_Compact:
  assumes "good_value v"
  shows "\<exists>w. Compact v = Some w \<and> tight_value w"
proof -
  obtain cfg where "run member_limit (BeginValue, []) v = Some cfg" "eof_ok cfg"
    using assms by (auto simp: good_value_def elim: Valid_uptoE)
  then obtain w where w: "compact_from member_limit (BeginValue, []) 0 v = Some w"
    using compact_defined by blast
  have "Compact v = Some w" unfolding Compact_def
    by (rule compact_from_mono[OF _ w]) (simp add: member_limit_def)
  moreover have "tight_value w" unfolding tight_value_def by (rule compact_from_start[OF w]) blast
  ultimately show ?thesis by blast
qed

lemma member_limit_frame: "member_limit + length [p] = maxNestingDepth"
  by (simp add: member_limit_def maxNestingDepth_def)

lemma run_tight_value:
  assumes "tight_value w"
  obtains cfg where "run maxNestingDepth (BeginValue, [p]) w = Some (framed [p] cfg)" "eof_ok cfg"
proof -
  obtain cfg where cfg: "tight_run member_limit (BeginValue, []) w = Some cfg" "eof_ok cfg"
    using assms by (auto simp: tight_value_def)
  have "tight_run maxNestingDepth (framed [p] (BeginValue, [])) w = Some (framed [p] cfg)"
    using tight_run_frame[OF _ cfg(1), of "[p]"] unfolding member_limit_frame by simp
  then show ?thesis using that cfg(2) by (simp add: framed_def tight_run_is_run)
qed

lemma run_member:
  assumes "tight_value w" "c = CHR '','' \<or> c = CHR ''}''"
  shows "run maxNestingDepth (BeginString, [ObjectKey]) (member_text (k, w) @ c # rest) =
         run maxNestingDepth (EndValue, [ObjectValue]) (c # rest)"
proof -
  have colon: "\<not> is_space CHR '':''" by (simp add: is_space_def)
  obtain cfg where cfg: "run maxNestingDepth (BeginValue, [ObjectValue]) w = Some (framed [ObjectValue] cfg)"
    "eof_ok cfg" by (rule run_tight_value[OF assms(1)])
  have "value_over cfg c" using assms(2) by (intro eof_ok_over[OF cfg(2)]) (auto simp: number_byte_def is_digit_def)
  from step_value_over[OF this] have "step limit (framed [ObjectValue] cfg) c = step limit (EndValue, [ObjectValue]) c" for limit
    by (simp del: end_value.simps)
  then have last: "run maxNestingDepth (BeginValue, [ObjectValue]) (w @ c # rest) = run maxNestingDepth (EndValue, [ObjectValue]) (c # rest)"
    using run_appendI[OF cfg(1), of "c # rest"] by (simp del: step.simps)
  have "run maxNestingDepth (BeginString, [ObjectKey]) (quote k @ CHR '':'' # w @ c # rest) =
        run maxNestingDepth (EndValue, [ObjectKey]) (CHR '':'' # w @ c # rest)"
    by (rule run_appendI) (rule tight_run_is_run[OF tight_run_quote])
  then show ?thesis using last colon by (simp add: member_text_def)
qed


lemma run_members:
  assumes "ms \<noteq> []" "\<forall>(k, w) \<in> set ms. tight_value w"
  shows "run maxNestingDepth (BeginString, [ObjectKey]) (join '','' (map member_text ms) @ CHR ''}'' # ws) =
         run maxNestingDepth (EndTop, []) ws"
  using assms
proof (induction ms rule: induct_list012)
  case (2 kw)
  then show ?case using run_member[of "snd kw" "CHR ''}''" "fst kw" ws]
    by (auto simp: popped_def is_space_def)
next
  case (3 kw kw' ms)
  have "\<not> is_space CHR '',''" by (simp add: is_space_def)
  with 3 run_member[of "snd kw" "CHR '',''" "fst kw"] show ?case by auto
qed simp

lemma join_starts_quote:
  "ms \<noteq> [] \<Longrightarrow> \<exists>t. join '','' (map member_text ms) @ s = CHR 0x22 # t"
  by (cases ms; cases "tl ms") (auto simp: member_text_def quote_def)

lemma run_spaces: "\<forall>c \<in> set ws. is_space c \<Longrightarrow> run limit (EndTop, []) ws = Some (EndTop, [])"
  by (induction ws) auto

text \<open>The text of an object, possibly followed by white space such as the newline an encoder adds.\<close>

lemma object_text_Valid:
  assumes "\<forall>(k, w) \<in> set ms. tight_value w" "\<forall>c \<in> set ws. is_space c"
  shows "Valid (CHR ''{'' # join '','' (map member_text ms) @ CHR ''}'' # ws)"
proof (cases "ms = []")
  case True
  then show ?thesis using run_spaces[OF assms(2), of maxNestingDepth]
    by (simp add: Valid_def Valid_upto_def maxNestingDepth_def begin_value_def pushed_def popped_def
        is_space_def eof_ok_def)
next
  case False
  then obtain t where t: "join '','' (map member_text ms) @ CHR ''}'' # ws = CHR 0x22 # t"
    using join_starts_quote by blast
  have "step maxNestingDepth (BeginValue, []) CHR ''{'' = Some (BeginStringOrEmpty, [ObjectKey])"
    by (simp add: begin_value_def pushed_def maxNestingDepth_def is_space_def)
  moreover have "step limit (BeginStringOrEmpty, [ObjectKey]) CHR 0x22 = step limit (BeginString, [ObjectKey]) CHR 0x22" for limit
    by (simp add: is_space_def)
  ultimately show ?thesis using run_members[OF False assms(1), of ws] t run_spaces[OF assms(2), of maxNestingDepth]
    by (simp add: Valid_def Valid_upto_def eof_ok_def del: step.simps)
qed

section \<open>An encoded map decodes\<close>

lemma skip_space_id: "s \<noteq> [] \<Longrightarrow> \<not> is_space (hd s) \<Longrightarrow> skip_space s = s"
  by (cases s) (simp_all add: skip_space_def)

lemma tight_value_start: "tight_value w \<Longrightarrow> w \<noteq> [] \<and> \<not> is_space (hd w)"
  by (cases w) (auto simp: tight_value_def eof_ok_def elides_def split: if_splits)

lemma decode_pair_member:
  assumes "tight_value w" "valid_utf8 k" "c = CHR '','' \<or> c = CHR ''}''"
  shows "decode_pair (member_text (k, w) @ c # rest) = Some ((k, w), c # rest)"
proof -
  have skip: "skip_space (CHR 0x22 # t) = CHR 0x22 # t" "skip_space (CHR '':'' # t) = CHR '':'' # t"
    "skip_space (c # t) = c # t" "skip_space (w @ t) = w @ t" for t
    using assms(3) tight_value_start[OF assms(1)] by (auto simp: skip_space_id is_space_def)
  have mt: "member_text (k, w) @ c # rest = quote k @ CHR '':'' # w @ c # rest" by (simp add: member_text_def)
  have q: "skip_space (quote k @ t) = quote k @ t" "take 1 (quote k @ t) = [CHR 0x22]" for t
    by (simp_all add: quote_def skip)
  have "scan_value member_limit (BeginValue, []) (quote k @ CHR '':'' # w @ c # rest) = Some (quote k, CHR '':'' # w @ c # rest)"
    by (rule scan_value_tight[OF tight_run_quote_value]) (simp_all add: eof_ok_def number_byte_def is_digit_def)
  moreover have "scan_value member_limit (BeginValue, []) (w @ c # rest) = Some (w, c # rest)"
    using assms(1,3) by (auto simp: tight_value_def number_byte_def is_digit_def intro: scan_value_tight)
  ultimately show ?thesis unfolding decode_pair_def mt q
    using sanitize_valid[OF assms(2)] by (simp add: unquote_quote skip)
qed

lemma update_new: "k \<notin> fst ` set m \<Longrightarrow> AList.update k v m = m @ [(k, v)]"
  by (induction m) auto

lemma decode_members_text:
  assumes "ms \<noteq> []" "\<forall>(k, w) \<in> set ms. valid_utf8 k \<and> tight_value w" "distinct (map fst (m @ ms))"
  shows "decode_members m (join '','' (map member_text ms) @ CHR ''}'' # ws) = Some (m @ ms)"
  using assms
proof (induction ms arbitrary: m rule: induct_list012)
  case (2 kw)
  then show ?case using decode_pair_member[of "snd kw" "fst kw" "CHR ''}''" ws]
    by (auto simp: decode_members_step update_new)
next
  case (3 kw kw' ms)
  have "decode_members (m @ [kw]) (join '','' (map member_text (kw' # ms)) @ CHR ''}'' # ws) = Some ((m @ [kw]) @ kw' # ms)"
    using 3(2)[of "m @ [kw]"] 3(4,5) by auto
  then show ?case using decode_pair_member[of "snd kw" "fst kw" "CHR '',''"] 3(4,5)
    by (auto simp: decode_members_step update_new)
qed simp

lemma Unmarshal_object_text:
  assumes "\<forall>(k, w) \<in> set ms. valid_utf8 k \<and> tight_value w" "distinct (map fst ms)" "\<forall>c \<in> set ws. is_space c"
  shows "Unmarshal_map (CHR ''{'' # join '','' (map member_text ms) @ CHR ''}'' # ws) = Some ms"
proof -
  let ?s = "join '','' (map member_text ms) @ CHR ''}'' # ws"
  have "Valid (CHR ''{'' # ?s)" using assms(1,3) by (intro object_text_Valid) auto
  then have un: "Unmarshal_map (CHR ''{'' # ?s) = decode_object ?s"
    by (simp add: Unmarshal_map_def skip_space_def is_space_def)
  show ?thesis
  proof (cases "ms = []")
    case True
    then show ?thesis using un by (simp add: decode_object_def skip_space_def is_space_def)
  next
    case False
    then obtain t where "?s = CHR 0x22 # t" using join_starts_quote by blast
    then have "take 1 (skip_space ?s) \<noteq> ''}''" by (simp add: skip_space_def is_space_def)
    then show ?thesis using un decode_members_text[OF False assms(1), of "[]" ws] assms(2)
      by (simp add: decode_object_def)
  qed
qed


lemma those_Some_iff: "those xs = Some ys \<longleftrightarrow> xs = map Some ys"
  by (induction xs arbitrary: ys) (auto split: option.splits)

lemma compacted_good:
  assumes "good_map m"
  obtains ms where "compacted m = Some ms" "map fst ms = sort (map fst m)"
    "\<forall>(k, w) \<in> set ms. valid_utf8 k \<and> tight_value w" "distinct (map fst ms)"
    "map_of ms = map_option (the \<circ> Compact) \<circ> map_of m"
proof -
  let ?s = "sort_key fst m" and ?f = "\<lambda>k v. the (Compact v)"
  let ?ms = "map (\<lambda>(k, v). (k, ?f k v)) ?s"
  have good: "valid_utf8 k \<and> good_value v" if "(k, v) \<in> set m" for k v
    using that assms by (auto simp: good_map_def)
  have keys: "map fst ?ms = map fst ?s" by auto
  have dist: "distinct (map fst m)" using assms by (simp add: good_map_def)
  have perm: "map fst ?s = sort (map fst m)"
    by (rule properties_for_sort [symmetric]) (simp_all add: mset_map)
  have "map compact_member ?s = map Some ?ms"
    using good good_value_Compact by (force simp: compact_member_def)
  then have "compacted m = Some ?ms" by (simp add: compacted_def those_Some_iff)
  moreover have "\<forall>(k, w) \<in> set ?ms. valid_utf8 k \<and> tight_value w"
    using good good_value_Compact by (force simp: image_iff)
  moreover have "map_of ?ms = map_option (the \<circ> Compact) \<circ> map_of m"
  proof -
    have "map_of ?s = map_of m" using dist perm by (intro map_of_inject_set[THEN iffD2]) (auto simp: distinct_map)
    then show ?thesis by (simp add: map_of_map fun_eq_iff comp_def)
  qed
  ultimately show ?thesis using that[of ?ms] keys perm dist by simp
qed

text \<open>
  A map that can be encoded is encoded as a valid text, which decodes to the same keys, in order,
  with the values compacted.
\<close>

lemma Marshal_map_ok:
  assumes "good_map m"
  obtains s ms where "Marshal_map m = Some s" "Valid s" "hd s = CHR ''{''" "s \<noteq> []"
    "Unmarshal_map s = Some ms" "map fst ms = sort (map fst m)"
    "map_of ms = map_option (the \<circ> Compact) \<circ> map_of m"
proof -
  obtain ms where ms: "compacted m = Some ms" "map fst ms = sort (map fst m)"
    "\<forall>(k, w) \<in> set ms. valid_utf8 k \<and> tight_value w" "distinct (map fst ms)"
    "map_of ms = map_option (the \<circ> Compact) \<circ> map_of m"
    by (rule compacted_good[OF assms])
  from ms(3) have "\<forall>(k, w) \<in> set ms. tight_value w" by auto
  from object_text_Valid[OF this, of "[]"] Unmarshal_object_text[OF ms(3,4), of "[]"] ms that show ?thesis
    by (simp add: Marshal_map_def)
qed

section \<open>The text of an object decodes\<close>

lemma run_skip_space:
  assumes "\<And>c. is_space c \<Longrightarrow> step limit cfg c = Some cfg"
  shows "run limit cfg s = run limit cfg (skip_space s)"
  using assms by (induction s) (simp_all add: skip_space_def)

lemma scan_value_follows:
  assumes "run maxNestingDepth (BeginValue, [p]) s = Some cfg1" "snd cfg1 = []"
  obtains v c r where "scan_value member_limit (BeginValue, []) s = Some (v, c # r)" "good_value v"
    "run maxNestingDepth (EndValue, [p]) (c # r) = Some cfg1"
proof -
  have start: "run (member_limit + length [p]) (framed [p] (BeginValue, [])) s = Some cfg1"
    using assms(1) unfolding member_limit_frame by (simp add: framed_def)
  obtain v rest cfg where v: "scan_value member_limit (BeginValue, []) s = Some (v, rest)"
    "run member_limit (BeginValue, []) v = Some cfg" "eof_ok cfg"
    "run maxNestingDepth (framed [p] cfg) rest = Some cfg1"
    using scan_value_found[OF start assms(2)] unfolding member_limit_frame by auto
  obtain c r where r: "rest = c # r" using v(4) assms(2) by (cases rest) (auto simp: framed_def)
  have "value_over cfg c" using scan_value_over v r by blast
  from step_value_over[OF this, of "[p]"] have
    "step maxNestingDepth (framed [p] cfg) c = step maxNestingDepth (EndValue, [p]) c" by (simp del: end_value.simps)
  with v(4) r have "run maxNestingDepth (EndValue, [p]) (c # r) = Some cfg1" by (simp del: step.simps)
  with that v r show ?thesis by (simp add: good_value_def Valid_upto_def)
qed

lemma end_value_skip_space:
  assumes "run limit (EndValue, [p]) s = Some cfg1" "snd cfg1 = []"
  obtains c r where "skip_space s = c # r" "\<not> is_space c" "run limit (EndValue, [p]) (c # r) = Some cfg1"
proof -
  have run: "run limit (EndValue, [p]) (skip_space s) = Some cfg1"
    using assms(1) run_skip_space[of limit "(EndValue, [p])" s] by simp
  obtain c r where "skip_space s = c # r" using run assms(2) by (cases "skip_space s") auto
  moreover from this have "\<not> is_space c" by (rule skip_space_hd)
  ultimately show ?thesis using that run by simp
qed

lemma decode_pair_found:
  assumes "run maxNestingDepth (BeginString, [ObjectKey]) s = Some cfg1" "snd cfg1 = []"
  obtains k v c r where "decode_pair s = Some ((k, v), c # r)" "valid_utf8 k" "good_value v"
    "c = CHR ''}'' \<or> c = CHR '','' \<and> run maxNestingDepth (BeginString, [ObjectKey]) r = Some cfg1"
proof -
  let ?s = "skip_space s"
  have run: "run maxNestingDepth (BeginString, [ObjectKey]) ?s = Some cfg1"
    using assms(1) run_skip_space[of maxNestingDepth "(BeginString, [ObjectKey])" s] by (simp add: begin_string_def)
  obtain c s1 where s1: "?s = c # s1" using run assms(2) by (cases ?s) auto
  then have "\<not> is_space c" by (rule skip_space_hd)
  with run s1 have c: "c = CHR 0x22" "run maxNestingDepth (InString, [ObjectKey]) s1 = Some cfg1"
    by (auto simp: begin_string_def split: if_splits)
  then have "run maxNestingDepth (BeginValue, [ObjectKey]) ?s = Some cfg1"
    using s1 by (simp add: begin_value_def is_space_def)
  then obtain q c1 r1 where q: "scan_value member_limit (BeginValue, []) ?s = Some (q, c1 # r1)"
    "run maxNestingDepth (EndValue, [ObjectKey]) (c1 # r1) = Some cfg1"
    by (rule scan_value_follows[OF _ assms(2)])
  obtain k where k: "unquote q = Some k" "valid_utf8 k" using scan_string_unquote q(1) s1 c(1) by metis
  obtain c2 r2 where r2: "skip_space (c1 # r1) = c2 # r2" "\<not> is_space c2"
    "run maxNestingDepth (EndValue, [ObjectKey]) (c2 # r2) = Some cfg1"
    by (rule end_value_skip_space[OF q(2) assms(2)])
  then have c2: "c2 = CHR '':''" "run maxNestingDepth (BeginValue, [ObjectValue]) r2 = Some cfg1"
    by (auto split: if_splits)
  then have "run maxNestingDepth (BeginValue, [ObjectValue]) (skip_space r2) = Some cfg1"
    using run_skip_space[of maxNestingDepth "(BeginValue, [ObjectValue])" r2] by (simp add: begin_value_def)
  then obtain v c3 r3 where v: "scan_value member_limit (BeginValue, []) (skip_space r2) = Some (v, c3 # r3)"
    "good_value v" "run maxNestingDepth (EndValue, [ObjectValue]) (c3 # r3) = Some cfg1"
    by (rule scan_value_follows[OF _ assms(2)])
  obtain c4 r4 where r4: "skip_space (c3 # r3) = c4 # r4" "\<not> is_space c4"
    "run maxNestingDepth (EndValue, [ObjectValue]) (c4 # r4) = Some cfg1"
    by (rule end_value_skip_space[OF v(3) assms(2)])
  then have "c4 = CHR ''}'' \<or> c4 = CHR '','' \<and> run maxNestingDepth (BeginString, [ObjectKey]) r4 = Some cfg1"
    by (auto split: if_splits)
  moreover have "decode_pair s = Some ((k, v), c4 # r4)"
    using s1 c(1) q(1) k(1) r2(1) c2(1) v(1) r4(1) by (simp add: decode_pair_def)
  ultimately show ?thesis using that k(2) v(2) by blast
qed

lemma decode_members_found:
  "run maxNestingDepth (BeginString, [ObjectKey]) s = Some cfg1 \<Longrightarrow> snd cfg1 = [] \<Longrightarrow> good_map m \<Longrightarrow>
   \<exists>m'. decode_members m s = Some m' \<and> good_map m'"
proof (induction s arbitrary: m rule: length_induct)
  case (1 s)
  obtain k v c r where p: "decode_pair s = Some ((k, v), c # r)" "valid_utf8 k" "good_value v"
    "c = CHR ''}'' \<or> c = CHR '','' \<and> run maxNestingDepth (BeginString, [ObjectKey]) r = Some cfg1"
    by (rule decode_pair_found[OF 1(2,3)])
  then have good: "good_map (AList.update k v m)" using good_map_update 1(4) by blast
  show ?case
  proof (cases "c = CHR '',''")
    case True
    then have "run maxNestingDepth (BeginString, [ObjectKey]) r = Some cfg1" using p(4) by auto
    moreover have "length r < length s" using decode_pair_length[OF p(1)] by simp
    ultimately have "\<exists>m'. decode_members (AList.update k v m) r = Some m' \<and> good_map m'"
      using 1(1,3) good by blast
    with True p show ?thesis by (simp add: decode_members_step)
  next
    case False
    with p good show ?thesis by (simp add: decode_members_step)
  qed
qed

lemma Unmarshal_object:
  assumes "Valid raw" "skip_space raw = CHR ''{'' # s"
  obtains m where "Unmarshal_map raw = Some m" "good_map m"
proof -
  obtain cfg where cfg: "run maxNestingDepth (BeginValue, []) raw = Some cfg" "eof_ok cfg"
    using assms(1) unfolding Valid_def by (rule Valid_uptoE)
  then have "run maxNestingDepth (BeginValue, []) (CHR ''{'' # s) = Some cfg"
    using run_skip_space[of maxNestingDepth "(BeginValue, [])" raw] assms(2) by (simp add: begin_value_def)
  then have "run maxNestingDepth (BeginStringOrEmpty, [ObjectKey]) s = Some cfg"
    by (simp add: begin_value_def pushed_def is_space_def maxNestingDepth_def)
  then have run: "run maxNestingDepth (BeginStringOrEmpty, [ObjectKey]) (skip_space s) = Some cfg"
    using run_skip_space[of maxNestingDepth "(BeginStringOrEmpty, [ObjectKey])" s] by simp
  have un: "Unmarshal_map raw = decode_object s" using assms by (simp add: Unmarshal_map_def)
  show ?thesis
  proof (cases "take 1 (skip_space s) = ''}''")
    case True
    then show ?thesis using that[of "[]"] un by (simp add: decode_object_def)
  next
    case False
    have cl: "snd cfg = []" using cfg(2) by (simp add: eof_ok_def)
    obtain c t where t: "skip_space s = c # t" using run cl by (cases "skip_space s") auto
    then have "\<not> is_space c" by (rule skip_space_hd)
    moreover have "c \<noteq> CHR ''}''" using False t by simp
    ultimately have "run maxNestingDepth (BeginString, [ObjectKey]) (skip_space s) = Some cfg" using run t by simp
    then have "run maxNestingDepth (BeginString, [ObjectKey]) s = Some cfg"
      using run_skip_space[of maxNestingDepth "(BeginString, [ObjectKey])" s] by (simp add: begin_string_def)
    from decode_members_found[OF this cl good_map_Nil] that un False show ?thesis
      by (auto simp: decode_object_def)
  qed
qed


text \<open>Rewrite rules that evaluate decoding and encoding on a concrete text.\<close>

lemmas json_eval = Valid_def Valid_upto_def eof_ok_def scan_defs is_space_def maxNestingDepth_def
  is_digit19_def is_digit_def is_control_def skip_space_def Unmarshal_map_def decode_object_def
  decode_members.simps decode_pair_def value_over_def value_done_def number_byte_def unquote_def
  unquote_loop.simps byte_in_def second_ok_def member_limit_def

lemmas marshal_eval = Marshal_map_def compacted_def member_text_def compact_member_def Compact_def
  quote_def quote_loop.simps html_safe_def html_unsafe_def line_sep_def elides_def

end
