(* ===== verification/Jsonmerge.thy ===== *)
theory Jsonmerge
  imports Json_Object
begin

text \<open>
  The PATCH rules of \<open>src/internal/jsonmerge/merge.go\<close>: \<open>asObject\<close> decides whether a document
  is a JSON object and decodes it, \<open>Apply\<close> merges the top-level fields of two objects and
  replaces anything else. A map's iteration order is that of its association list; the results
  are shown not to depend on it.
\<close>

section \<open>The operations\<close>

definition clone :: "go_string \<Rightarrow> go_string" where
  "clone b = b"

definition asObject :: "go_string \<Rightarrow> object option" where
  "asObject raw =
     (let trimmed = TrimLeft raw [CHR '' '', CHR 0x09, CHR 0x0D, CHR 0x0A] in
      if length trimmed = 0 \<or> trimmed ! 0 \<noteq> CHR ''{'' then None else Unmarshal_map raw)"

text \<open>The loop \<open>for k, v := range delObj { curObj[k] = v }\<close>.\<close>

fun merge_into :: "object \<Rightarrow> object \<Rightarrow> object" where
  "merge_into curObj [] = curObj"
| "merge_into curObj ((k, v) # delObj) = merge_into (AList.update k v curObj) delObj"

definition Apply :: "go_string \<Rightarrow> go_string \<Rightarrow> go_string" where
  "Apply current delta =
     (case (asObject current, asObject delta) of
        (Some curObj, Some delObj) \<Rightarrow>
          (case Marshal_map (merge_into curObj delObj) of
             None \<Rightarrow> clone delta
           | Some merged \<Rightarrow> merged)
      | _ \<Rightarrow> clone delta)"

section \<open>Which documents are objects\<close>

lemma TrimLeft_skip_space: "TrimLeft raw [CHR '' '', CHR 0x09, CHR 0x0D, CHR 0x0A] = skip_space raw"
  by (auto simp: TrimLeft_def skip_space_def is_space_def fun_eq_iff intro: arg_cong2[where f = dropWhile])

lemma asObject_eq:
  "asObject raw = (if take 1 (skip_space raw) = ''{'' then Unmarshal_map raw else None)"
  by (cases "skip_space raw") (simp_all add: asObject_def TrimLeft_skip_space)

lemma asObject_good: "asObject raw = Some m \<Longrightarrow> good_map m \<and> Valid raw \<and> take 1 (skip_space raw) = ''{''"
proof -
  assume a: "asObject raw = Some m"
  then have un: "Unmarshal_map raw = Some m" and br: "take 1 (skip_space raw) = ''{''"
    by (auto simp: asObject_eq split: if_splits)
  then have v: "Valid raw" by (auto simp: Unmarshal_map_def split: if_splits)
  obtain s where "skip_space raw = CHR ''{'' # s" using br by (cases "skip_space raw") auto
  from Unmarshal_object[OF v this] un br v show ?thesis by (metis option.inject)
qed

lemma asObject_defined:
  "Valid raw \<Longrightarrow> take 1 (skip_space raw) = ''{'' \<Longrightarrow> \<exists>m. asObject raw = Some m"
proof -
  assume v: "Valid raw" and br: "take 1 (skip_space raw) = ''{''"
  then obtain s where "skip_space raw = CHR ''{'' # s" by (cases "skip_space raw") auto
  from Unmarshal_object[OF v this] br show ?thesis by (auto simp: asObject_eq)
qed

text \<open>
  \<open>asObject\<close> recognises exactly the JSON objects: it succeeds on a document if and only if
  the document is valid JSON whose first byte after white space is an opening brace, so \<open>null\<close>,
  which would unmarshal into a nil map, is not taken for an object.
\<close>

lemma asObject_iff:
  "(asObject raw \<noteq> None) = (Valid raw \<and> take 1 (skip_space raw) = ''{'')"
  using asObject_good asObject_defined by blast

section \<open>Merging\<close>

lemma map_of_merge_into:
  "map_of (merge_into cur del) = map_of cur ++ map_of (rev del)"
proof (induction del arbitrary: cur)
  case (Cons kv del)
  have "map_of (merge_into cur (kv # del)) = map_of (AList.update (fst kv) (snd kv) cur) ++ map_of (rev del)"
    using Cons by (cases kv) simp
  then show ?case by (cases kv) (simp add: update_conv' fun_eq_iff map_add_def split: option.splits)
qed simp

lemma map_of_merge_distinct:
  "distinct (map fst del) \<Longrightarrow> map_of (merge_into cur del) = map_of cur ++ map_of del"
  by (simp add: map_of_merge_into map_of_inject_set[of "rev del" del, THEN iffD2] rev_map [symmetric])

lemma good_merge_into: "good_map cur \<Longrightarrow> good_map del \<Longrightarrow> good_map (merge_into cur del)"
proof (induction cur del rule: merge_into.induct)
  case (2 cur k v del)
  then have "good_map del" "valid_utf8 k" "good_value v" by (auto simp: good_map_def)
  with "2.IH" "2.prems"(1) show ?case by (simp add: good_map_update)
qed simp

lemma Marshal_map_of:
  assumes "distinct (map fst m)" "distinct (map fst n)" "map_of m = map_of n"
  shows "Marshal_map m = Marshal_map n"
proof -
  have "set m = set n" using assms by (simp add: map_of_inject_set)
  then have mset: "mset m = mset n" using assms by (simp add: set_eq_iff_mset_eq_distinct distinct_map)
  then have "sort_key fst m = sort_key fst n"
    using assms(1) by (intro sort_key_inj_key_eq) (simp_all add: distinct_map)
  then show ?thesis by (simp add: Marshal_map_def compacted_def)
qed

lemma Apply_objects:
  assumes "asObject current = Some cur" "asObject delta = Some del"
  shows "Marshal_map (merge_into cur del) = Some (Apply current delta)"
    and "Valid (Apply current delta)"
    and "\<exists>m. asObject (Apply current delta) = Some m \<and> map fst m = sort (map fst (merge_into cur del)) \<and>
           map_of m = map_option (the \<circ> Compact) \<circ> (map_of cur ++ map_of del)"
proof -
  have good: "good_map cur" "good_map del" using assms asObject_good by blast+
  obtain s ms where s: "Marshal_map (merge_into cur del) = Some s" "Valid s" "hd s = CHR ''{''" "s \<noteq> []"
    "Unmarshal_map s = Some ms" "map fst ms = sort (map fst (merge_into cur del))"
    "map_of ms = map_option (the \<circ> Compact) \<circ> map_of (merge_into cur del)"
    by (rule Marshal_map_ok[OF good_merge_into[OF good]])
  have "distinct (map fst del)" using good(2) by (simp add: good_map_def)
  then have mo: "map_of (merge_into cur del) = map_of cur ++ map_of del" by (rule map_of_merge_distinct)
  have app: "Apply current delta = s" using assms s by (simp add: Apply_def)
  then show "Marshal_map (merge_into cur del) = Some (Apply current delta)" "Valid (Apply current delta)"
    using s by simp_all
  have "take 1 (skip_space s) = ''{''"
    using s(3,4) by (cases s) (simp_all add: skip_space_def is_space_def)
  then have "asObject s = Some ms" using s(5) by (simp add: asObject_eq)
  then show "\<exists>m. asObject (Apply current delta) = Some m \<and> map fst m = sort (map fst (merge_into cur del)) \<and>
           map_of m = map_option (the \<circ> Compact) \<circ> (map_of cur ++ map_of del)"
    using s(6,7) app mo by simp
qed

lemma Apply_not_objects: "asObject current = None \<or> asObject delta = None \<Longrightarrow> Apply current delta = delta"
  by (auto simp: Apply_def clone_def split: option.splits)

text \<open>
  C26. Patching an object with an object is a shallow merge: the result is an object with the
  fields of both, where a field of the patch replaces the field of the document as a whole, nested
  objects and \<open>null\<close> included. The fields come out in the order of their names, every value
  with insignificant white space dropped.
\<close>

theorem Apply_shallow_merge:
  assumes "asObject current = Some cur" "asObject delta = Some del"
  shows "\<exists>m. asObject (Apply current delta) = Some m \<and> sorted (map fst m) \<and> distinct (map fst m) \<and>
           map_of m = map_option (the \<circ> Compact) \<circ> (map_of cur ++ map_of del)"
  using Apply_objects(3)[OF assms] asObject_good good_map_def by (metis sorted_sort)

lemma doc_object: \<open>asObject ''{"a":{"x":1}}'' = Some [(''a'', ''{"x":1}'')]\<close>
  by (simp add: asObject_eq json_eval)

lemma patch_object: \<open>asObject ''{"b": 2, "a":{"y":null}}'' = Some [(''b'', ''2''), (''a'', ''{"y":null}'')]\<close>
  by (simp add: asObject_eq json_eval)

theorem Apply_shallow_merge_witness:
  \<open>\<exists>m. asObject (Apply ''{"a":{"x":1}}'' ''{"b": 2, "a":{"y":null}}'') = Some m \<and> distinct (map fst m) \<and>
     map_of m ''a'' = Some ''{"y":null}'' \<and> map_of m ''b'' = Some ''2''\<close>
  using Apply_shallow_merge[OF doc_object patch_object]
  by (auto simp: json_eval marshal_eval)

text \<open>
  C27. What a PATCH produces is always valid JSON when the patch is, whatever the stored bytes are;
  the fallback for a failing \<open>json.Marshal\<close> is never what two objects are merged to.
\<close>

theorem Apply_Valid:
  assumes "Valid delta"
  shows "Valid (Apply current delta) \<and>
    (\<forall>cur del. asObject current = Some cur \<longrightarrow> asObject delta = Some del \<longrightarrow>
       Marshal_map (merge_into cur del) = Some (Apply current delta))"
proof -
  have "Valid (Apply current delta)"
  proof (cases "asObject current = None \<or> asObject delta = None")
    case True
    then show ?thesis using assms Apply_not_objects by simp
  next
    case False
    then obtain cur del where "asObject current = Some cur" "asObject delta = Some del" by auto
    then show ?thesis by (rule Apply_objects(2))
  qed
  then show ?thesis using Apply_objects(1) by blast
qed

theorem Apply_Valid_witness:
  \<open>Valid (Apply ''{"a":{"x":1}}'' ''{"b": 2, "a":{"y":null}}'') \<and>
   Marshal_map (merge_into [(''a'', ''{"x":1}'')] [(''b'', ''2''), (''a'', ''{"y":null}'')]) =
     Some (Apply ''{"a":{"x":1}}'' ''{"b": 2, "a":{"y":null}}'')\<close>
proof -
  have \<open>Valid ''{"b": 2, "a":{"y":null}}''\<close> using asObject_good[OF patch_object] by blast
  from Apply_Valid[OF this] doc_object patch_object show ?thesis by blast
qed

text \<open>
  When either side is not a JSON object the patch replaces the document byte for byte.
\<close>

lemma Apply_replaces:
  assumes "take 1 (skip_space current) \<noteq> ''{'' \<or> take 1 (skip_space delta) \<noteq> ''{'' \<or> \<not> Valid current \<or> \<not> Valid delta"
  shows "Apply current delta = delta"
  using assms asObject_good[of current] asObject_good[of delta] by (intro Apply_not_objects) (metis option.exhaust)

text \<open>
  Go iterates over a map in an unspecified order. The merge does not depend on it: every order
  in which the fields of the patch, or those of the document, may be visited gives the same bytes.
\<close>

lemma Apply_order_irrelevant:
  assumes "asObject current = Some cur" "asObject delta = Some del" "mset cur' = mset cur" "mset del' = mset del"
  shows "Marshal_map (merge_into cur' del') = Some (Apply current delta)"
proof -
  have good: "good_map cur" "good_map del" using assms asObject_good by blast+
  have perm: "good_map m' \<and> map_of m' = map_of m" if "good_map m" "mset m' = mset m" for m m' :: object
  proof -
    have "mset (map fst m') = mset (map fst m)" using that(2) by simp
    then have "distinct (map fst m')" using that(1) by (metis good_map_def mset_eq_imp_distinct_iff)
    then show ?thesis using that mset_eq_setD[OF that(2)] by (simp add: good_map_def map_of_inject_set)
  qed
  note cur = perm[OF good(1) assms(3)] and del = perm[OF good(2) assms(4)]
  have "Marshal_map (merge_into cur' del') = Marshal_map (merge_into cur del)"
    using cur del good good_merge_into[of cur' del'] good_merge_into[of cur del]
    by (intro Marshal_map_of) (simp_all add: good_map_def map_of_merge_distinct)
  then show ?thesis using Apply_objects(1)[OF assms(1,2)] by simp
qed


end
