(* ===== verification/Kv_Store.thy ===== *)
theory Kv_Store
  imports Routing Jsonmerge
begin

text \<open>
  Package \<open>internal/store\<close>: a map split into partitions, with a version per key. This theory
  has the data (\<open>entry.go\<close>) and the operations (\<open>store.go\<close>) as one goroutine runs them; the
  critical sections \<open>write_existing\<close> and \<open>write_new\<close> are definitions of their own, because
  the concurrent model executes the same ones under the locks. An index outside \<open>s.parts\<close>
  panics in Go, which is the outer \<open>None\<close> of \<open>Get\<close> and \<open>Write\<close>.

  The invariant \<open>store_ok\<close> is established by \<open>New\<close> and kept by \<open>Write\<close>; under it no
  operation panics, and the store refines the abstract map of \<open>spec_write\<close>. The locale
  \<open>versioned_kv\<close> states what clients may rely on, and is interpreted on the store.
\<close>

section \<open>Entries and write operations\<close>

definition FirstVersion :: uint64 where
  "FirstVersion = 1"

datatype Mode = ModeReplace | ModeMerge

record Entry =
  Value :: go_string
  Version :: uint64

record WriteOp =
  Key :: go_string
  Body :: go_string
  op_Mode :: Mode
  IfVersion :: "uint64 option"
  IfAbsent :: bool

record VersionMismatchError =
  vm_Key :: go_string
  Expected :: uint64
  Current :: uint64
  RequiredAbsent :: bool

definition Absent :: "VersionMismatchError \<Rightarrow> bool" where
  "Absent e \<longleftrightarrow> Current e = 0"

datatype store_error = ErrConflictingGuards | VersionMismatch VersionMismatchError

section \<open>The store\<close>

record entry =
  e_value :: go_string
  e_version :: uint64

record partition =
  part_m :: "(go_string \<times> entry) list"

record Store =
  parts :: "partition list"
  store_partitionCount :: go_int

datatype ConfigError = ConfigError go_int

definition New :: "go_int \<Rightarrow> ConfigError + Store" where
  "New partitionCount =
     (if \<not> ValidPartitionCount partitionCount then Inl (ConfigError partitionCount)
      else Inr \<lparr>parts = replicate (unat partitionCount) \<lparr>part_m = []\<rparr>,
                store_partitionCount = partitionCount\<rparr>)"

text \<open>The loop of \<open>itoa\<close> writes the digits of \<open>n\<close> in front of \<open>buf\<close>, in 64-bit signed arithmetic.\<close>

lemma go_quot_10: "0 < sint n \<Longrightarrow> unat (go_quot n 10) < unat n"
  using go_quot_unat[of n 10] sint_pos_iff[of n] by simp

function itoa_loop :: "go_int \<Rightarrow> go_string \<Rightarrow> go_string" where
  "itoa_loop n buf =
     (if 0 < sint n then itoa_loop (go_quot n 10) (digit_char (unat (go_rem n 10)) # buf) else buf)"
  by pat_completeness auto
termination
  by (relation "measure (\<lambda>(n, buf). unat n)") (auto simp: go_quot_10)

declare itoa_loop.simps [simp del]

definition itoa :: "go_int \<Rightarrow> go_string" where
  "itoa n =
     (if n = 0 then ''0''
      else let neg = (sint n < 0);
               digits = itoa_loop (if neg then - n else n) [] in
           if neg then CHR ''-'' # digits else digits)"

definition ConfigError_Error :: "ConfigError \<Rightarrow> go_string" where
  "ConfigError_Error e =
     (case e of ConfigError n \<Rightarrow> ''store: partition count must be a positive power of two, got '' @ itoa n)"

definition PartitionCount :: "Store \<Rightarrow> go_int" where
  "PartitionCount s = store_partitionCount s"

definition partitionFor :: "Store \<Rightarrow> go_string \<Rightarrow> nat" where
  "partitionFor s key = unat (Partition key (store_partitionCount s))"

definition snapshot :: "entry \<Rightarrow> Entry" where
  "snapshot e = \<lparr>Value = e_value e, Version = e_version e\<rparr>"

definition Get :: "Store \<Rightarrow> go_string \<Rightarrow> Entry option option" where
  "Get s key =
     (let i = partitionFor s key in
      if length (parts s) \<le> i then None
      else Some (map_option snapshot (map_of (part_m (parts s ! i)) key)))"

definition compute :: "go_string \<Rightarrow> WriteOp \<Rightarrow> go_string" where
  "compute current opn = (if op_Mode opn = ModeMerge then Apply current (Body opn) else clone (Body opn))"

text \<open>The critical section under an existing key's lock: guards, computation and version bump.\<close>

definition write_existing :: "WriteOp \<Rightarrow> entry \<Rightarrow> store_error + entry" where
  "write_existing opn e =
     (if IfAbsent opn
      then Inl (VersionMismatch \<lparr>vm_Key = Key opn, Expected = 0, Current = e_version e, RequiredAbsent = True\<rparr>)
      else case IfVersion opn of
        Some v \<Rightarrow>
          if v \<noteq> e_version e
          then Inl (VersionMismatch \<lparr>vm_Key = Key opn, Expected = v, Current = e_version e, RequiredAbsent = False\<rparr>)
          else Inr \<lparr>e_value = compute (e_value e) opn, e_version = e_version e + 1\<rparr>
      | None \<Rightarrow> Inr \<lparr>e_value = compute (e_value e) opn, e_version = e_version e + 1\<rparr>)"

text \<open>The critical section under the partition's write lock, for a key that is not there.\<close>

definition write_new :: "WriteOp \<Rightarrow> store_error + entry" where
  "write_new opn =
     (case IfVersion opn of
        Some v \<Rightarrow> Inl (VersionMismatch \<lparr>vm_Key = Key opn, Expected = v, Current = 0, RequiredAbsent = False\<rparr>)
      | None \<Rightarrow> Inr \<lparr>e_value = clone (Body opn), e_version = FirstVersion\<rparr>)"

definition put_entry :: "Store \<Rightarrow> nat \<Rightarrow> go_string \<Rightarrow> entry \<Rightarrow> Store" where
  "put_entry s i key e = s\<lparr>parts := (parts s)[i := \<lparr>part_m = AList.update key e (part_m (parts s ! i))\<rparr>]\<rparr>"

definition Write :: "Store \<Rightarrow> WriteOp \<Rightarrow> (Store \<times> (store_error + Entry)) option" where
  "Write s opn =
     (if IfAbsent opn \<and> IfVersion opn \<noteq> None then Some (s, Inl ErrConflictingGuards)
      else let i = partitionFor s (Key opn) in
        if length (parts s) \<le> i then None
        else Some
          (case (case map_of (part_m (parts s ! i)) (Key opn) of
                   Some e \<Rightarrow> write_existing opn e
                 | None \<Rightarrow> write_new opn) of
             Inl err \<Rightarrow> (s, Inl err)
           | Inr e' \<Rightarrow> (put_entry s i (Key opn) e', Inr (snapshot e'))))"

text \<open>
  \<open>Keys\<close> returns an iterator that pushes every key to \<open>yield\<close> until that returns false. Here
  \<open>yield\<close> threads a state of the consumer's, and the flag of the result says that no call
  returned false.
\<close>

fun yield_keys :: "('a \<Rightarrow> go_string \<Rightarrow> 'a \<times> bool) \<Rightarrow> 'a \<Rightarrow> go_string list \<Rightarrow> 'a \<times> bool" where
  "yield_keys yield a [] = (a, True)"
| "yield_keys yield a (k # ks) =
     (case yield a k of (a', continue) \<Rightarrow> if continue then yield_keys yield a' ks else (a', False))"

fun yield_parts :: "('a \<Rightarrow> go_string \<Rightarrow> 'a \<times> bool) \<Rightarrow> 'a \<Rightarrow> partition list \<Rightarrow> 'a" where
  "yield_parts yield a [] = a"
| "yield_parts yield a (p # ps) =
     (case yield_keys yield a (map fst (part_m p)) of
        (a', continue) \<Rightarrow> if continue then yield_parts yield a' ps else a')"

definition Keys :: "Store \<Rightarrow> ('a \<Rightarrow> go_string \<Rightarrow> 'a \<times> bool) \<Rightarrow> 'a \<Rightarrow> 'a" where
  "Keys s yield a = yield_parts yield a (parts s)"

fun len_loop :: "go_int \<Rightarrow> partition list \<Rightarrow> go_int" where
  "len_loop tot [] = tot"
| "len_loop tot (p # ps) = len_loop (tot + word_of_nat (length (part_m p))) ps"

definition Len :: "Store \<Rightarrow> go_int" where
  "Len s = len_loop 0 (parts s)"

section \<open>What the store promises: a map from keys to versioned values\<close>

type_synonym kv = "go_string \<rightharpoonup> Entry"

definition apply_write :: "WriteOp \<Rightarrow> Entry option \<Rightarrow> Entry" where
  "apply_write opn cur =
     (case cur of
        None \<Rightarrow> \<lparr>Value = Body opn, Version = 1\<rparr>
      | Some e \<Rightarrow> \<lparr>Value = (case op_Mode opn of ModeReplace \<Rightarrow> Body opn | ModeMerge \<Rightarrow> Apply (Value e) (Body opn)),
                   Version = Version e + 1\<rparr>)"

text \<open>The version a failed guard reports: 0 for a key that does not exist.\<close>

definition version_of :: "Entry option \<Rightarrow> uint64" where
  "version_of cur = (case cur of None \<Rightarrow> 0 | Some e \<Rightarrow> Version e)"

definition guard_ok :: "WriteOp \<Rightarrow> Entry option \<Rightarrow> bool" where
  "guard_ok opn cur \<longleftrightarrow> (IfAbsent opn \<longrightarrow> cur = None) \<and>
     (\<forall>v. IfVersion opn = Some v \<longrightarrow> cur \<noteq> None \<and> version_of cur = v)"

definition spec_write :: "kv \<Rightarrow> WriteOp \<Rightarrow> kv \<times> (store_error + Entry)" where
  "spec_write m opn =
     (if IfAbsent opn \<and> IfVersion opn \<noteq> None then (m, Inl ErrConflictingGuards)
      else if guard_ok opn (m (Key opn))
        then (m(Key opn \<mapsto> apply_write opn (m (Key opn))), Inr (apply_write opn (m (Key opn))))
      else (m, Inl (VersionMismatch \<lparr>vm_Key = Key opn,
                      Expected = (case IfVersion opn of None \<Rightarrow> 0 | Some v \<Rightarrow> v),
                      Current = version_of (m (Key opn)), RequiredAbsent = IfAbsent opn\<rparr>)))"

section \<open>Invariant and refinement\<close>

definition part_ok :: "go_int \<Rightarrow> nat \<Rightarrow> partition \<Rightarrow> bool" where
  "part_ok n i p \<longleftrightarrow> distinct (map fst (part_m p)) \<and> (\<forall>k \<in> fst ` set (part_m p). unat (Partition k n) = i)"

definition store_ok :: "Store \<Rightarrow> bool" where
  "store_ok s \<longleftrightarrow> ValidPartitionCount (store_partitionCount s) \<and>
     length (parts s) = unat (store_partitionCount s) \<and>
     (\<forall>i < length (parts s). part_ok (store_partitionCount s) i (parts s ! i))"

text \<open>The abstract map of a store: each key is looked up in its own partition.\<close>

definition contents :: "Store \<Rightarrow> kv" where
  "contents s = (\<lambda>k. map_option snapshot (map_of (part_m (parts s ! partitionFor s k)) k))"

lemma partitionFor_less: "store_ok s \<Longrightarrow> partitionFor s key < length (parts s)"
  by (simp add: store_ok_def partitionFor_def Partition_less)

lemma New_ok: "New n = Inr s \<Longrightarrow> store_ok s \<and> contents s = Map.empty \<and> store_partitionCount s = n"
proof -
  assume "New n = Inr s"
  then have v: "ValidPartitionCount n"
    and s: "s = \<lparr>parts = replicate (unat n) \<lparr>part_m = []\<rparr>, store_partitionCount = n\<rparr>"
    by (auto simp: New_def split: if_splits)
  then have "store_ok s" by (simp add: store_ok_def part_ok_def)
  moreover have "contents s = Map.empty"
    using partitionFor_less[OF \<open>store_ok s\<close>] s by (simp add: contents_def fun_eq_iff)
  ultimately show ?thesis by (simp add: s)
qed

lemma Get_contents: "store_ok s \<Longrightarrow> Get s key = Some (contents s key)"
  using partitionFor_less[of s key] by (simp add: Get_def contents_def Let_def)

lemma put_entry_ok:
  assumes "store_ok s" "i = partitionFor s key"
  shows "store_ok (put_entry s i key e)"
    and "contents (put_entry s i key e) = (contents s)(key \<mapsto> snapshot e)"
    and "store_partitionCount (put_entry s i key e) = store_partitionCount s"
proof -
  let ?n = "store_partitionCount s" and ?p = "parts s ! i"
  have i: "i < length (parts s)" using assms partitionFor_less by blast
  have "part_ok ?n i ?p" using assms(1) i by (simp add: store_ok_def)
  then have "part_ok ?n i \<lparr>part_m = AList.update key e (part_m ?p)\<rparr>"
    using assms(2) by (auto simp: part_ok_def distinct_update dom_update partitionFor_def)
  then show "store_ok (put_entry s i key e)"
    using assms(1) i by (auto simp: store_ok_def put_entry_def nth_list_update)
  show "store_partitionCount (put_entry s i key e) = store_partitionCount s" by (simp add: put_entry_def)
  then have pf: "partitionFor (put_entry s i key e) k = partitionFor s k" for k by (simp add: partitionFor_def)
  show "contents (put_entry s i key e) = (contents s)(key \<mapsto> snapshot e)"
  proof
    fix k
    show "contents (put_entry s i key e) k = ((contents s)(key \<mapsto> snapshot e)) k"
      using i assms(2) unfolding contents_def pf
      by (auto simp: put_entry_def nth_list_update update_conv')
  qed
qed

lemma compute_apply: "snapshot \<lparr>e_value = compute (e_value e) opn, e_version = e_version e + 1\<rparr> = apply_write opn (Some (snapshot e))"
  by (simp add: snapshot_def compute_def apply_write_def clone_def split: Mode.splits)

lemma write_existing_spec:
  "\<not> (IfAbsent opn \<and> IfVersion opn \<noteq> None) \<Longrightarrow> m (Key opn) = Some (snapshot e) \<Longrightarrow>
   spec_write m opn = (case write_existing opn e of
       Inl err \<Rightarrow> (m, Inl err) | Inr e' \<Rightarrow> (m(Key opn \<mapsto> snapshot e'), Inr (snapshot e')))"
  by (auto simp: spec_write_def write_existing_def guard_ok_def compute_apply version_of_def snapshot_def [of e]
      split: option.splits)

lemma write_new_spec:
  "\<not> (IfAbsent opn \<and> IfVersion opn \<noteq> None) \<Longrightarrow> m (Key opn) = None \<Longrightarrow>
   spec_write m opn = (case write_new opn of
       Inl err \<Rightarrow> (m, Inl err) | Inr e' \<Rightarrow> (m(Key opn \<mapsto> snapshot e'), Inr (snapshot e')))"
  by (auto simp: spec_write_def write_new_def guard_ok_def version_of_def apply_write_def snapshot_def
      clone_def FirstVersion_def split: option.splits)

lemma Write_spec:
  assumes "store_ok s"
  shows "\<exists>s'. Write s opn = Some (s', snd (spec_write (contents s) opn)) \<and> store_ok s' \<and>
           contents s' = fst (spec_write (contents s) opn) \<and> store_partitionCount s' = store_partitionCount s"
proof (cases "IfAbsent opn \<and> IfVersion opn \<noteq> None")
  case True
  then show ?thesis using assms by (simp add: Write_def spec_write_def)
next
  case False
  let ?i = "partitionFor s (Key opn)"
  let ?w = "case map_of (part_m (parts s ! ?i)) (Key opn) of Some e \<Rightarrow> write_existing opn e | None \<Rightarrow> write_new opn"
  have spec: "spec_write (contents s) opn = (case ?w of
      Inl err \<Rightarrow> (contents s, Inl err)
    | Inr e' \<Rightarrow> ((contents s)(Key opn \<mapsto> snapshot e'), Inr (snapshot e')))"
    using write_existing_spec[OF False, of "contents s"] write_new_spec[OF False, of "contents s"]
    by (cases "map_of (part_m (parts s ! ?i)) (Key opn)") (simp_all add: contents_def)
  have wr: "Write s opn = Some (case ?w of Inl err \<Rightarrow> (s, Inl err)
      | Inr e' \<Rightarrow> (put_entry s ?i (Key opn) e', Inr (snapshot e')))"
    using partitionFor_less[OF assms, of "Key opn"] unfolding Write_def Let_def if_not_P[OF False] by simp
  show ?thesis using spec wr put_entry_ok[OF assms, of ?i "Key opn"] assms
    by (cases ?w) simp_all
qed

section \<open>The contract of a versioned key/value store\<close>

text \<open>
  What a client of the store may rely on: no operation panics, a write is applied exactly when its
  guards hold for the key's current state, an applied write is what the next read of the key sees,
  and nothing else changes.
\<close>

locale versioned_kv =
  fixes get :: "'s \<Rightarrow> go_string \<Rightarrow> Entry option option"
    and wr :: "'s \<Rightarrow> WriteOp \<Rightarrow> ('s \<times> (store_error + Entry)) option"
    and ok :: "'s \<Rightarrow> bool"
  assumes get_total: "ok s \<Longrightarrow> \<exists>cur. get s k = Some cur"
    and write_total: "ok s \<Longrightarrow> \<exists>s' r. wr s opn = Some (s', r)"
    and write_ok: "ok s \<Longrightarrow> wr s opn = Some (s', r) \<Longrightarrow> ok s'"
    and write_applied: "ok s \<Longrightarrow> wr s opn = Some (s', Inr e) \<Longrightarrow> get s (Key opn) = Some cur \<Longrightarrow>
           guard_ok opn cur \<and> e = apply_write opn cur \<and> get s' (Key opn) = Some (Some e)"
    and write_rejected: "ok s \<Longrightarrow> wr s opn = Some (s', Inl err) \<Longrightarrow> get s' k = get s k"
    and write_other: "ok s \<Longrightarrow> wr s opn = Some (s', r) \<Longrightarrow> k \<noteq> Key opn \<Longrightarrow> get s' k = get s k"

text \<open>A sequence of writes, with the result of each.\<close>

fun write_all :: "('s \<Rightarrow> WriteOp \<Rightarrow> ('s \<times> 'r) option) \<Rightarrow> 's \<Rightarrow> WriteOp list \<Rightarrow> ('s \<times> 'r list) option" where
  "write_all wr s [] = Some (s, [])"
| "write_all wr s (opn # ops) =
     (case wr s opn of
        None \<Rightarrow> None
      | Some (s', r) \<Rightarrow> map_option (\<lambda>(s'', rs). (s'', r # rs)) (write_all wr s' ops))"

fun is_ok :: "'e + 'a \<Rightarrow> bool" where
  "is_ok (Inl e) = False"
| "is_ok (Inr a) = True"

text \<open>The writes of a sequence that satisfy \<open>P\<close> and succeeded.\<close>

fun successes :: "(WriteOp \<Rightarrow> bool) \<Rightarrow> WriteOp list \<Rightarrow> (store_error + Entry) list \<Rightarrow> nat" where
  "successes P (opn # ops) (r # rs) = (if P opn \<and> is_ok r then 1 else 0) + successes P ops rs"
| "successes P _ _ = 0"

lemma successes_mono: "(\<And>opn. P opn \<Longrightarrow> Q opn) \<Longrightarrow> successes P ops rs \<le> successes Q ops rs"
  by (induction P ops rs rule: successes.induct) (auto simp: add_mono)

context versioned_kv
begin

lemma write_step:
  assumes "ok s" "wr s opn = Some (s', r)" "get s k = Some cur"
  shows "get s' k = Some (if Key opn = k \<and> is_ok r then Some (apply_write opn cur) else cur)"
  using assms write_applied[of s opn s' _ cur] write_rejected[of s opn s' _ k] write_other[of s opn s' r k]
  by (cases r) auto

lemma write_all_ok: "ok s \<Longrightarrow> write_all wr s ops = Some (s', rs) \<Longrightarrow> ok s'"
  by (induction ops arbitrary: s rs) (auto split: option.splits dest: write_ok)

lemma write_all_total: "ok s \<Longrightarrow> \<exists>s' rs. write_all wr s ops = Some (s', rs)"
proof (induction ops arbitrary: s)
  case (Cons opn ops)
  obtain s1 r where "wr s opn = Some (s1, r)" using write_total[OF Cons.prems] by blast
  moreover from this Cons obtain s' rs where "write_all wr s1 ops = Some (s', rs)" using write_ok by blast
  ultimately show ?case by simp
qed simp

text \<open>A key's version is the number of writes to it that succeeded, modulo \<open>2^64\<close>.\<close>

lemma version_counts:
  assumes "ok s" "write_all wr s ops = Some (s', rs)" "get s k = Some cur"
  shows "\<exists>cur'. get s' k = Some cur' \<and>
    version_of cur' = version_of cur + word_of_nat (successes (\<lambda>opn. Key opn = k) ops rs)"
  using assms
proof (induction ops arbitrary: s rs cur)
  case (Cons opn ops)
  then obtain s1 r rs' where w: "wr s opn = Some (s1, r)" "write_all wr s1 ops = Some (s', rs')" "rs = r # rs'"
    by (auto split: option.splits)
  have "version_of (Some (apply_write opn cur)) = version_of cur + 1"
    by (simp add: apply_write_def version_of_def split: option.splits)
  with Cons.IH[OF write_ok[OF Cons.prems(1) w(1)] w(2) write_step[OF Cons.prems(1) w(1) Cons.prems(3)]] w(3)
  show ?case by (auto simp: add_ac)
qed simp

text \<open>A key that exists keeps existing.\<close>

lemma key_stays:
  assumes "ok s" "write_all wr s ops = Some (s', rs)" "get s k = Some (Some e)"
  shows "\<exists>e'. get s' k = Some (Some e')"
  using assms
proof (induction ops arbitrary: s rs e)
  case (Cons opn ops)
  then obtain s1 r rs' where w: "wr s opn = Some (s1, r)" "write_all wr s1 ops = Some (s', rs')"
    by (auto split: option.splits)
  from write_step[OF Cons.prems(1) w(1) Cons.prems(3)] have "\<exists>e1. get s1 k = Some (Some e1)" by auto
  then show ?case using Cons.IH[OF write_ok[OF Cons.prems(1) w(1)] w(2)] by blast
qed simp

text \<open>
  Once a key's version has moved past \<open>v\<close> it does not come back to \<open>v\<close> before \<open>2^64\<close> writes,
  so of all writes guarded by the same version at most one succeeds.
\<close>

lemma cas_never:
  assumes "ok s" "write_all wr s ops = Some (s', rs)" "get s k = Some cur"
    "version_of cur = v + word_of_nat j" "0 < j" "j + length ops \<le> 2 ^ 64"
  shows "successes (\<lambda>opn. Key opn = k \<and> IfVersion opn = Some v) ops rs = 0"
  using assms
proof (induction ops arbitrary: s rs cur j)
  case (Cons opn ops)
  then obtain s1 r rs' where w: "wr s opn = Some (s1, r)" "write_all wr s1 ops = Some (s', rs')" "rs = r # rs'"
    by (auto split: option.splits)
  have "unat (word_of_nat j :: uint64) = j" using Cons.prems(5,6) by (intro unat_of_nat64) simp
  then have "version_of cur \<noteq> v" using Cons.prems(4,5) by auto
  then have no: "\<not> (Key opn = k \<and> IfVersion opn = Some v \<and> is_ok r)"
    using write_applied[OF Cons.prems(1), of opn s1 _ cur] w(1) Cons.prems(3)
    by (cases r) (auto simp: guard_ok_def)
  define j' where "j' = (if Key opn = k \<and> is_ok r then Suc j else j)"
  have "version_of (if Key opn = k \<and> is_ok r then Some (apply_write opn cur) else cur) = v + word_of_nat j'"
    using Cons.prems(4) by (simp add: j'_def version_of_def apply_write_def split: option.splits)
  from Cons.IH[OF write_ok[OF Cons.prems(1) w(1)] w(2) write_step[OF Cons.prems(1) w(1) Cons.prems(3)] this]
  show ?case using no Cons.prems(5,6) w(3) by (simp add: j'_def split: if_splits)
qed simp

lemma cas_once:
  assumes "ok s" "write_all wr s ops = Some (s', rs)" "length ops \<le> 2 ^ 64"
  shows "successes (\<lambda>opn. Key opn = k \<and> IfVersion opn = Some v) ops rs \<le> 1"
  using assms
proof (induction ops arbitrary: s rs)
  case (Cons opn ops)
  then obtain s1 r rs' where w: "wr s opn = Some (s1, r)" "write_all wr s1 ops = Some (s', rs')" "rs = r # rs'"
    by (auto split: option.splits)
  obtain cur where cur: "get s k = Some cur" using get_total[OF Cons.prems(1)] by blast
  show ?case
  proof (cases "Key opn = k \<and> IfVersion opn = Some v \<and> is_ok r")
    case True
    then have "version_of cur = v \<and> get s1 k = Some (Some (apply_write opn cur))"
      using write_applied[OF Cons.prems(1), of opn s1 _ cur] w(1) cur by (cases r) (auto simp: guard_ok_def)
    then have "get s1 k = Some (Some (apply_write opn cur))"
      "version_of (Some (apply_write opn cur)) = v + word_of_nat 1"
      by (auto simp: version_of_def apply_write_def split: option.splits)
    from cas_never[OF write_ok[OF Cons.prems(1) w(1)] w(2) this] Cons.prems(3)
    show ?thesis by (simp add: w(3))
  next
    case False
    then show ?thesis using Cons.IH[OF write_ok[OF Cons.prems(1) w(1)] w(2)] Cons.prems(3) w(3) by auto
  qed
qed simp

lemma create_never:
  assumes "ok s" "write_all wr s ops = Some (s', rs)" "get s k = Some (Some e)"
  shows "successes (\<lambda>opn. Key opn = k \<and> IfAbsent opn) ops rs = 0"
  using assms
proof (induction ops arbitrary: s rs e)
  case (Cons opn ops)
  then obtain s1 r rs' where w: "wr s opn = Some (s1, r)" "write_all wr s1 ops = Some (s', rs')" "rs = r # rs'"
    by (auto split: option.splits)
  have "\<not> (Key opn = k \<and> IfAbsent opn \<and> is_ok r)"
    using write_applied[OF Cons.prems(1), of opn s1 _ "Some e"] w(1) Cons.prems(3)
    by (cases r) (auto simp: guard_ok_def)
  moreover from write_step[OF Cons.prems(1) w(1) Cons.prems(3)] have "\<exists>e1. get s1 k = Some (Some e1)" by auto
  ultimately show ?case using Cons.IH[OF write_ok[OF Cons.prems(1) w(1)] w(2)] w(3) by auto
qed simp

lemma create_once:
  assumes "ok s" "write_all wr s ops = Some (s', rs)"
  shows "successes (\<lambda>opn. Key opn = k \<and> IfAbsent opn) ops rs \<le> 1"
  using assms
proof (induction ops arbitrary: s rs)
  case (Cons opn ops)
  then obtain s1 r rs' where w: "wr s opn = Some (s1, r)" "write_all wr s1 ops = Some (s', rs')" "rs = r # rs'"
    by (auto split: option.splits)
  show ?case
  proof (cases "Key opn = k \<and> IfAbsent opn \<and> is_ok r")
    case True
    obtain cur where cur: "get s k = Some cur" using get_total[OF Cons.prems(1)] by blast
    with True write_step[OF Cons.prems(1) w(1) cur] have "get s1 k = Some (Some (apply_write opn cur))" by simp
    from create_never[OF write_ok[OF Cons.prems(1) w(1)] w(2) this] show ?thesis by (simp add: w(3))
  next
    case False
    then show ?thesis using Cons.IH[OF write_ok[OF Cons.prems(1) w(1)] w(2)] w(3) by auto
  qed
qed simp

lemma fresh_key_exists:
  assumes "ok s" "write_all wr s ops = Some (s', rs)" "get s k = Some None" "get s' k = Some cur"
  shows "cur = None \<longleftrightarrow> successes (\<lambda>opn. Key opn = k) ops rs = 0"
  using assms
proof (induction ops arbitrary: s rs)
  case (Cons opn ops)
  then obtain s1 r rs' where w: "wr s opn = Some (s1, r)" "write_all wr s1 ops = Some (s', rs')" "rs = r # rs'"
    by (auto split: option.splits)
  note step = write_step[OF Cons.prems(1) w(1) Cons.prems(3)] and ok = write_ok[OF Cons.prems(1) w(1)]
  show ?case
  proof (cases "Key opn = k \<and> is_ok r")
    case True
    then have "get s1 k = Some (Some (apply_write opn None))" using step by simp
    from key_stays[OF ok w(2) this] have "\<exists>e. cur = Some e" using Cons.prems(4) by auto
    then show ?thesis using True w(3) by auto
  next
    case False
    then show ?thesis using Cons.IH[OF ok w(2) _ Cons.prems(4)] step w(3) by auto
  qed
qed simp

end

interpretation store: versioned_kv Get Write store_ok
proof unfold_locales
  fix s :: Store and s' opn r e err k cur
  assume ok: "store_ok s"
  note spec = Write_spec[OF ok, of opn] and get = Get_contents[OF ok]
  show "\<exists>cur. Get s k = Some cur" by (simp add: get)
  show "\<exists>s' r. Write s opn = Some (s', r)" using spec by blast
  {
    assume w: "Write s opn = Some (s', r)"
    then show ok': "store_ok s'" using spec by auto
    show "k \<noteq> Key opn \<Longrightarrow> Get s' k = Get s k"
      using w spec by (auto simp: get Get_contents spec_write_def split: if_splits)
  }
  {
    assume w: "Write s opn = Some (s', Inr e)" and cur: "Get s (Key opn) = Some cur"
    then show "guard_ok opn cur \<and> e = apply_write opn cur \<and> Get s' (Key opn) = Some (Some e)"
      using spec by (auto simp: get Get_contents spec_write_def split: if_splits)
  }
  assume w: "Write s opn = Some (s', Inl err)"
  then show "Get s' k = Get s k"
    using spec by (auto simp: get Get_contents spec_write_def split: if_splits)
qed

section \<open>Properties of the store\<close>

text \<open>
  C7. The store refines the abstract versioned map: under the invariant \<open>Write\<close> does not
  panic, its result and its effect on the contents are those of \<open>spec_write\<close>, on every branch,
  the invariant holds again, and \<open>Get\<close> reads the abstract map.
\<close>

theorem Write_refines_spec:
  assumes "store_ok s"
  shows "\<exists>s'. Write s opn = Some (s', snd (spec_write (contents s) opn)) \<and> store_ok s' \<and>
           contents s' = fst (spec_write (contents s) opn) \<and> (\<forall>k. Get s' k = Some (contents s' k))"
  using Write_spec[OF assms, of opn] Get_contents by blast

lemma ValidPartitionCount_4: "ValidPartitionCount 4"
  unfolding ValidPartitionCount_iff by (intro exI[of _ 2]) simp

lemma New_4: "\<exists>s. New 4 = Inr s"
  by (simp add: New_def ValidPartitionCount_4)

theorem Write_refines_spec_witness:
  "\<exists>s s'. New 4 = Inr s \<and>
     Write s \<lparr>Key = ''k'', Body = ''1'', op_Mode = ModeMerge, IfVersion = None, IfAbsent = True\<rparr> =
       Some (s', Inr \<lparr>Value = ''1'', Version = 1\<rparr>) \<and> Get s' ''k'' = Some (Some \<lparr>Value = ''1'', Version = 1\<rparr>)"
proof -
  obtain s where s: "New 4 = Inr s" using New_4 by blast
  then have "store_ok s" "contents s = Map.empty" using New_ok by blast+
  then show ?thesis
    using Write_refines_spec[of s "\<lparr>Key = ''k'', Body = ''1'', op_Mode = ModeMerge, IfVersion = None, IfAbsent = True\<rparr>"] s
    by (auto simp: spec_write_def guard_ok_def apply_write_def)
qed

text \<open>
  \<open>New\<close> succeeds exactly on the positive powers of two that fit a signed 64-bit integer, and
  then the store satisfies the invariant and holds nothing.
\<close>

lemma New_correct:
  "(\<exists>s. New n = Inr s \<and> store_ok s \<and> PartitionCount s = n \<and> (\<forall>k. Get s k = Some None)) \<longleftrightarrow>
   (\<exists>j < 63. unat n = 2 ^ j)"
proof (cases "ValidPartitionCount n")
  case True
  then obtain s where s: "New n = Inr s" by (auto simp: New_def)
  from New_ok[OF this] s True show ?thesis
    by (auto simp: Get_contents PartitionCount_def ValidPartitionCount_iff [symmetric])
next
  case False
  then show ?thesis by (simp add: New_def ValidPartitionCount_iff)
qed

section \<open>Listing and counting keys\<close>

definition all_keys :: "Store \<Rightarrow> go_string list" where
  "all_keys s = concat (map (\<lambda>p. map fst (part_m p)) (parts s))"

lemma yield_keys_append:
  "yield_keys yield a (ks @ ks') =
     (case yield_keys yield a ks of (a', continue) \<Rightarrow> if continue then yield_keys yield a' ks' else (a', False))"
  by (induction ks arbitrary: a) (auto split: prod.splits)

lemma Keys_all_keys: "Keys s yield a = fst (yield_keys yield a (all_keys s))"
proof -
  have "yield_parts yield a ps = fst (yield_keys yield a (concat (map (\<lambda>p. map fst (part_m p)) ps)))" for ps a
    by (induction ps arbitrary: a) (auto simp: yield_keys_append split: prod.splits)
  then show ?thesis by (simp add: Keys_def all_keys_def)
qed

lemma yield_collect: "yield_keys (\<lambda>a k. (a @ [k], True)) a ks = (a @ ks, True)"
  by (induction ks arbitrary: a) auto

lemma contents_part:
  assumes "store_ok s" "i < length (parts s)" "k \<in> fst ` set (part_m (parts s ! i))"
  shows "partitionFor s k = i" "contents s k \<noteq> None"
proof -
  have "part_ok (store_partitionCount s) i (parts s ! i)" using assms by (simp add: store_ok_def)
  then show "partitionFor s k = i" using assms(3) unfolding part_ok_def partitionFor_def by blast
  then show "contents s k \<noteq> None" using assms(3) by (simp add: contents_def map_of_eq_None_iff)
qed

lemma all_keys_set: "store_ok s \<Longrightarrow> set (all_keys s) = dom (contents s)"
proof (intro set_eqI iffI)
  fix k assume ok: "store_ok s" and "k \<in> set (all_keys s)"
  then obtain p where p: "p \<in> set (parts s)" "k \<in> fst ` set (part_m p)" by (auto simp: all_keys_def)
  from p(1) obtain i where "i < length (parts s)" "p = parts s ! i" by (metis in_set_conv_nth)
  with p(2) show "k \<in> dom (contents s)" using contents_part(2)[OF ok] by blast
next
  fix k assume ok: "store_ok s" and "k \<in> dom (contents s)"
  then have "k \<in> fst ` set (part_m (parts s ! partitionFor s k))"
    by (auto simp: contents_def dest!: map_of_SomeD intro: rev_image_eqI)
  then show "k \<in> set (all_keys s)" using partitionFor_less[OF ok, of k] by (auto simp: all_keys_def)
qed

lemma all_keys_distinct: "store_ok s \<Longrightarrow> distinct (all_keys s)"
proof -
  assume ok: "store_ok s"
  let ?ks = "map (\<lambda>p. map fst (part_m p)) (parts s)"
  have "\<And>i. i < length ?ks \<Longrightarrow> distinct (?ks ! i)" using ok by (simp add: store_ok_def part_ok_def)
  moreover have "\<And>i k. i < length ?ks \<Longrightarrow> k \<in> set (?ks ! i) \<Longrightarrow> partitionFor s k = 0 + i"
    using contents_part(1)[OF ok] by simp
  ultimately have "distinct (concat ?ks)" by (rule distinct_concat_keyed)
  then show ?thesis by (simp add: all_keys_def)
qed

text \<open>
  Listing: the iterator of \<open>Keys\<close> yields every key of the store exactly once and nothing
  else; \<open>Len\<close> is the number of keys, as a 64-bit integer.
\<close>

lemma Keys_complete:
  assumes "store_ok s"
  shows "let ks = Keys s (\<lambda>a k. (a @ [k], True)) [] in
         distinct ks \<and> set ks = {k. \<exists>e. Get s k = Some (Some e)} \<and> Len s = word_of_nat (length ks)"
proof -
  have "len_loop t ps = t + word_of_nat (length (concat (map (\<lambda>p. map fst (part_m p)) ps)))" for t ps
    by (induction ps arbitrary: t) (simp_all add: add_ac)
  then show ?thesis using all_keys_set[OF assms] all_keys_distinct[OF assms] Get_contents[OF assms]
    by (auto simp: Keys_all_keys yield_collect Len_def all_keys_def [symmetric])
qed

text \<open>
  A consumer that stops the iteration gets no further key: what \<open>Keys\<close> does is what the
  consumer does on the first keys of one fixed sequence, up to its first refusal.
\<close>

lemma Keys_stops:
  "\<exists>n. Keys s (\<lambda>a k. (a @ [k], \<not> stop k)) [] = take n (all_keys s) \<and>
       (\<forall>k \<in> set (take (n - 1) (all_keys s)). \<not> stop k) \<and>
       (n < length (all_keys s) \<longrightarrow> 0 < n \<and> stop (all_keys s ! (n - 1)))"
proof -
  have "\<exists>n. fst (yield_keys (\<lambda>a k. (a @ [k], \<not> stop k)) a ks) = a @ take n ks \<and>
       (\<forall>k \<in> set (take (n - 1) ks). \<not> stop k) \<and> (n < length ks \<longrightarrow> 0 < n \<and> stop (ks ! (n - 1)))" for a ks
  proof (induction ks arbitrary: a)
    case (Cons k ks)
    show ?case
    proof (cases "stop k")
      case True
      then show ?thesis by (intro exI[of _ 1]) simp
    next
      case False
      obtain n where n: "fst (yield_keys (\<lambda>a k. (a @ [k], \<not> stop k)) (a @ [k]) ks) = (a @ [k]) @ take n ks"
        "\<forall>k \<in> set (take (n - 1) ks). \<not> stop k" "n < length ks \<longrightarrow> 0 < n \<and> stop (ks ! (n - 1))"
        using Cons by blast
      then show ?thesis using False
        by (intro exI[of _ "Suc n"]) (cases n; auto)
    qed
  qed simp
  from this[of "[]" "all_keys s"] show ?thesis by (simp add: Keys_all_keys)
qed

section \<open>The integer formatter of the package\<close>

lemma itoa_loop_format:
  "itoa_loop n buf = (if 0 < sint n then format_uint (unat n) else []) @ buf"
proof (induction n buf rule: itoa_loop.induct)
  case (1 n buf)
  show ?case
  proof (cases "0 < sint n")
    case True
    have q: "unat (go_quot n 10) = unat n div 10" and r: "unat (go_rem n 10) = unat n mod 10"
      using True go_quot_unat[of n 10] go_rem_unat[of n 10] by simp_all
    have nn: "0 < unat n" "unat n < 2 ^ 63" using True sint_pos_iff by blast+
    then have "0 < sint (go_quot n 10) \<longleftrightarrow> 10 \<le> unat n" by (auto simp: sint_pos_iff q)
    with 1 True q r nn show ?thesis
      by (subst itoa_loop.simps, subst format_uint.simps) auto
  next
    case False
    then show ?thesis by (simp add: itoa_loop.simps)
  qed
qed

text \<open>
  C35. The hand-written \<open>itoa\<close> agrees with \<open>strconv.Itoa\<close> on every integer except the smallest,
  whose negation overflows: for that one it returns a bare minus sign.
\<close>

theorem itoa_correct: "itoa n = (if sint n = - (2 ^ 63) then ''-'' else Itoa n)"
proof -
  consider "n = 0" | "0 < sint n" | "sint n < 0" "sint n \<noteq> - (2 ^ 63)" | "sint n = - (2 ^ 63)"
    by (metis linorder_neqE_linordered_idom signed_0 signed_word_eqI)
  then show ?thesis
  proof cases
    case 1
    have "format_uint 0 = ''0''" by (subst format_uint.simps) (simp add: digit_char_def char_of_def bit_simps)
    with 1 show ?thesis by (simp add: itoa_def Itoa_def)
  next
    case 2
    then have "nat (sint n) = unat n" using sint_eq_unat[of n] by simp
    then show ?thesis using 2 by (auto simp: itoa_def Itoa_def itoa_loop_format)
  next
    case 3
    have "- (2 ^ 63) \<le> sint n" using sint_ge[of n] by simp
    then have "sint (- n) = - sint n" using 3 by (simp add: sint_word_ariths signed_take_bit_int_eq_self)
    then have "unat (- n) = nat (- sint n)" using 3 sint_eq_unat[of "- n"] by simp
    then show ?thesis using 3 \<open>sint (- n) = - sint n\<close> by (auto simp: itoa_def Itoa_def itoa_loop_format)
  next
    case 4
    have "n = word_of_int (sint n)" by simp
    then have "n = word_of_int (- (2 ^ 63))" unfolding 4 .
    then have "sint (- n) = - (2 ^ 63)" by simp
    then show ?thesis using 4 by (auto simp: itoa_def itoa_loop_format)
  qed
qed

section \<open>Stored documents\<close>

definition values_valid :: "Store \<Rightarrow> bool" where
  "values_valid s \<longleftrightarrow> (\<forall>k e. contents s k = Some e \<longrightarrow> Valid (Value e))"

lemma Apply_keeps_Valid: "Valid delta \<Longrightarrow> Valid (Apply current delta)"
  using Apply_objects(2) Apply_not_objects by (metis option.exhaust)

lemma Write_values_valid:
  assumes "store_ok s" "values_valid s" "Valid (Body opn)" "Write s opn = Some (s', r)"
  shows "values_valid s'"
proof -
  have "Valid (Value (apply_write opn cur))" for cur
    using assms(3) by (simp add: apply_write_def Apply_keeps_Valid split: option.splits Mode.splits)
  then show ?thesis using Write_spec[OF assms(1), of opn] assms(2,4)
    by (auto simp: values_valid_def spec_write_def split: if_splits)
qed

text \<open>
  As long as every request body is valid JSON, every value the store ever returns is valid
  JSON, whatever mixture of PUT and PATCH produced it.
\<close>

lemma stored_values_valid:
  assumes "New n = Inr s0" "\<forall>opn \<in> set ops. Valid (Body opn)" "write_all Write s0 ops = Some (s, rs)"
    "Get s k = Some (Some e)"
  shows "Valid (Value e)"
proof -
  have run: "store_ok s' \<Longrightarrow> values_valid s' \<Longrightarrow> \<forall>opn \<in> set ops. Valid (Body opn) \<Longrightarrow>
      write_all Write s' ops = Some (s, rs) \<Longrightarrow> store_ok s \<and> values_valid s" for s' ops rs
  proof (induction ops arbitrary: s' rs)
    case (Cons opn ops)
    then obtain s1 r rs' where w: "Write s' opn = Some (s1, r)" "write_all Write s1 ops = Some (s, rs')"
      by (auto split: option.splits)
    with Cons.IH[of s1 rs'] Cons.prems store.write_ok[OF Cons.prems(1) w(1)]
      Write_values_valid[OF Cons.prems(1,2) _ w(1)] show ?case by simp
  qed simp
  have "store_ok s0" "values_valid s0" using New_ok[OF assms(1)] by (simp_all add: values_valid_def)
  from run[OF this assms(2,3)] assms(4) show ?thesis by (auto simp: values_valid_def Get_contents)
qed

end
