(* ===== verification/Store_Concurrent.thy ===== *)
theory Store_Concurrent
  imports Kv_Store
begin

text \<open>
  The store under concurrent calls (\<open>internal/store/store.go\<close>). Goroutines run \<open>Get\<close>, \<open>Write\<close>
  and \<open>Keys\<close> step by step over shared memory: the partitions' maps from keys to entry pointers,
  and the entries' fields, each guarded by the \<open>sync.RWMutex\<close> of its struct. A program counter
  names the statement a goroutine is at and carries its local variables; value and version of an
  entry are separate accesses. The scheduler may interleave the steps in any way.

  An RWMutex is modelled by who holds it. A writer first announces itself, which keeps new readers
  out, and then waits until the readers that are in have left, as \<open>sync.RWMutex\<close> does.
\<close>

section \<open>Locks\<close>

type_synonym tid = nat
type_synonym addr = nat

datatype lock_id = PLock nat | ELock addr

record RWMutex =
  readers :: "tid set"
  writer :: "tid option"

datatype instr = RLock lock_id | RUnlock lock_id | Announce lock_id | Await lock_id | Unlock lock_id | Local

text \<open>\<open>None\<close>: the goroutine has to wait, or the runtime reports that it releases a lock it does not hold.\<close>

fun exec_instr :: "tid \<Rightarrow> instr \<Rightarrow> (lock_id \<Rightarrow> RWMutex) \<Rightarrow> (lock_id \<Rightarrow> RWMutex) option" where
  "exec_instr t (RLock l) mu =
     (if writer (mu l) \<noteq> None then None else Some (mu(l := (mu l)\<lparr>readers := insert t (readers (mu l))\<rparr>)))"
| "exec_instr t (RUnlock l) mu =
     (if t \<in> readers (mu l) then Some (mu(l := (mu l)\<lparr>readers := readers (mu l) - {t}\<rparr>)) else None)"
| "exec_instr t (Announce l) mu =
     (if writer (mu l) \<noteq> None then None else Some (mu(l := (mu l)\<lparr>writer := Some t\<rparr>)))"
| "exec_instr t (Await l) mu = (if readers (mu l) = {} then Some mu else None)"
| "exec_instr t (Unlock l) mu =
     (if writer (mu l) = Some t then Some (mu(l := (mu l)\<lparr>writer := None\<rparr>)) else None)"
| "exec_instr t Local mu = Some mu"

section \<open>Goroutines\<close>

datatype call = GetCall go_string | WriteCall WriteOp | KeysCall
datatype ret = GetRet "Entry option" | WriteRet "store_error + Entry" | KeysRet "go_string list"

text \<open>The memory: each partition's map, and the entries by their addresses.\<close>

record shared =
  count :: go_int
  maps :: "(go_string \<times> addr) list list"
  cells :: "entry list"

datatype pc =
    Idle
  | Get_partition go_string
  | Get_rlock go_string
  | Get_lookup go_string
  | Get_runlock go_string "addr option"
  | Get_entry_rlock go_string addr
  | Get_value go_string addr
  | Get_version go_string addr go_string
  | Get_entry_runlock go_string addr Entry
  | Write_partition WriteOp
  | Write_rlock WriteOp
  | Write_lookup WriteOp
  | Write_runlock WriteOp "addr option"
  | Write_lock WriteOp addr
  | Write_wait WriteOp addr
  | Write_guard WriteOp addr
  | Write_value WriteOp addr
  | Write_version WriteOp addr
  | Write_snapshot WriteOp addr
  | Write_unlock WriteOp addr "store_error + Entry"
  | Create_lock WriteOp
  | Create_wait WriteOp
  | Create_check WriteOp
  | Create_insert WriteOp
  | Create_snapshot WriteOp addr
  | Create_unlock WriteOp "(store_error + Entry) option"
  | Keys_rlock nat "go_string list"
  | Keys_copy nat "go_string list"
  | Keys_runlock nat "go_string list"
  | Finished call ret
  | Panicked

fun enter :: "call \<Rightarrow> pc" where
  "enter (GetCall key) = Get_partition key"
| "enter (WriteCall opn) = Write_partition opn"
| "enter KeysCall = Keys_rlock 0 []"

definition part_of :: "shared \<Rightarrow> go_string \<Rightarrow> nat" where
  "part_of d key = unat (Partition key (count d))"

definition lookup :: "shared \<Rightarrow> go_string \<Rightarrow> addr option" where
  "lookup d key = map_of (maps d ! part_of d key) key"

text \<open>What a statement does to the locks. \<open>None\<close>: there is no statement to run.\<close>

fun lock_instr :: "shared \<Rightarrow> pc \<Rightarrow> instr option" where
  "lock_instr d Idle = None"
| "lock_instr d Panicked = None"
| "lock_instr d (Get_rlock key) = Some (RLock (PLock (part_of d key)))"
| "lock_instr d (Get_runlock key e) = Some (RUnlock (PLock (part_of d key)))"
| "lock_instr d (Get_entry_rlock key e) = Some (RLock (ELock e))"
| "lock_instr d (Get_entry_runlock key e snap) = Some (RUnlock (ELock e))"
| "lock_instr d (Write_rlock opn) = Some (RLock (PLock (part_of d (Key opn))))"
| "lock_instr d (Write_runlock opn e) = Some (RUnlock (PLock (part_of d (Key opn))))"
| "lock_instr d (Write_lock opn e) = Some (Announce (ELock e))"
| "lock_instr d (Write_wait opn e) = Some (Await (ELock e))"
| "lock_instr d (Write_unlock opn e r) = Some (Unlock (ELock e))"
| "lock_instr d (Create_lock opn) = Some (Announce (PLock (part_of d (Key opn))))"
| "lock_instr d (Create_wait opn) = Some (Await (PLock (part_of d (Key opn))))"
| "lock_instr d (Create_unlock opn r) = Some (Unlock (PLock (part_of d (Key opn))))"
| "lock_instr d (Keys_rlock i ks) = Some (if i < length (maps d) then RLock (PLock i) else Local)"
| "lock_instr d (Keys_runlock i ks) = Some (RUnlock (PLock i))"
| "lock_instr d pc = Some Local"

text \<open>
  What a statement does to the memory, where the goroutine goes next, and, for the statement at
  which a call takes effect, the call and its result.
\<close>

fun effect :: "shared \<Rightarrow> pc \<Rightarrow> shared \<times> pc \<times> (call \<times> ret) option" where
  "effect d (Get_partition key) =
     (d, if part_of d key < length (maps d) then Get_rlock key else Panicked, None)"
| "effect d (Get_rlock key) = (d, Get_lookup key, None)"
| "effect d (Get_lookup key) =
     (d, Get_runlock key (lookup d key), if lookup d key = None then Some (GetCall key, GetRet None) else None)"
| "effect d (Get_runlock key e) =
     (d, (case e of None \<Rightarrow> Finished (GetCall key) (GetRet None) | Some a \<Rightarrow> Get_entry_rlock key a), None)"
| "effect d (Get_entry_rlock key a) = (d, Get_value key a, None)"
| "effect d (Get_value key a) = (d, Get_version key a (e_value (cells d ! a)), None)"
| "effect d (Get_version key a v) =
     (let snap = \<lparr>Value = v, Version = e_version (cells d ! a)\<rparr> in
      (d, Get_entry_runlock key a snap, Some (GetCall key, GetRet (Some snap))))"
| "effect d (Get_entry_runlock key a snap) = (d, Finished (GetCall key) (GetRet (Some snap)), None)"
| "effect d (Write_partition opn) =
     (if IfAbsent opn \<and> IfVersion opn \<noteq> None
      then (d, Finished (WriteCall opn) (WriteRet (Inl ErrConflictingGuards)),
            Some (WriteCall opn, WriteRet (Inl ErrConflictingGuards)))
      else (d, if part_of d (Key opn) < length (maps d) then Write_rlock opn else Panicked, None))"
| "effect d (Write_rlock opn) = (d, Write_lookup opn, None)"
| "effect d (Write_lookup opn) = (d, Write_runlock opn (lookup d (Key opn)), None)"
| "effect d (Write_runlock opn e) =
     (d, (case e of None \<Rightarrow> Create_lock opn | Some a \<Rightarrow> Write_lock opn a), None)"
| "effect d (Write_lock opn a) = (d, Write_wait opn a, None)"
| "effect d (Write_wait opn a) = (d, Write_guard opn a, None)"
| "effect d (Write_guard opn a) =
     (case write_existing opn (cells d ! a) of
        Inl err \<Rightarrow> (d, Write_unlock opn a (Inl err), Some (WriteCall opn, WriteRet (Inl err)))
      | Inr e \<Rightarrow> (d, Write_value opn a, None))"
| "effect d (Write_value opn a) =
     (d\<lparr>cells := (cells d)[a := (cells d ! a)\<lparr>e_value := compute (e_value (cells d ! a)) opn\<rparr>]\<rparr>,
      Write_version opn a, None)"
| "effect d (Write_version opn a) =
     (let e = (cells d ! a)\<lparr>e_version := e_version (cells d ! a) + 1\<rparr> in
      (d\<lparr>cells := (cells d)[a := e]\<rparr>, Write_snapshot opn a, Some (WriteCall opn, WriteRet (Inr (snapshot e)))))"
| "effect d (Write_snapshot opn a) = (d, Write_unlock opn a (Inr (snapshot (cells d ! a))), None)"
| "effect d (Write_unlock opn a r) = (d, Finished (WriteCall opn) (WriteRet r), None)"
| "effect d (Create_lock opn) = (d, Create_wait opn, None)"
| "effect d (Create_wait opn) = (d, Create_check opn, None)"
| "effect d (Create_check opn) =
     (if lookup d (Key opn) \<noteq> None then (d, Create_unlock opn None, None)
      else case write_new opn of
        Inl err \<Rightarrow> (d, Create_unlock opn (Some (Inl err)), Some (WriteCall opn, WriteRet (Inl err)))
      | Inr e \<Rightarrow> (d, Create_insert opn, None))"
| "effect d (Create_insert opn) =
     (let i = part_of d (Key opn); a = length (cells d);
          created = \<lparr>e_value = clone (Body opn), e_version = FirstVersion\<rparr> in
      (d\<lparr>maps := (maps d)[i := AList.update (Key opn) a (maps d ! i)], cells := cells d @ [created]\<rparr>,
       Create_snapshot opn a, Some (WriteCall opn, WriteRet (Inr (snapshot created)))))"
| "effect d (Create_snapshot opn a) = (d, Create_unlock opn (Some (Inr (snapshot (cells d ! a)))), None)"
| "effect d (Create_unlock opn r) =
     (d, (case r of None \<Rightarrow> Write_rlock opn | Some res \<Rightarrow> Finished (WriteCall opn) (WriteRet res)), None)"
| "effect d (Keys_rlock i ks) =
     (d, if i < length (maps d) then Keys_copy i ks else Finished KeysCall (KeysRet ks), None)"
| "effect d (Keys_copy i ks) = (d, Keys_runlock i (ks @ map fst (maps d ! i)), None)"
| "effect d (Keys_runlock i ks) = (d, Keys_rlock (Suc i) ks, None)"
| "effect d (Finished c r) = (d, Idle, None)"
| "effect d Idle = (d, Idle, None)"
| "effect d Panicked = (d, Panicked, None)"

section \<open>Executions\<close>

record cstate =
  sh :: shared
  mu :: "lock_id \<Rightarrow> RWMutex"
  thr :: "tid \<Rightarrow> pc"

text \<open>The observable events: a call, the statement at which it takes effect, and its return.\<close>

datatype event = Inv tid call | Lin tid call ret | Ret tid call ret

fun events :: "tid \<Rightarrow> pc \<Rightarrow> (call \<times> ret) option \<Rightarrow> event list" where
  "events t (Finished c r) lin = [Ret t c r]"
| "events t pc (Some (c, r)) = [Lin t c r]"
| "events t pc None = []"

definition thread_step :: "cstate \<Rightarrow> tid \<Rightarrow> (cstate \<times> event list) option" where
  "thread_step s t =
     (case lock_instr (sh s) (thr s t) of
        None \<Rightarrow> None
      | Some ins \<Rightarrow>
          (case exec_instr t ins (mu s) of
             None \<Rightarrow> None
           | Some mu' \<Rightarrow>
               (case effect (sh s) (thr s t) of
                  (d, pc', lin) \<Rightarrow>
                    Some (\<lparr>sh = d, mu = mu', thr = (thr s)(t := pc')\<rparr>, events t (thr s t) lin))))"

definition initial :: "go_int \<Rightarrow> cstate" where
  "initial n = \<lparr>sh = \<lparr>count = n, maps = replicate (unat n) [], cells = []\<rparr>,
                mu = (\<lambda>_. \<lparr>readers = {}, writer = None\<rparr>), thr = (\<lambda>_. Idle)\<rparr>"

text \<open>An execution from \<open>s0\<close>, its events, and the state it leads to.\<close>

inductive exec :: "cstate \<Rightarrow> event list \<Rightarrow> cstate \<Rightarrow> bool" for s0 :: cstate where
  exec_start: "exec s0 [] s0"
| exec_call: "exec s0 tr s \<Longrightarrow> thr s t = Idle \<Longrightarrow> exec s0 (tr @ [Inv t c]) (s\<lparr>thr := (thr s)(t := enter c)\<rparr>)"
| exec_step: "exec s0 tr s \<Longrightarrow> thread_step s t = Some (s', ev) \<Longrightarrow> exec s0 (tr @ ev) s'"

section \<open>Who holds which lock\<close>

text \<open>The lock a goroutine holds or, as a writer, has announced; \<open>True\<close> for a writer. Never two at once.\<close>

fun lock_of :: "shared \<Rightarrow> pc \<Rightarrow> (lock_id \<times> bool) option" where
  "lock_of d (Get_lookup key) = Some (PLock (part_of d key), False)"
| "lock_of d (Get_runlock key e) = Some (PLock (part_of d key), False)"
| "lock_of d (Get_value key a) = Some (ELock a, False)"
| "lock_of d (Get_version key a v) = Some (ELock a, False)"
| "lock_of d (Get_entry_runlock key a snap) = Some (ELock a, False)"
| "lock_of d (Write_lookup opn) = Some (PLock (part_of d (Key opn)), False)"
| "lock_of d (Write_runlock opn e) = Some (PLock (part_of d (Key opn)), False)"
| "lock_of d (Write_wait opn a) = Some (ELock a, True)"
| "lock_of d (Write_guard opn a) = Some (ELock a, True)"
| "lock_of d (Write_value opn a) = Some (ELock a, True)"
| "lock_of d (Write_version opn a) = Some (ELock a, True)"
| "lock_of d (Write_snapshot opn a) = Some (ELock a, True)"
| "lock_of d (Write_unlock opn a r) = Some (ELock a, True)"
| "lock_of d (Create_wait opn) = Some (PLock (part_of d (Key opn)), True)"
| "lock_of d (Create_check opn) = Some (PLock (part_of d (Key opn)), True)"
| "lock_of d (Create_insert opn) = Some (PLock (part_of d (Key opn)), True)"
| "lock_of d (Create_snapshot opn a) = Some (PLock (part_of d (Key opn)), True)"
| "lock_of d (Create_unlock opn r) = Some (PLock (part_of d (Key opn)), True)"
| "lock_of d (Keys_copy i ks) = Some (PLock i, False)"
| "lock_of d (Keys_runlock i ks) = Some (PLock i, False)"
| "lock_of d pc = None"

fun granted :: "pc \<Rightarrow> bool" where
  "granted (Write_wait opn a) = False"
| "granted (Create_wait opn) = False"
| "granted pc = True"

text \<open>How a lock instruction changes what its goroutine holds.\<close>

fun flow :: "instr \<Rightarrow> (lock_id \<times> bool) option \<times> bool \<Rightarrow> (lock_id \<times> bool) option \<times> bool \<Rightarrow> bool" where
  "flow (RLock l) (h, g) (h', g') \<longleftrightarrow> h = None \<and> h' = Some (l, False)"
| "flow (RUnlock l) (h, g) (h', g') \<longleftrightarrow> h = Some (l, False) \<and> h' = None"
| "flow (Announce l) (h, g) (h', g') \<longleftrightarrow> h = None \<and> h' = Some (l, True) \<and> \<not> g'"
| "flow (Await l) (h, g) (h', g') \<longleftrightarrow> h = Some (l, True) \<and> h' = Some (l, True)"
| "flow (Unlock l) (h, g) (h', g') \<longleftrightarrow> h = Some (l, True) \<and> h' = None"
| "flow Local (h, g) (h', g') \<longleftrightarrow> h = h' \<and> (h \<noteq> None \<longrightarrow> g = g')"

text \<open>The locks agree with what the goroutines hold.\<close>

definition consistent :: "(lock_id \<Rightarrow> RWMutex) \<Rightarrow> (tid \<Rightarrow> (lock_id \<times> bool) option) \<Rightarrow> (tid \<Rightarrow> bool) \<Rightarrow> bool" where
  "consistent m h g \<longleftrightarrow>
     (\<forall>l t. (t \<in> readers (m l) \<longleftrightarrow> h t = Some (l, False)) \<and> (writer (m l) = Some t \<longleftrightarrow> h t = Some (l, True)) \<and>
            (h t = Some (l, True) \<and> g t \<longrightarrow> readers (m l) = {}))"

lemma consistentD:
  assumes "consistent m h g"
  shows "t \<in> readers (m l) \<longleftrightarrow> h t = Some (l, False)" "writer (m l) = Some t \<longleftrightarrow> h t = Some (l, True)"
    "h t = Some (l, True) \<Longrightarrow> g t \<Longrightarrow> readers (m l) = {}"
  using assms by (simp_all add: consistent_def)

lemma consistent_exec_instr:
  assumes c: "consistent m h g" and e: "exec_instr t ins m = Some m'" and f: "flow ins (h t, g t) (x, y)"
  shows "consistent m' (h(t := x)) (g(t := y))"
proof (cases ins)
  case (Unlock l)
  then have "h t = Some (l, True)" using f by simp
  then have "h u \<noteq> Some (l, True)" if "u \<noteq> t" for u
    using that consistentD(2)[OF c, of l] by (metis option.inject)
  with Unlock show ?thesis using e f consistentD[OF c] unfolding consistent_def by (auto split: if_splits)
qed (use e f consistentD[OF c] in \<open>auto simp: consistent_def split: if_splits\<close>)

lemma effect_sizes:
  assumes "effect d pc = (d', pc', lin)"
  shows "count d' = count d" "length (maps d') = length (maps d)"
  using assms by (cases pc; auto simp: Let_def split: sum.splits if_splits)+

lemma lock_of_count: "count d' = count d \<Longrightarrow> lock_of d' pc = lock_of d pc"
  by (cases pc) (simp_all add: part_of_def)

lemma effect_flow:
  assumes "lock_instr d pc = Some ins" "effect d pc = (d', pc', lin)"
  shows "flow ins (lock_of d pc, granted pc) (lock_of d pc', granted pc')"
  using assms by (cases pc) (auto simp: Let_def split: sum.splits if_splits option.splits)

section \<open>The memory and the abstract map\<close>

text \<open>The key a goroutine works on and the pointer it has for it.\<close>

fun addr_of :: "pc \<Rightarrow> (go_string \<times> addr) option" where
  "addr_of (Get_runlock key e) = map_option (Pair key) e"
| "addr_of (Get_entry_rlock key a) = Some (key, a)"
| "addr_of (Get_value key a) = Some (key, a)"
| "addr_of (Get_version key a v) = Some (key, a)"
| "addr_of (Get_entry_runlock key a snap) = Some (key, a)"
| "addr_of (Write_runlock opn e) = map_option (Pair (Key opn)) e"
| "addr_of (Write_lock opn a) = Some (Key opn, a)"
| "addr_of (Write_wait opn a) = Some (Key opn, a)"
| "addr_of (Write_guard opn a) = Some (Key opn, a)"
| "addr_of (Write_value opn a) = Some (Key opn, a)"
| "addr_of (Write_version opn a) = Some (Key opn, a)"
| "addr_of (Write_snapshot opn a) = Some (Key opn, a)"
| "addr_of (Write_unlock opn a r) = Some (Key opn, a)"
| "addr_of (Create_snapshot opn a) = Some (Key opn, a)"
| "addr_of pc = None"

text \<open>The operation a goroutine has checked for conflicting guards.\<close>

fun op_of :: "pc \<Rightarrow> WriteOp option" where
  "op_of (Write_rlock opn) = Some opn"
| "op_of (Write_lookup opn) = Some opn"
| "op_of (Write_runlock opn e) = Some opn"
| "op_of (Write_lock opn a) = Some opn"
| "op_of (Write_wait opn a) = Some opn"
| "op_of (Write_guard opn a) = Some opn"
| "op_of (Write_value opn a) = Some opn"
| "op_of (Write_version opn a) = Some opn"
| "op_of (Create_lock opn) = Some opn"
| "op_of (Create_wait opn) = Some opn"
| "op_of (Create_check opn) = Some opn"
| "op_of (Create_insert opn) = Some opn"
| "op_of (Create_unlock opn None) = Some opn"
| "op_of pc = None"

text \<open>
  What holds at a statement. A goroutine that has stored the new value and not yet the new version
  is the only place where memory is ahead of the abstract map \<open>m\<close>.
\<close>

fun at_stmt :: "shared \<Rightarrow> kv \<Rightarrow> pc \<Rightarrow> bool" where
  "at_stmt d m (Get_version key a v) \<longleftrightarrow> v = e_value (cells d ! a)"
| "at_stmt d m (Write_value opn a) \<longleftrightarrow> \<not> isl (write_existing opn (cells d ! a))"
| "at_stmt d m (Write_version opn a) \<longleftrightarrow>
     (case m (Key opn) of None \<Rightarrow> False
      | Some e \<Rightarrow> guard_ok opn (Some e) \<and> cells d ! a = \<lparr>e_value = compute (Value e) opn, e_version = Version e\<rparr>)"
| "at_stmt d m (Create_insert opn) \<longleftrightarrow> lookup d (Key opn) = None \<and> IfVersion opn = None"
| "at_stmt d m (Create_unlock opn r) \<longleftrightarrow> (r = None \<longrightarrow> lookup d (Key opn) \<noteq> None)"
| "at_stmt d m (Keys_copy i ks) \<longleftrightarrow> i < length (maps d)"
| "at_stmt d m (Keys_runlock i ks) \<longleftrightarrow> i < length (maps d)"
| "at_stmt d m Panicked \<longleftrightarrow> False"
| "at_stmt d m pc \<longleftrightarrow> True"

definition pc_ok :: "shared \<Rightarrow> kv \<Rightarrow> pc \<Rightarrow> bool" where
  "pc_ok d m pc \<longleftrightarrow> (\<forall>k a. addr_of pc = Some (k, a) \<longrightarrow> lookup d k = Some a) \<and>
     (\<forall>opn. op_of pc = Some opn \<longrightarrow> \<not> (IfAbsent opn \<and> IfVersion opn \<noteq> None)) \<and> at_stmt d m pc"

text \<open>The memory holds what \<open>m\<close> says, but for the entries \<open>W\<close> that are being written.\<close>

definition maps_ok :: "shared \<Rightarrow> bool" where
  "maps_ok d \<longleftrightarrow> ValidPartitionCount (count d) \<and> length (maps d) = unat (count d) \<and>
     (\<forall>i < length (maps d). distinct (map fst (maps d ! i)) \<and> (\<forall>k \<in> fst ` set (maps d ! i). part_of d k = i))"

definition mem_ok :: "shared \<Rightarrow> kv \<Rightarrow> addr set \<Rightarrow> bool" where
  "mem_ok d m W \<longleftrightarrow> maps_ok d \<and>
     (\<forall>k a. lookup d k = Some a \<longrightarrow> a < length (cells d) \<and> (\<forall>k'. lookup d k' = Some a \<longrightarrow> k' = k) \<and>
        (a \<notin> W \<longrightarrow> m k = Some (snapshot (cells d ! a)))) \<and>
     (\<forall>k. lookup d k = None \<longleftrightarrow> m k = None)"

definition mid :: "(tid \<Rightarrow> pc) \<Rightarrow> addr set" where
  "mid T = {a. \<exists>t opn. T t = Write_version opn a}"

text \<open>A new entry is known to its creator only, until the partition's lock is released.\<close>

definition fresh :: "(tid \<Rightarrow> pc) \<Rightarrow> bool" where
  "fresh T \<longleftrightarrow> (\<forall>t opn a u k. T t = Create_snapshot opn a \<longrightarrow> u \<noteq> t \<longrightarrow> addr_of (T u) \<noteq> Some (k, a))"

definition locks_ok :: "cstate \<Rightarrow> bool" where
  "locks_ok s \<longleftrightarrow> consistent (mu s) (\<lambda>t. lock_of (sh s) (thr s t)) (\<lambda>t. granted (thr s t))"

definition inv :: "cstate \<Rightarrow> kv \<Rightarrow> bool" where
  "inv s m \<longleftrightarrow> locks_ok s \<and> mem_ok (sh s) m (mid (thr s)) \<and> (\<forall>t. pc_ok (sh s) m (thr s t)) \<and> fresh (thr s)"

section \<open>Every statement keeps the invariant\<close>

lemma exclusion:
  assumes "locks_ok s" "lock_of (sh s) (thr s t) = Some (l, True)" "granted (thr s t)" "u \<noteq> t"
  shows "lock_of (sh s) (thr s u) \<noteq> Some (l, b)"
proof
  assume u: "lock_of (sh s) (thr s u) = Some (l, b)"
  note c = assms(1)[unfolded locks_ok_def]
  show False
  proof (cases b)
    case True
    then have "writer (mu s l) = Some u" "writer (mu s l) = Some t" using u assms(2) consistentD(2)[OF c] by simp_all
    then show False using assms(4) by simp
  next
    case False
    then have "u \<in> readers (mu s l)" using u consistentD(1)[OF c] by simp
    then show False using consistentD(3)[OF c assms(2,3)] by simp
  qed
qed

lemma exclusion_any:
  assumes "locks_ok s" "lock_of (sh s) (thr s t) = Some (l, True)" "granted (thr s t)" "u \<noteq> t"
  shows "map_option fst (lock_of (sh s) (thr s u)) \<noteq> Some l"
  using exclusion[OF assms] by (metis map_option_eq_Some prod.collapse)

lemma locks_ok_step:
  assumes "locks_ok s" "thread_step s t = Some (s', ev)"
  shows "locks_ok s'"
proof -
  obtain ins d pc' lin mu' where i: "lock_instr (sh s) (thr s t) = Some ins" "exec_instr t ins (mu s) = Some mu'"
    "effect (sh s) (thr s t) = (d, pc', lin)" "s' = \<lparr>sh = d, mu = mu', thr = (thr s)(t := pc')\<rparr>"
    using assms(2) by (auto simp: thread_step_def split: option.splits prod.splits)
  have "(\<lambda>u. lock_of d (((thr s)(t := pc')) u)) = (\<lambda>u. lock_of (sh s) (thr s u))(t := lock_of (sh s) pc')"
    using lock_of_count[OF effect_sizes(1)[OF i(3)]] by auto
  moreover have "(\<lambda>u. granted (((thr s)(t := pc')) u)) = (\<lambda>u. granted (thr s u))(t := granted pc')" by auto
  ultimately show ?thesis
    using consistent_exec_instr[OF assms(1)[unfolded locks_ok_def] i(2) effect_flow[OF i(1,3)]] i(4)
    by (simp add: locks_ok_def)
qed

text \<open>What a call does to the abstract map. A listing takes effect at no single moment.\<close>

fun spec_call :: "kv \<Rightarrow> call \<Rightarrow> (kv \<times> ret) option" where
  "spec_call m (GetCall key) = Some (m, GetRet (m key))"
| "spec_call m (WriteCall opn) = Some (fst (spec_write m opn), WriteRet (snd (spec_write m opn)))"
| "spec_call m KeysCall = None"

definition lin_ok :: "kv \<Rightarrow> (call \<times> ret) option \<Rightarrow> kv \<Rightarrow> bool" where
  "lin_ok m lin m' \<longleftrightarrow> (case lin of None \<Rightarrow> m' = m | Some (c, r) \<Rightarrow> spec_call m c = Some (m', r))"

text \<open>The three statements that write memory.\<close>

fun stores :: "pc \<Rightarrow> bool" where
  "stores (Write_value opn a) = True"
| "stores (Write_version opn a) = True"
| "stores (Create_insert opn) = True"
| "stores pc = False"

lemma quiet_effect:
  assumes "effect d pc = (d', pc', lin)" "\<not> stores pc"
  shows "d' = d" "pc' \<noteq> Write_version opn a" "pc' \<noteq> Create_snapshot opn a"
  using assms by (cases pc; auto simp: Let_def split: sum.splits if_splits option.splits)+

lemma quiet_addr:
  assumes "effect d pc = (d', pc', lin)" "\<not> stores pc" "addr_of pc' = Some (k, a)"
  shows "addr_of pc = Some (k, a) \<or> lookup d k = Some a \<and> lock_of d pc = Some (PLock (part_of d k), False)"
  using assms by (cases pc) (auto simp: Let_def split: sum.splits if_splits option.splits)

lemma quiet_op:
  assumes "effect d pc = (d', pc', lin)" "\<not> stores pc" "op_of pc' = Some opn"
  shows "op_of pc = Some opn \<or> \<not> (IfAbsent opn \<and> IfVersion opn \<noteq> None)"
  using assms by (cases pc) (auto simp: Let_def split: sum.splits if_splits option.splits)

lemma mem_okD:
  assumes "mem_ok d m W"
  shows "part_of d k < length (maps d)" "lookup d k = None \<longleftrightarrow> m k = None"
    "lookup d k = Some a \<Longrightarrow> a < length (cells d)" "lookup d k = Some a \<Longrightarrow> lookup d k' = Some a \<Longrightarrow> k' = k"
    "lookup d k = Some a \<Longrightarrow> a \<notin> W \<Longrightarrow> m k = Some (snapshot (cells d ! a))"
  using assms Partition_less[of "count d" k] by (auto simp: mem_ok_def maps_ok_def part_of_def)

lemma maps_ok_cells [simp]: "maps_ok (d\<lparr>cells := c\<rparr>) \<longleftrightarrow> maps_ok d"
  by (simp add: maps_ok_def part_of_def)

lemma quiet_stmt:
  assumes "effect d pc = (d', pc', lin)" "\<not> stores pc" "mem_ok d m W" "at_stmt d m pc"
  shows "at_stmt d m pc'"
  using assms mem_okD(1)[OF assms(3)]
  by (cases pc) (auto simp: Let_def write_new_def split: sum.splits if_splits option.splits)

lemma quiet_lin:
  assumes "effect d pc = (d', pc', lin)" "\<not> stores pc" "mem_ok d m W" "pc_ok d m pc"
    "\<And>k a b. addr_of pc = Some (k, a) \<Longrightarrow> lock_of d pc = Some (ELock a, b) \<Longrightarrow> granted pc \<Longrightarrow> m k = Some (snapshot (cells d ! a))"
  shows "lin_ok m lin m"
proof (cases pc)
  case (Get_lookup key)
  then show ?thesis using assms(1) mem_okD(2)[OF assms(3), of key] by (auto simp: lin_ok_def)
next
  case (Get_version key a v)
  then show ?thesis using assms(1,4) assms(5)[of key a False] by (auto simp: lin_ok_def pc_ok_def snapshot_def Let_def)
next
  case (Write_partition opn)
  then show ?thesis using assms(1) by (auto simp: lin_ok_def spec_write_def split: if_splits)
next
  case (Write_guard opn a)
  then have m: "m (Key opn) = Some (snapshot (cells d ! a))" using assms(5)[of "Key opn" a True] by simp
  have "\<not> (IfAbsent opn \<and> IfVersion opn \<noteq> None)" using assms(4) Write_guard by (auto simp: pc_ok_def)
  from write_existing_spec[where m = m, OF this m] show ?thesis
    using assms(1) Write_guard by (auto simp: lin_ok_def split: sum.splits)
next
  case (Create_check opn)
  have "\<not> (IfAbsent opn \<and> IfVersion opn \<noteq> None)" using assms(4) Create_check by (auto simp: pc_ok_def)
  then show ?thesis using assms(1) Create_check write_new_spec[of opn m] mem_okD(2)[OF assms(3), of "Key opn"]
    by (auto simp: lin_ok_def split: sum.splits if_splits)
qed (use assms(1,2) in \<open>auto simp: lin_ok_def Let_def split: sum.splits if_splits option.splits\<close>)

lemma invD:
  assumes "inv s m"
  shows "locks_ok s" "mem_ok (sh s) m (mid (thr s))" "pc_ok (sh s) m (thr s t)" "fresh (thr s)"
  using assms by (simp_all add: inv_def)

lemma not_mid:
  assumes "locks_ok s" "lock_of (sh s) (thr s t) = Some (ELock a, b)" "\<And>opn. thr s t \<noteq> Write_version opn a"
  shows "a \<notin> mid (thr s)"
proof
  assume "a \<in> mid (thr s)"
  then obtain u opn where u: "thr s u = Write_version opn a" by (auto simp: mid_def)
  then have "u \<noteq> t" using assms(3) by metis
  then show False using exclusion[OF assms(1), of u "ELock a" t b] assms(2) u by auto
qed

lemma inv_quiet:
  assumes "inv s m" "effect (sh s) (thr s t) = (d, pc', lin)" "\<not> stores (thr s t)"
  shows "lin_ok m lin m \<and> mem_ok d m (mid ((thr s)(t := pc'))) \<and>
     (\<forall>u. pc_ok d m (((thr s)(t := pc')) u)) \<and> fresh ((thr s)(t := pc'))"
proof -
  note I = invD[OF assms(1)] and q = quiet_effect[OF assms(2,3)]
  have nv: "thr s t \<noteq> Write_version opn a" for opn a using assms(3) by auto
  then have mid: "mid ((thr s)(t := pc')) = mid (thr s)"
    using q(2) by (simp add: mid_def fun_upd_def) metis
  have addr: "lookup (sh s) k = Some a" if "addr_of pc' = Some (k, a)" for k a
    using quiet_addr[OF assms(2,3) that] I(3)[of t] by (auto simp: pc_ok_def)
  have ok: "pc_ok (sh s) m pc'"
    using addr quiet_op[OF assms(2,3)] quiet_stmt[OF assms(2,3) I(2)] I(3)[of t] by (auto simp: pc_ok_def)
  have "m k = Some (snapshot (cells (sh s) ! a))"
    if a: "addr_of (thr s t) = Some (k, a)" "lock_of (sh s) (thr s t) = Some (ELock a, b)" for k a b
  proof -
    have "a \<notin> mid (thr s)" by (rule not_mid[OF I(1) a(2) nv])
    then show ?thesis using mem_okD(5)[OF I(2), of k a] I(3)[of t] a(1) by (simp add: pc_ok_def)
  qed
  then have lin: "lin_ok m lin m" using quiet_lin[OF assms(2,3) I(2,3)] by blast
  have own: "addr_of pc' \<noteq> Some (k, a)" if u: "thr s u = Create_snapshot opn a" "u \<noteq> t" for u opn a k
  proof
    assume k: "addr_of pc' = Some (k, a)"
    have "lookup (sh s) (Key opn) = Some a" using I(3)[of u] u(1) by (simp add: pc_ok_def)
    then have "k = Key opn" using mem_okD(4)[OF I(2)] addr[OF k] by blast
    moreover have "addr_of (thr s t) \<noteq> Some (k, a)" using I(4) u by (auto simp: fresh_def)
    ultimately show False
      using quiet_addr[OF assms(2,3) k] exclusion[OF I(1), of u "PLock (part_of (sh s) k)" t False] u by auto
  qed
  have "fresh ((thr s)(t := pc'))"
    using I(4) own q(3) unfolding fresh_def by (metis fun_upd_apply)
  with ok lin mid I(2,3) q(1) show ?thesis by (simp add: fun_upd_def)
qed

lemma pc_ok_mono:
  assumes "pc_ok d m pc" "length (maps d') = length (maps d)" "\<And>k a. lookup d k = Some a \<Longrightarrow> lookup d' k = Some a"
    "\<And>k a. map_option fst (lock_of d pc) = Some (ELock a) \<Longrightarrow> addr_of pc = Some (k, a) \<Longrightarrow> cells d' ! a = cells d ! a"
    "\<And>opn a. pc = Write_version opn a \<Longrightarrow> m' (Key opn) = m (Key opn)"
    "\<And>opn. pc = Create_insert opn \<Longrightarrow> lookup d' (Key opn) = None"
  shows "pc_ok d' m' pc"
proof -
  have "at_stmt d m pc" using assms(1) by (simp add: pc_ok_def)
  then have "at_stmt d' m' pc" using assms(2-6) by (cases pc) (auto split: option.splits)
  then show ?thesis using assms(1,3) by (simp add: pc_ok_def)
qed

lemma write_existing_guard:
  "\<not> isl (write_existing opn e) \<Longrightarrow> guard_ok opn (Some (snapshot e))"
  by (auto simp: write_existing_def guard_ok_def version_of_def snapshot_def split: if_splits option.splits)

lemma lookup_cells [simp]: "lookup (d\<lparr>cells := c\<rparr>) k = lookup d k" "part_of (d\<lparr>cells := c\<rparr>) k = part_of d k"
  by (simp_all add: lookup_def part_of_def)

lemma mid_upd: "mid (T(t := pc)) = {a. \<exists>opn. pc = Write_version opn a} \<union> {a. \<exists>u opn. u \<noteq> t \<and> T u = Write_version opn a}"
  by (auto simp: mid_def)

lemma fresh_upd:
  assumes "fresh T" "\<And>opn a. pc \<noteq> Create_snapshot opn a" "addr_of (T t) = addr_of pc"
  shows "fresh (T(t := pc))"
  using assms by (auto simp: fresh_def)

lemma inv_write_value:
  assumes "inv s m" "thr s t = Write_value opn a" "effect (sh s) (thr s t) = (d, pc', lin)"
  shows "lin_ok m lin m \<and> mem_ok d m (mid ((thr s)(t := pc'))) \<and>
     (\<forall>u. pc_ok d m (((thr s)(t := pc')) u)) \<and> fresh ((thr s)(t := pc'))"
proof -
  let ?d = "sh s" let ?c = "cells ?d ! a"
  note I = invD[OF assms(1)]
  have e: "d = ?d\<lparr>cells := (cells ?d)[a := ?c\<lparr>e_value := compute (e_value ?c) opn\<rparr>]\<rparr>" "pc' = Write_version opn a" "lin = None"
    using assms(2,3) by auto
  have a: "lookup ?d (Key opn) = Some a" "\<not> isl (write_existing opn ?c)" using I(3)[of t] assms(2) by (auto simp: pc_ok_def)
  have nm: "a \<notin> mid (thr s)" by (rule not_mid[OF I(1), of t]) (simp_all add: assms(2))
  have len: "a < length (cells ?d)" using mem_okD(3)[OF I(2) a(1)] .
  have m: "m (Key opn) = Some (snapshot ?c)" using mem_okD(5)[OF I(2) a(1) nm] .
  have mid: "mid ((thr s)(t := pc')) = insert a (mid (thr s))"
    unfolding mid_upd e(2) using assms(2) by (auto simp: mid_def) (metis pc.distinct)
  have own: "pc_ok d m pc'"
    using a m len e write_existing_guard[OF a(2)] I(3)[of t] assms(2) by (simp add: pc_ok_def snapshot_def)
  have other: "pc_ok d m (thr s u)" if "u \<noteq> t" for u
  proof (rule pc_ok_mono[OF I(3)[of u]])
    fix k a' assume "map_option fst (lock_of ?d (thr s u)) = Some (ELock a')"
    then show "cells d ! a' = cells ?d ! a'"
      using exclusion_any[OF I(1), of t "ELock a" u] that assms(2) e(1) by (cases "a' = a") simp_all
  next
    fix w assume "thr s u = Create_insert w"
    then show "lookup d (Key w) = None" using I(3)[of u] e(1) by (simp add: pc_ok_def)
  qed (simp_all add: e(1))
  have "mem_ok d m (insert a (mid (thr s)))"
    using I(2) e(1) by (auto simp: mem_ok_def nth_list_update)
  moreover have "fresh ((thr s)(t := pc'))" by (rule fresh_upd[OF I(4)]) (simp_all add: e(2) assms(2))
  ultimately show ?thesis using own other mid e(3) by (simp add: lin_ok_def)
qed

lemma mem_ok_publish:
  assumes "mem_ok d m M" "lookup d k = Some a" "M \<subseteq> insert a M'" "d' = d\<lparr>cells := (cells d)[a := e]\<rparr>"
  shows "mem_ok d' (m(k \<mapsto> snapshot e)) M'"
proof -
  have len: "a < length (cells d)" using mem_okD(3)[OF assms(1,2)] .
  have "(m(k \<mapsto> snapshot e)) x = Some (snapshot (cells d' ! b))" if b: "lookup d x = Some b" "b \<notin> M'" for x b
  proof (cases "b = a")
    case True
    then have "x = k" using mem_okD(4)[OF assms(1,2)] b(1) by simp
    then show ?thesis using True assms(4) len by simp
  next
    case False
    then have "x \<noteq> k" "b \<notin> M" using assms(2,3) b by auto
    then show ?thesis using mem_okD(5)[OF assms(1) b(1)] False assms(4) by simp
  qed
  moreover have "lookup d x = None \<longleftrightarrow> (m(k \<mapsto> snapshot e)) x = None" for x using mem_okD(2)[OF assms(1), of x] assms(2) by auto
  ultimately show ?thesis using assms(1) by (auto simp: mem_ok_def assms(4))
qed

lemma inv_write_version:
  assumes "inv s m" "thr s t = Write_version opn a" "effect (sh s) (thr s t) = (d, pc', lin)"
  shows "\<exists>m'. lin_ok m lin m' \<and> mem_ok d m' (mid ((thr s)(t := pc'))) \<and>
     (\<forall>u. pc_ok d m' (((thr s)(t := pc')) u)) \<and> fresh ((thr s)(t := pc'))"
proof -
  let ?d = "sh s" let ?c = "cells ?d ! a" let ?e = "?c\<lparr>e_version := e_version ?c + 1\<rparr>"
  let ?m = "m(Key opn \<mapsto> snapshot ?e)"
  note I = invD[OF assms(1)]
  have e: "d = ?d\<lparr>cells := (cells ?d)[a := ?e]\<rparr>" "pc' = Write_snapshot opn a"
    "lin = Some (WriteCall opn, WriteRet (Inr (snapshot ?e)))" using assms(2,3) by (auto simp: Let_def)
  have a: "lookup ?d (Key opn) = Some a" and free: "\<not> (IfAbsent opn \<and> IfVersion opn \<noteq> None)"
    and "at_stmt ?d m (thr s t)" using I(3)[of t] assms(2) by (auto simp: pc_ok_def)
  then obtain e0 where e0: "m (Key opn) = Some e0" "guard_ok opn (Some e0)" "?c = \<lparr>e_value = compute (Value e0) opn, e_version = Version e0\<rparr>"
    using assms(2) by (auto split: option.splits)
  have "snapshot ?e = apply_write opn (Some e0)"
    using compute_apply[of "\<lparr>e_value = Value e0, e_version = Version e0\<rparr>" opn] e0(3) by (cases e0) (simp add: snapshot_def)
  then have lin: "lin_ok m lin ?m" using e0(1,2) free e(3) by (simp add: lin_ok_def spec_write_def)
  have held: "lock_of ?d (thr s t) = Some (ELock a, True)" "granted (thr s t)" using assms(2) by simp_all
  have mid: "mid (thr s) \<subseteq> insert a (mid ((thr s)(t := pc')))" unfolding mid_upd e(2) using assms(2) by (auto simp: mid_def) (metis pc.inject)
  have other: "pc_ok d ?m (thr s u)" if "u \<noteq> t" for u
  proof (rule pc_ok_mono[OF I(3)[of u]])
    fix k a' assume "map_option fst (lock_of ?d (thr s u)) = Some (ELock a')"
    then show "cells d ! a' = cells ?d ! a'"
      using exclusion_any[OF I(1) held that] e(1) by (cases "a' = a") simp_all
  next
    fix w a' assume w: "thr s u = Write_version w a'"
    then have "a' \<noteq> a" using exclusion_any[OF I(1) held that] by auto
    moreover have "lookup ?d (Key w) = Some a'" using I(3)[of u] w by (simp add: pc_ok_def)
    ultimately show "?m (Key w) = m (Key w)" using a by auto
  next
    fix w assume "thr s u = Create_insert w"
    then show "lookup d (Key w) = None" using I(3)[of u] e(1) by (simp add: pc_ok_def)
  qed (simp_all add: e(1))
  have own: "pc_ok d ?m pc'" using a e by (simp add: pc_ok_def)
  have "mem_ok d ?m (mid ((thr s)(t := pc')))" by (rule mem_ok_publish[OF I(2) a mid e(1)])
  moreover have "fresh ((thr s)(t := pc'))" by (rule fresh_upd[OF I(4)]) (simp_all add: e(2) assms(2))
  ultimately show ?thesis using own other lin by (intro exI[of _ ?m]) simp
qed

lemma maps_ok_insert:
  assumes "maps_ok d" "part_of d k < length (maps d)"
    "d' = d\<lparr>maps := (maps d)[part_of d k := AList.update k a (maps d ! part_of d k)], cells := c\<rparr>"
  shows "maps_ok d'"
proof -
  have "part_of d' x = part_of d x" for x using assms(3) by (simp add: part_of_def)
  moreover have "fst ` set (maps d' ! j) = (if j = part_of d k then insert k (fst ` set (maps d ! j)) else fst ` set (maps d ! j))" for j
    using assms(2,3) by (simp add: nth_list_update dom_update del: image_iff)
  moreover have "distinct (map fst (maps d' ! j))" if "j < length (maps d)" for j
    using that assms by (auto simp: maps_ok_def nth_list_update distinct_update)
  ultimately show ?thesis using assms by (simp add: maps_ok_def)
qed

lemma lookup_insert:
  assumes "part_of d k < length (maps d)"
    "d' = d\<lparr>maps := (maps d)[part_of d k := AList.update k a (maps d ! part_of d k)], cells := c\<rparr>"
  shows "lookup d' x = (if x = k then Some a else lookup d x)"
proof -
  have "part_of d' x = part_of d x" using assms(2) by (simp add: part_of_def)
  then show ?thesis using assms by (simp add: lookup_def nth_list_update update_conv')
qed

lemma mem_ok_insert:
  assumes "mem_ok d m M"
    "d' = d\<lparr>maps := (maps d)[part_of d k := AList.update k (length (cells d)) (maps d ! part_of d k)], cells := cells d @ [e]\<rparr>"
  shows "mem_ok d' (m(k \<mapsto> snapshot e)) M"
  unfolding mem_ok_def
proof (intro conjI allI impI)
  note i = mem_okD(1)[OF assms(1), of k]
  note lk = lookup_insert[OF i assms(2)]
  have old: "b < length (cells d)" if "lookup d x = Some b" for x b using mem_okD(3)[OF assms(1) that] .
  have nth: "cells d' ! b = cells d ! b" if "b < length (cells d)" for b using assms(2) that by (simp add: nth_append)
  show "maps_ok d'" by (rule maps_ok_insert[OF _ i assms(2)]) (use assms(1) in \<open>simp add: mem_ok_def\<close>)
  show "lookup d' x = None \<longleftrightarrow> (m(k \<mapsto> snapshot e)) x = None" for x using lk[of x] mem_okD(2)[OF assms(1), of x] by auto
  fix x b assume x: "lookup d' x = Some b"
  show "b < length (cells d')" using x lk[of x] old[of x b] assms(2) by (auto split: if_splits)
  show "x' = x" if "lookup d' x' = Some b" for x'
    using x that lk[of x] lk[of x'] old[of x b] old[of x' b] mem_okD(4)[OF assms(1), of x b x'] by (auto split: if_splits)
  show "(m(k \<mapsto> snapshot e)) x = Some (snapshot (cells d' ! b))" if "b \<notin> M"
    using x that lk[of x] old[of x b] nth[of b] mem_okD(5)[OF assms(1), of x b] assms(2) by (auto split: if_splits)
qed

lemma inv_create:
  assumes "inv s m" "thr s t = Create_insert opn" "effect (sh s) (thr s t) = (d, pc', lin)"
  shows "\<exists>m'. lin_ok m lin m' \<and> mem_ok d m' (mid ((thr s)(t := pc'))) \<and>
     (\<forall>u. pc_ok d m' (((thr s)(t := pc')) u)) \<and> fresh ((thr s)(t := pc'))"
proof -
  let ?d = "sh s" let ?k = "Key opn" let ?i = "part_of ?d ?k" let ?a = "length (cells ?d)"
  let ?e = "\<lparr>e_value = clone (Body opn), e_version = FirstVersion\<rparr>" let ?m = "m(?k \<mapsto> snapshot ?e)"
  note I = invD[OF assms(1)]
  have e: "d = ?d\<lparr>maps := (maps ?d)[?i := AList.update ?k ?a (maps ?d ! ?i)], cells := cells ?d @ [?e]\<rparr>"
    "pc' = Create_snapshot opn ?a" "lin = Some (WriteCall opn, WriteRet (Inr (snapshot ?e)))"
    using assms(2,3) by (auto simp: Let_def)
  have k: "lookup ?d ?k = None" "IfVersion opn = None" and free: "\<not> (IfAbsent opn \<and> IfVersion opn \<noteq> None)"
    using I(3)[of t] assms(2) by (auto simp: pc_ok_def)
  have mk: "m ?k = None" using k(1) mem_okD(2)[OF I(2)] by blast
  have lin: "lin_ok m lin ?m"
    using write_new_spec[where m = m, OF free mk] k(2) e(3) by (simp add: lin_ok_def write_new_def)
  have i: "?i < length (maps ?d)" using mem_okD(1)[OF I(2)] .
  note lk = lookup_insert[OF i e(1)]
  have old: "lookup ?d x = Some b \<Longrightarrow> b < ?a" for x b using mem_okD(3)[OF I(2)] .
  have nth: "b < ?a \<Longrightarrow> cells d ! b = cells ?d ! b" for b using e(1) by (simp add: nth_append)
  have mid: "mid ((thr s)(t := pc')) = mid (thr s)"
    unfolding mid_upd e(2) using assms(2) by (auto simp: mid_def) (metis pc.distinct)
  have other: "pc_ok d ?m (thr s u)" if "u \<noteq> t" for u
  proof (rule pc_ok_mono[OF I(3)[of u]])
    fix x b assume "lookup ?d x = Some b"
    then show "lookup d x = Some b" using lk[of x] k(1) by auto
  next
    fix x b assume "addr_of (thr s u) = Some (x, b)"
    then show "cells d ! b = cells ?d ! b" using I(3)[of u] old[of x b] nth[of b] by (simp add: pc_ok_def)
  next
    fix w b assume "thr s u = Write_version w b"
    then show "?m (Key w) = m (Key w)" using I(3)[of u] k(1) by (auto simp: pc_ok_def)
  next
    fix w assume w: "thr s u = Create_insert w"
    then have "part_of ?d (Key w) \<noteq> ?i" using exclusion_any[OF I(1), of t "PLock ?i" u] that assms(2) by auto
    then show "lookup d (Key w) = None" using lk[of "Key w"] I(3)[of u] w by (auto simp: pc_ok_def)
  qed (simp add: e(1))
  have own: "pc_ok d ?m pc'" using lk[of ?k] e(2) by (simp add: pc_ok_def)
  have "mem_ok d ?m (mid (thr s))" by (rule mem_ok_insert[OF I(2) e(1)])
  moreover have "fresh ((thr s)(t := pc'))"
  proof -
    have "b < ?a" if "addr_of (thr s u) = Some (x, b)" for u x b using I(3)[of u] that old[of x b] by (simp add: pc_ok_def)
    then have "addr_of (thr s u) \<noteq> Some (x, ?a)" "thr s u \<noteq> Create_snapshot w ?a" for u x w
      by (metis less_irrefl, metis addr_of.simps(14) less_irrefl)
    then show ?thesis using I(4) e(2) assms(2) by (auto simp: fresh_def)
  qed
  ultimately show ?thesis using own other lin mid by (intro exI[of _ ?m]) simp
qed

text \<open>A statement keeps the invariant, and the abstract map changes exactly as the call that takes effect there says.\<close>

lemma thread_stepD:
  assumes "thread_step s t = Some (s', ev)"
  obtains ins d pc' lin mu' where "lock_instr (sh s) (thr s t) = Some ins" "exec_instr t ins (mu s) = Some mu'"
    "effect (sh s) (thr s t) = (d, pc', lin)" "s' = \<lparr>sh = d, mu = mu', thr = (thr s)(t := pc')\<rparr>"
    "ev = events t (thr s t) lin"
  using assms that by (auto simp: thread_step_def split: option.splits prod.splits)

lemma inv_step:
  assumes "inv s m" "thread_step s t = Some (s', ev)"
  obtains d pc' lin m' where "effect (sh s) (thr s t) = (d, pc', lin)" "sh s' = d" "thr s' = (thr s)(t := pc')"
    "ev = events t (thr s t) lin" "lin_ok m lin m'" "inv s' m'"
proof -
  obtain d pc' lin mu' where e: "effect (sh s) (thr s t) = (d, pc', lin)"
    "s' = \<lparr>sh = d, mu = mu', thr = (thr s)(t := pc')\<rparr>" "ev = events t (thr s t) lin"
    by (rule thread_stepD[OF assms(2)])
  have "\<exists>m'. lin_ok m lin m' \<and> mem_ok d m' (mid ((thr s)(t := pc'))) \<and>
      (\<forall>u. pc_ok d m' (((thr s)(t := pc')) u)) \<and> fresh ((thr s)(t := pc'))"
  proof (cases "stores (thr s t)")
    case True
    then consider (v) opn a where "thr s t = Write_value opn a" | (n) opn a where "thr s t = Write_version opn a"
      | (c) opn where "thr s t = Create_insert opn" by (cases "thr s t") auto
    then show ?thesis
      by cases (use inv_write_value[OF assms(1) _ e(1)] inv_write_version[OF assms(1) _ e(1)] inv_create[OF assms(1) _ e(1)] in blast)+
  qed (use inv_quiet[OF assms(1) e(1)] in blast)
  then obtain m' where "lin_ok m lin m'" "mem_ok d m' (mid ((thr s)(t := pc')))"
      "\<forall>u. pc_ok d m' (((thr s)(t := pc')) u)" "fresh ((thr s)(t := pc'))" by blast
  then show thesis using that e locks_ok_step[OF invD(1)[OF assms(1)] assms(2)] by (simp add: inv_def)
qed

lemma inv_call:
  assumes "inv s m" "thr s t = Idle"
  shows "inv (s\<lparr>thr := (thr s)(t := enter c)\<rparr>) m"
proof -
  note I = invD[OF assms(1)]
  let ?T = "(thr s)(t := enter c)"
  have pc: "lock_of (sh s) (enter c) = None" "granted (enter c)" "addr_of (enter c) = None" "pc_ok (sh s) m (enter c)"
    "\<And>opn a. enter c \<noteq> Write_version opn a" "\<And>opn a. enter c \<noteq> Create_snapshot opn a"
    by (cases c; simp add: pc_ok_def)+
  have "(\<lambda>u. lock_of (sh s) (?T u)) = (\<lambda>u. lock_of (sh s) (thr s u))" "(\<lambda>u. granted (?T u)) = (\<lambda>u. granted (thr s u))"
    using pc(1,2) assms(2) by auto
  then have "locks_ok (s\<lparr>thr := ?T\<rparr>)" using I(1) by (simp add: locks_ok_def)
  moreover have "mid ?T = mid (thr s)"
    unfolding mid_upd using pc(5) assms(2) by (auto simp: mid_def) (metis pc.distinct)
  moreover have "fresh ?T" by (rule fresh_upd[OF I(4)]) (use pc(3,6) assms(2) in simp_all)
  ultimately show ?thesis using I(2,3) pc(4) by (simp add: inv_def)
qed

lemma inv_initial: "ValidPartitionCount n \<Longrightarrow> inv (initial n) Map.empty"
  using Partition_less[of n]
  by (auto simp: inv_def initial_def locks_ok_def consistent_def mem_ok_def maps_ok_def mid_def pc_ok_def fresh_def
      lookup_def part_of_def)

section \<open>Linearization\<close>

fun legal :: "kv \<Rightarrow> (call \<times> ret) list \<Rightarrow> kv option" where
  "legal m [] = Some m"
| "legal m ((c, r) # es) =
     (case spec_call m c of None \<Rightarrow> None | Some (m', r') \<Rightarrow> if r' = r then legal m' es else None)"

fun lins :: "event list \<Rightarrow> (call \<times> ret) list" where
  "lins [] = []"
| "lins (Lin t c r # es) = (c, r) # lins es"
| "lins (Inv t c # es) = lins es"
| "lins (Ret t c r # es) = lins es"

text \<open>
  What a goroutine's events may be: a call, the moment it takes effect, and its return with the
  same result, then the next call. A listing has no such moment.
\<close>

datatype phase = Quiet | Called call | Effected call ret | Wrong

fun phase_step :: "tid \<Rightarrow> phase \<Rightarrow> event \<Rightarrow> phase" where
  "phase_step t p (Inv u c) = (if u \<noteq> t then p else if p = Quiet then Called c else Wrong)"
| "phase_step t p (Lin u c r) = (if u \<noteq> t then p else if p = Called c then Effected c r else Wrong)"
| "phase_step t p (Ret u c r) =
     (if u \<noteq> t then p else if p = Effected c r \<or> c = KeysCall \<and> p = Called KeysCall then Quiet else Wrong)"

definition phase :: "tid \<Rightarrow> event list \<Rightarrow> phase" where
  "phase t tr = foldl (phase_step t) Quiet tr"

text \<open>The phase a goroutine is in, by its program counter.\<close>

fun pc_phase :: "shared \<Rightarrow> pc \<Rightarrow> phase" where
  "pc_phase d Idle = Quiet"
| "pc_phase d Panicked = Wrong"
| "pc_phase d (Get_runlock key e) = (if e = None then Effected (GetCall key) (GetRet None) else Called (GetCall key))"
| "pc_phase d (Get_entry_runlock key a snap) = Effected (GetCall key) (GetRet (Some snap))"
| "pc_phase d (Get_partition key) = Called (GetCall key)"
| "pc_phase d (Get_rlock key) = Called (GetCall key)"
| "pc_phase d (Get_lookup key) = Called (GetCall key)"
| "pc_phase d (Get_entry_rlock key a) = Called (GetCall key)"
| "pc_phase d (Get_value key a) = Called (GetCall key)"
| "pc_phase d (Get_version key a v) = Called (GetCall key)"
| "pc_phase d (Write_snapshot opn a) = Effected (WriteCall opn) (WriteRet (Inr (snapshot (cells d ! a))))"
| "pc_phase d (Write_unlock opn a r) = Effected (WriteCall opn) (WriteRet r)"
| "pc_phase d (Create_snapshot opn a) = Effected (WriteCall opn) (WriteRet (Inr (snapshot (cells d ! a))))"
| "pc_phase d (Create_unlock opn r) =
     (case r of None \<Rightarrow> Called (WriteCall opn) | Some res \<Rightarrow> Effected (WriteCall opn) (WriteRet res))"
| "pc_phase d (Write_partition opn) = Called (WriteCall opn)"
| "pc_phase d (Write_rlock opn) = Called (WriteCall opn)"
| "pc_phase d (Write_lookup opn) = Called (WriteCall opn)"
| "pc_phase d (Write_runlock opn e) = Called (WriteCall opn)"
| "pc_phase d (Write_lock opn a) = Called (WriteCall opn)"
| "pc_phase d (Write_wait opn a) = Called (WriteCall opn)"
| "pc_phase d (Write_guard opn a) = Called (WriteCall opn)"
| "pc_phase d (Write_value opn a) = Called (WriteCall opn)"
| "pc_phase d (Write_version opn a) = Called (WriteCall opn)"
| "pc_phase d (Create_lock opn) = Called (WriteCall opn)"
| "pc_phase d (Create_wait opn) = Called (WriteCall opn)"
| "pc_phase d (Create_check opn) = Called (WriteCall opn)"
| "pc_phase d (Create_insert opn) = Called (WriteCall opn)"
| "pc_phase d (Keys_rlock i ks) = Called KeysCall"
| "pc_phase d (Keys_copy i ks) = Called KeysCall"
| "pc_phase d (Keys_runlock i ks) = Called KeysCall"
| "pc_phase d (Finished c r) = (if c = KeysCall then Called KeysCall else Effected c r)"

lemma lins_append [simp]: "lins (tr @ tr') = lins tr @ lins tr'"
  by (induction tr rule: lins.induct) simp_all

lemma legal_append: "legal m (es @ es') = Option.bind (legal m es) (\<lambda>m'. legal m' es')"
  by (induction m es rule: legal.induct) (auto split: option.splits prod.splits)

lemma phase_snoc: "phase t (tr @ ev) = foldl (phase_step t) (phase t tr) ev"
  by (simp add: phase_def)

lemma events_other: "u \<noteq> t \<Longrightarrow> foldl (phase_step u) p (events t pc lin) = p"
  by (cases pc; cases lin) auto

lemma lins_events:
  assumes "effect d pc = (d', pc', lin)"
  shows "lins (events t pc lin) = (case lin of None \<Rightarrow> [] | Some cr \<Rightarrow> [cr])"
  using assms by (cases pc; cases lin) auto

lemma events_own:
  assumes "effect d pc = (d', pc', lin)" "lock_instr d pc = Some ins" "at_stmt d' m pc'"
    "\<And>opn a. pc = Write_version opn a \<Longrightarrow> a < length (cells d)"
  shows "foldl (phase_step t) (pc_phase d pc) (events t pc lin) = pc_phase d' pc'"
  using assms by (cases pc) (auto simp: Let_def split: sum.splits if_splits option.splits)

lemma cells_stable:
  assumes "effect d pc = (d', pc', lin)" "a < length (cells d)" "stores pc \<Longrightarrow> map_option snd (addr_of pc) \<noteq> Some a"
  shows "cells d' ! a = cells d ! a"
proof (cases "stores pc")
  case True
  then show ?thesis using assms by (cases pc) (auto simp: Let_def nth_append)
next
  case False
  then show ?thesis using quiet_effect(1)[OF assms(1)] by simp
qed

text \<open>The result a goroutine has still to return is not changed by the others.\<close>

lemma pc_phase_cong:
  "(\<And>opn a. pc = Write_snapshot opn a \<or> pc = Create_snapshot opn a \<Longrightarrow> cells d' ! a = cells d ! a) \<Longrightarrow>
   pc_phase d' pc = pc_phase d pc"
  by (cases pc) auto

lemma storing_lock: "stores pc \<Longrightarrow> addr_of pc = Some (k, a) \<Longrightarrow> lock_of d pc = Some (ELock a, True) \<and> granted pc"
  by (cases pc) auto

lemma phase_other:
  assumes "inv s m" "effect (sh s) (thr s t) = (d, pc', lin)" "u \<noteq> t"
  shows "pc_phase d (thr s u) = pc_phase (sh s) (thr s u)"
proof (rule pc_phase_cong)
  note I = invD[OF assms(1)]
  fix opn a assume u: "thr s u = Write_snapshot opn a \<or> thr s u = Create_snapshot opn a"
  then have "lookup (sh s) (Key opn) = Some a" using I(3)[of u] by (auto simp: pc_ok_def)
  moreover have "addr_of (thr s t) \<noteq> Some (k, a)" if "stores (thr s t)" for k
  proof
    assume k: "addr_of (thr s t) = Some (k, a)"
    have "thr s u = Write_snapshot opn a" using u k I(4) assms(3) by (auto simp: fresh_def)
    then show False using storing_lock[OF that k, of "sh s"] exclusion_any[OF I(1), of t "ELock a" u] assms(3) by simp
  qed
  ultimately show "cells d ! a = cells (sh s) ! a"
    by (intro cells_stable[OF assms(2) mem_okD(3)[OF I(2)]]) auto
qed

lemma exec_inv:
  assumes "exec (initial n) tr s" "ValidPartitionCount n"
  shows "\<exists>m. legal Map.empty (lins tr) = Some m \<and> inv s m \<and> (\<forall>t. phase t tr = pc_phase (sh s) (thr s t))"
  using assms(1)
proof (induction rule: exec.induct)
  case exec_start
  then show ?case using inv_initial[OF assms(2)] by (auto simp: phase_def initial_def)
next
  case (exec_call tr s t c)
  then obtain m where m: "legal Map.empty (lins tr) = Some m" "inv s m" "\<And>u. phase u tr = pc_phase (sh s) (thr s u)" by blast
  have "phase u (tr @ [Inv t c]) = pc_phase (sh s) (((thr s)(t := enter c)) u)" for u
    using m(3)[of u] exec_call.hyps(2) by (cases c) (auto simp: phase_snoc)
  then show ?case using m(1) inv_call[OF m(2) exec_call.hyps(2)] by auto
next
  case (exec_step tr s t s' ev)
  then obtain m where m: "legal Map.empty (lins tr) = Some m" "inv s m" "\<And>u. phase u tr = pc_phase (sh s) (thr s u)" by blast
  note I = invD[OF m(2)]
  obtain d pc' lin m' where e: "effect (sh s) (thr s t) = (d, pc', lin)" "sh s' = d" "thr s' = (thr s)(t := pc')"
    "ev = events t (thr s t) lin" "lin_ok m lin m'" "inv s' m'" by (rule inv_step[OF m(2) exec_step.hyps(2)])
  have "legal Map.empty (lins (tr @ ev)) = Some m'"
    using m(1) e(5) by (auto simp: legal_append e(4) lins_events[OF e(1)] lin_ok_def split: option.splits)
  moreover have "phase u (tr @ ev) = pc_phase d (((thr s)(t := pc')) u)" for u
  proof (cases "u = t")
    case True
    have at: "at_stmt d m' pc'" using invD(3)[OF e(6), of t] e(2,3) by (simp add: pc_ok_def)
    have len: "a < length (cells (sh s))" if "thr s t = Write_version opn a" for opn a
      using I(3)[of t] mem_okD(3)[OF I(2)] that by (auto simp: pc_ok_def)
    obtain ins where "lock_instr (sh s) (thr s t) = Some ins" by (rule thread_stepD[OF exec_step.hyps(2)])
    from events_own[OF e(1) this at len] True m(3) show ?thesis by (simp add: phase_snoc e(4))
  next
    case False
    then show ?thesis using events_other[OF False] phase_other[OF m(2) e(1) False] m(3) by (simp add: phase_snoc e(4))
  qed
  ultimately show ?case using e(2,3,6) by (intro exI[of _ m']) simp
qed

text \<open>The calls one after the other, each with the store's sequential code.\<close>

fun seq_call :: "Store \<Rightarrow> call \<Rightarrow> (Store \<times> ret) option" where
  "seq_call s (GetCall key) = map_option (\<lambda>e. (s, GetRet e)) (Get s key)"
| "seq_call s (WriteCall opn) = map_option (\<lambda>(s', r). (s', WriteRet r)) (Write s opn)"
| "seq_call s KeysCall = Some (s, KeysRet (Keys s (\<lambda>ks k. (ks @ [k], True)) []))"

fun seq_run :: "Store \<Rightarrow> call list \<Rightarrow> (Store \<times> ret list) option" where
  "seq_run s [] = Some (s, [])"
| "seq_run s (c # cs) =
     (case seq_call s c of None \<Rightarrow> None
      | Some (s', r) \<Rightarrow> (case seq_run s' cs of None \<Rightarrow> None | Some (s'', rs) \<Rightarrow> Some (s'', r # rs)))"

lemma seq_call_spec:
  assumes "store_ok s" "spec_call (contents s) c = Some (m', r)"
  shows "\<exists>s'. seq_call s c = Some (s', r) \<and> store_ok s' \<and> contents s' = m'"
proof (cases c)
  case (WriteCall opn)
  then show ?thesis using Write_spec[OF assms(1), of opn] assms(2) by auto
qed (use assms Get_contents in auto)

lemma seq_run_legal:
  "store_ok s \<Longrightarrow> legal (contents s) es = Some m \<Longrightarrow>
   \<exists>s'. seq_run s (map fst es) = Some (s', map snd es) \<and> store_ok s' \<and> contents s' = m"
proof (induction es arbitrary: s)
  case (Cons cr es)
  obtain c r where cr: "cr = (c, r)" by (cases cr)
  then obtain m' where m': "spec_call (contents s) c = Some (m', r)" "legal m' es = Some m"
    using Cons.prems(2) by (auto split: option.splits prod.splits if_splits)
  obtain s' where s': "seq_call s c = Some (s', r)" "store_ok s'" "contents s' = m'"
    using seq_call_spec[OF Cons.prems(1) m'(1)] by blast
  from Cons.IH[OF s'(2)] m'(2) s' cr show ?case by auto
qed simp

lemma New_valid: "New n = Inr st \<Longrightarrow> ValidPartitionCount n"
  by (simp add: New_def split: if_splits)

lemma exec_sequential:
  assumes "New n = Inr st" "exec (initial n) tr s"
  obtains st' m where "seq_run st (map fst (lins tr)) = Some (st', map snd (lins tr))" "store_ok st'" "contents st' = m"
    "inv s m" "\<forall>t. phase t tr = pc_phase (sh s) (thr s t)" "\<forall>t. phase t tr \<noteq> Wrong"
proof -
  obtain m where m: "legal Map.empty (lins tr) = Some m" "inv s m" "\<And>t. phase t tr = pc_phase (sh s) (thr s t)"
    using exec_inv[OF assms(2) New_valid[OF assms(1)]] by blast
  obtain st' where st': "seq_run st (map fst (lins tr)) = Some (st', map snd (lins tr))" "store_ok st'" "contents st' = m"
    using seq_run_legal[of st "lins tr" m] m(1) New_ok[OF assms(1)] by auto
  have "pc_phase (sh s) (thr s t) \<noteq> Wrong" for t
    using invD(3)[OF m(2), of t] by (cases "thr s t") (auto simp: pc_ok_def split: option.splits)
  with that st' m show thesis by metis
qed

lemma quiet_memory:
  assumes "inv s m" "\<forall>t. thr s t = Idle"
  shows "m k = map_option (\<lambda>a. snapshot (cells (sh s) ! a)) (lookup (sh s) k)"
proof (cases "lookup (sh s) k")
  case None
  then show ?thesis using mem_okD(2)[OF invD(2)[OF assms(1)], of k] by simp
next
  case (Some a)
  have "a \<notin> mid (thr s)" using assms(2) by (simp add: mid_def)
  then show ?thesis using mem_okD(5)[OF invD(2)[OF assms(1)] Some] Some by simp
qed

text \<open>
  C3. Linearizability of \<open>Get\<close> and \<open>Write\<close>: however the calls of any number of goroutines interleave, there is
  an order of these calls in which the store's sequential code gives exactly the results the goroutines
  get; each has its place in that order between the moment it is made and the moment it returns
  (no goroutine's events are \<open>Wrong\<close>), and when no call is in progress the memory holds
  what the sequential store holds at the end. Calls of \<open>Keys\<close> may run among them and have no place in
  the order: what a listing returns is the subject of \<open>Keys_while_writing\<close>.
\<close>

theorem linearizable:
  assumes "New n = Inr st" "exec (initial n) tr s"
  shows "\<exists>st'. seq_run st (map fst (lins tr)) = Some (st', map snd (lins tr)) \<and> (\<forall>t. phase t tr \<noteq> Wrong) \<and>
    ((\<forall>t. thr s t = Idle) \<longrightarrow> (\<forall>k. contents st' k = map_option (\<lambda>a. snapshot (cells (sh s) ! a)) (lookup (sh s) k)))"
proof -
  obtain st' m where "seq_run st (map fst (lins tr)) = Some (st', map snd (lins tr))" "contents st' = m" "inv s m"
    "\<forall>t. phase t tr \<noteq> Wrong" by (rule exec_sequential[OF assms])
  with quiet_memory[of s m] show ?thesis by blast
qed

section \<open>No data race\<close>

text \<open>The memory a statement touches: a partition's map, an entry's value or version; \<open>True\<close> for a write.\<close>

datatype loc = MapOf nat | ValueOf addr | VersionOf addr

fun accesses :: "shared \<Rightarrow> pc \<Rightarrow> (loc \<times> bool) list" where
  "accesses d (Get_lookup key) = [(MapOf (part_of d key), False)]"
| "accesses d (Get_value key a) = [(ValueOf a, False)]"
| "accesses d (Get_version key a v) = [(VersionOf a, False)]"
| "accesses d (Write_lookup opn) = [(MapOf (part_of d (Key opn)), False)]"
| "accesses d (Write_guard opn a) = [(VersionOf a, False)]"
| "accesses d (Write_value opn a) = [(ValueOf a, False), (ValueOf a, True)]"
| "accesses d (Write_version opn a) = [(VersionOf a, False), (VersionOf a, True)]"
| "accesses d (Write_snapshot opn a) = [(ValueOf a, False), (VersionOf a, False)]"
| "accesses d (Create_check opn) = [(MapOf (part_of d (Key opn)), False)]"
| "accesses d (Create_insert opn) = [(MapOf (part_of d (Key opn)), True)]"
| "accesses d (Create_snapshot opn a) = [(ValueOf a, False), (VersionOf a, False)]"
| "accesses d (Keys_copy i ks) = [(MapOf i, False)]"
| "accesses d pc = []"

fun guard_of :: "loc \<Rightarrow> lock_id" where
  "guard_of (MapOf i) = PLock i"
| "guard_of (ValueOf a) = ELock a"
| "guard_of (VersionOf a) = ELock a"

lemma write_access: "(x, True) \<in> set (accesses d pc) \<Longrightarrow> lock_of d pc = Some (guard_of x, True) \<and> granted pc"
  by (cases pc) auto

lemma any_access:
  "(x, b) \<in> set (accesses d pc) \<Longrightarrow> map_option fst (lock_of d pc) = Some (guard_of x) \<or>
     (\<exists>opn a. pc = Create_snapshot opn a \<and> guard_of x = ELock a)"
  by (cases pc) auto

text \<open>
  C8. Data-race freedom: no two goroutines are ever about to touch the same partition map or the
  same field of an entry, one of them writing. So the runtime's fatal concurrent map access cannot
  happen, and no reader sees a half-written entry.
\<close>

theorem no_data_race:
  assumes "New n = Inr st" "exec (initial n) tr s" "t \<noteq> u"
    "(x, True) \<in> set (accesses (sh s) (thr s t))"
  shows "(x, b) \<notin> set (accesses (sh s) (thr s u))"
proof
  assume u: "(x, b) \<in> set (accesses (sh s) (thr s u))"
  obtain m where "inv s m" using exec_inv[OF assms(2) New_valid[OF assms(1)]] by blast
  note I = invD[OF this] and w = write_access[OF assms(4)]
  from any_access[OF u] exclusion_any[OF I(1), of t "guard_of x" u] w assms(3)
  obtain opn a where c: "thr s u = Create_snapshot opn a" "guard_of x = ELock a" by auto
  then obtain k where "addr_of (thr s t) = Some (k, a)" using assms(4) by (cases "thr s t") auto
  then show False using I(4) c(1) assms(3) unfolding fresh_def by blast
qed

section \<open>No deadlock\<close>

lemma holder_instr:
  "lock_of d pc = Some (l, b) \<Longrightarrow> granted pc \<Longrightarrow>
   lock_instr d pc = Some Local \<or> lock_instr d pc = Some (if b then Unlock l else RUnlock l)"
  by (cases pc) auto

lemma waiter_instr: "\<not> granted pc \<Longrightarrow> \<exists>l. lock_of d pc = Some (l, True) \<and> lock_instr d pc = Some (Await l)"
  by (cases pc) auto

lemma reader_granted: "lock_of d pc = Some (l, False) \<Longrightarrow> granted pc"
  by (cases pc) auto

lemma can_step: "lock_instr (sh s) (thr s t) = Some ins \<Longrightarrow> exec_instr t ins (mu s) \<noteq> None \<Longrightarrow> thread_step s t \<noteq> None"
  by (auto simp: thread_step_def split: prod.splits)

lemma holder_steps:
  assumes "locks_ok s" "lock_of (sh s) (thr s u) = Some (l, b)" "granted (thr s u)"
  shows "thread_step s u \<noteq> None"
proof -
  have "exec_instr u (if b then Unlock l else RUnlock l) (mu s) \<noteq> None"
    using consistentD(1,2)[OF assms(1)[unfolded locks_ok_def]] assms(2) by (cases b) simp_all
  then show ?thesis using holder_instr[OF assms(2,3)] can_step[of s u] by fastforce
qed

text \<open>Whoever keeps a lock from others can go on, or waits for a reader who can.\<close>

lemma owner_steps:
  assumes "locks_ok s" "lock_of (sh s) (thr s u) = Some (l, b)"
  shows "\<exists>v. thread_step s v \<noteq> None"
proof (cases "granted (thr s u)")
  case False
  then have w: "lock_instr (sh s) (thr s u) = Some (Await l)" using waiter_instr[OF False, of "sh s"] assms(2) by auto
  show ?thesis
  proof (cases "readers (mu s l) = {}")
    case True
    then show ?thesis using can_step[OF w] by auto
  next
    case False
    then obtain v where "lock_of (sh s) (thr s v) = Some (l, False)"
      using consistentD(1)[OF assms(1)[unfolded locks_ok_def]] by blast
    from holder_steps[OF assms(1) this reader_granted[OF this]] show ?thesis by blast
  qed
qed (use holder_steps[OF assms] in blast)

lemma progress:
  assumes "locks_ok s" "lock_instr (sh s) (thr s t) = Some ins"
  shows "\<exists>v. thread_step s v \<noteq> None"
proof (cases "exec_instr t ins (mu s)")
  case None
  note c = consistentD[OF assms(1)[unfolded locks_ok_def]]
  have "\<exists>l b u. lock_of (sh s) (thr s u) = Some (l, b)"
  proof (cases ins)
    case (RLock l)
    then obtain u where "writer (mu s l) = Some u" using None by (auto split: if_splits)
    then show ?thesis using c(2) by blast
  next
    case (Announce l)
    then obtain u where "writer (mu s l) = Some u" using None by (auto split: if_splits)
    then show ?thesis using c(2) by blast
  next
    case (Await l)
    then obtain u where "u \<in> readers (mu s l)" using None by (auto split: if_splits)
    then show ?thesis using c(1) by blast
  next
    case (RUnlock l)
    obtain d pc' lin where "effect (sh s) (thr s t) = (d, pc', lin)" by (metis prod_cases3)
    from effect_flow[OF assms(2) this] RUnlock show ?thesis by auto
  next
    case (Unlock l)
    obtain d pc' lin where "effect (sh s) (thr s t) = (d, pc', lin)" by (metis prod_cases3)
    from effect_flow[OF assms(2) this] Unlock show ?thesis by auto
  qed (use None in simp)
  then show ?thesis using owner_steps[OF assms(1)] by blast
qed (use can_step[OF assms(2)] in auto)

lemma idle_or_instr: "at_stmt d m pc \<Longrightarrow> lock_instr d pc = None \<longleftrightarrow> pc = Idle"
  by (cases pc) auto

text \<open>
  C10. No deadlock and no panic: as long as some call is in progress, some goroutine can execute
  its next statement, and no goroutine has panicked.
\<close>

theorem no_deadlock:
  assumes "New n = Inr st" "exec (initial n) tr s" "thr s t \<noteq> Idle"
  shows "thr s t \<noteq> Panicked \<and> (\<exists>u s' ev. thread_step s u = Some (s', ev))"
proof -
  obtain m where "inv s m" using exec_inv[OF assms(2) New_valid[OF assms(1)]] by blast
  note I = invD[OF this]
  have at: "at_stmt (sh s) m (thr s t)" using I(3)[of t] by (simp add: pc_ok_def)
  then obtain ins where "lock_instr (sh s) (thr s t) = Some ins" using idle_or_instr[OF at] assms(3) by blast
  from progress[OF I(1) this] at show ?thesis by auto
qed

section \<open>Every call returns\<close>

text \<open>
  A bound on the statements a goroutine has still to execute. The loop of \<open>Write\<close> is repeated at
  most once: it goes round only when the key has appeared, and keys never disappear.
\<close>

fun rank :: "shared \<Rightarrow> pc \<Rightarrow> nat" where
  "rank d Idle = 0"
| "rank d Panicked = 0"
| "rank d (Finished c r) = 1"
| "rank d (Get_partition key) = 9"
| "rank d (Get_rlock key) = 8"
| "rank d (Get_lookup key) = 7"
| "rank d (Get_runlock key e) = 6"
| "rank d (Get_entry_rlock key a) = 5"
| "rank d (Get_value key a) = 4"
| "rank d (Get_version key a v) = 3"
| "rank d (Get_entry_runlock key a snap) = 2"
| "rank d (Write_partition opn) = 19"
| "rank d (Write_rlock opn) = (if lookup d (Key opn) = None then 18 else 11)"
| "rank d (Write_lookup opn) = (if lookup d (Key opn) = None then 17 else 10)"
| "rank d (Write_runlock opn e) = (if e = None then 16 else 9)"
| "rank d (Write_lock opn a) = 8"
| "rank d (Write_wait opn a) = 7"
| "rank d (Write_guard opn a) = 6"
| "rank d (Write_value opn a) = 5"
| "rank d (Write_version opn a) = 4"
| "rank d (Write_snapshot opn a) = 3"
| "rank d (Write_unlock opn a r) = 2"
| "rank d (Create_lock opn) = 15"
| "rank d (Create_wait opn) = 14"
| "rank d (Create_check opn) = 13"
| "rank d (Create_insert opn) = 4"
| "rank d (Create_snapshot opn a) = 3"
| "rank d (Create_unlock opn r) = (if r = None then 12 else 2)"
| "rank d (Keys_rlock i ks) = 3 * (length (maps d) - i) + 2"
| "rank d (Keys_copy i ks) = 3 * (length (maps d) - i) + 1"
| "rank d (Keys_runlock i ks) = 3 * (length (maps d) - i)"

lemma effect_lookup:
  assumes "effect d pc = (d', pc', lin)" "maps_ok d" "lookup d k \<noteq> None"
  shows "lookup d' k \<noteq> None"
proof (cases "stores pc")
  case True
  have "part_of d k < length (maps d)" for k
    using assms(2) Partition_less[of "count d" k] by (simp add: maps_ok_def part_of_def)
  then show ?thesis using assms True
    by (cases pc) (auto simp: Let_def lookup_def part_of_def nth_list_update update_conv')
qed (use quiet_effect(1)[OF assms(1)] assms(3) in simp)

lemma rank_own:
  assumes "effect d pc = (d', pc', lin)" "lock_instr d pc = Some ins" "at_stmt d m pc" "at_stmt d' m' pc'"
  shows "rank d' pc' < rank d pc"
  using assms by (cases pc) (auto simp: Let_def split: sum.splits if_splits option.splits)

lemma rank_other:
  assumes "length (maps d') = length (maps d)" "\<And>k. lookup d' k = None \<Longrightarrow> lookup d k = None"
  shows "rank d' pc \<le> rank d pc"
  using assms by (cases pc) auto

lemma rank_step:
  assumes "inv s m" "thread_step s t = Some (s', ev)"
  shows "rank (sh s') (thr s' t) < rank (sh s) (thr s t)" "rank (sh s') (thr s' u) \<le> rank (sh s) (thr s u)"
proof -
  note I = invD[OF assms(1)]
  obtain d pc' lin m' where e: "effect (sh s) (thr s t) = (d, pc', lin)" "sh s' = d" "thr s' = (thr s)(t := pc')" "inv s' m'"
    by (rule inv_step[OF assms])
  obtain ins where ins: "lock_instr (sh s) (thr s t) = Some ins" by (rule thread_stepD[OF assms(2)])
  have "at_stmt (sh s) m (thr s t)" "at_stmt d m' pc'" using I(3)[of t] invD(3)[OF e(4), of t] e(2,3) by (simp_all add: pc_ok_def)
  from rank_own[OF e(1) ins this] e(2,3) show own: "rank (sh s') (thr s' t) < rank (sh s) (thr s t)" by simp
  have "maps_ok (sh s)" using I(2) by (simp add: mem_ok_def)
  then have "rank d (thr s u) \<le> rank (sh s) (thr s u)"
    using effect_lookup[OF e(1)] by (intro rank_other effect_sizes(2)[OF e(1)]) blast
  then show "rank (sh s') (thr s' u) \<le> rank (sh s) (thr s u)" using own e(2,3) by (cases "u = t") simp_all
qed

text \<open>A schedule: the goroutines in the order in which each executes its next statement.\<close>

fun run_sched :: "cstate \<Rightarrow> tid list \<Rightarrow> (cstate \<times> event list) option" where
  "run_sched s [] = Some (s, [])"
| "run_sched s (t # ts) =
     (case thread_step s t of None \<Rightarrow> None
      | Some (s', ev) \<Rightarrow> (case run_sched s' ts of None \<Rightarrow> None | Some (s'', ev') \<Rightarrow> Some (s'', ev @ ev')))"

lemma run_sched_exec:
  "exec s0 tr s \<Longrightarrow> run_sched s ts = Some (s', ev) \<Longrightarrow> exec s0 (tr @ ev) s'"
proof (induction ts arbitrary: tr s ev)
  case (Cons t ts)
  then obtain s1 ev1 ev2 where "thread_step s t = Some (s1, ev1)" "run_sched s1 ts = Some (s', ev2)" "ev = ev1 @ ev2"
    by (auto split: option.splits prod.splits)
  with Cons.IH[OF exec_step[OF Cons.prems(1)]] show ?case by simp
qed simp

lemma run_sched_others: "run_sched s ts = Some (s', ev) \<Longrightarrow> t \<notin> set ts \<Longrightarrow> thr s' t = thr s t"
  by (induction ts arbitrary: s s' ev) (fastforce simp: thread_step_def split: option.splits prod.splits)+

lemma run_sched_counts:
  "inv s m \<Longrightarrow> run_sched s ts = Some (s', ev) \<Longrightarrow> count_list ts t + rank (sh s') (thr s' t) \<le> rank (sh s) (thr s t)"
proof (induction ts arbitrary: s m ev)
  case (Cons u ts)
  then obtain s1 ev1 ev2 where r: "thread_step s u = Some (s1, ev1)" "run_sched s1 ts = Some (s', ev2)"
    by (auto split: option.splits prod.splits)
  obtain m1 where "inv s1 m1" by (rule inv_step[OF Cons.prems(1) r(1)])
  from Cons.IH[OF this r(2)] rank_step[OF Cons.prems(1) r(1)] show ?case by (cases "u = t") (auto intro: le_trans)
qed simp

lemma active_finite: "exec s0 tr s \<Longrightarrow> finite {t. thr s0 t \<noteq> Idle} \<Longrightarrow> finite {t. thr s t \<noteq> Idle}"
proof (induction rule: exec.induct)
  case (exec_call tr s t c)
  have "{u. thr (s\<lparr>thr := (thr s)(t := enter c)\<rparr>) u \<noteq> Idle} \<subseteq> insert t {u. thr s u \<noteq> Idle}" by auto
  then show ?case using exec_call finite_subset by blast
next
  case (exec_step tr s t s' ev)
  obtain d pc' lin mu' where "s' = \<lparr>sh = d, mu = mu', thr = (thr s)(t := pc')\<rparr>" by (rule thread_stepD[OF exec_step.hyps(2)])
  then have "{u. thr s' u \<noteq> Idle} \<subseteq> insert t {u. thr s u \<noteq> Idle}" by auto
  then show ?case using exec_step finite_subset by blast
qed

text \<open>
  C9. Every call returns, whatever the scheduler does: from any reachable state, a goroutine executes
  at most \<open>rank\<close> more statements of its call (19 for a write that has just been made, 9 for a
  read), so a schedule without new calls is bounded, and one that cannot be continued has
  completed every call.
\<close>

theorem calls_terminate:
  assumes "New n = Inr st" "exec (initial n) tr s" "run_sched s ts = Some (s', ev)"
  shows "(\<forall>t. count_list ts t \<le> rank (sh s) (thr s t)) \<and>
     length ts \<le> (\<Sum>t | thr s t \<noteq> Idle. rank (sh s) (thr s t)) \<and>
     ((\<forall>u. thread_step s' u = None) \<longrightarrow> (\<forall>t. thr s' t = Idle))"
proof -
  obtain m where I: "inv s m" using exec_inv[OF assms(2) New_valid[OF assms(1)]] by blast
  have c: "count_list ts t \<le> rank (sh s) (thr s t)" for t using run_sched_counts[OF I assms(3), of t] by simp
  let ?A = "{t. thr s t \<noteq> Idle}"
  have "finite ?A" by (rule active_finite[OF assms(2)]) (simp add: initial_def)
  moreover have "set ts \<subseteq> ?A"
  proof
    fix t assume "t \<in> set ts"
    then have "0 < count_list ts t" by (metis count_list_0_iff gr0I)
    then show "t \<in> ?A" using c[of t] by (auto intro: ccontr)
  qed
  ultimately have "length ts = (\<Sum>t \<in> ?A. count_list ts t)" by (metis sum_count_set)
  also have "\<dots> \<le> (\<Sum>t \<in> ?A. rank (sh s) (thr s t))" using c by (intro sum_mono)
  finally have len: "length ts \<le> (\<Sum>t \<in> ?A. rank (sh s) (thr s t))" .
  have e': "exec (initial n) (tr @ ev) s'" by (rule run_sched_exec[OF assms(2,3)])
  obtain m' where I': "inv s' m'" using exec_inv[OF e' New_valid[OF assms(1)]] by blast
  have "thr s' t = Idle" if "\<forall>u. thread_step s' u = None" for t
  proof (rule ccontr)
    assume "thr s' t \<noteq> Idle"
    moreover have "at_stmt (sh s') m' (thr s' t)" using invD(3)[OF I', of t] by (simp add: pc_ok_def)
    ultimately obtain ins where "lock_instr (sh s') (thr s' t) = Some ins" using idle_or_instr by blast
    from progress[OF invD(1)[OF I'] this] that show False by simp
  qed
  with c len show ?thesis by blast
qed

section \<open>Listing keys while others write\<close>

definition present :: "shared \<Rightarrow> go_string set" where
  "present d = {k. lookup d k \<noteq> None}"

text \<open>\<open>ks\<close> lists the first \<open>j\<close> partitions: no key twice, none that does not exist, all of the keys \<open>K0\<close>.\<close>

definition listed :: "go_string set \<Rightarrow> shared \<Rightarrow> nat \<Rightarrow> go_string list \<Rightarrow> bool" where
  "listed K0 d j ks \<longleftrightarrow> distinct ks \<and> (\<forall>k \<in> set ks. k \<in> present d \<and> part_of d k < j) \<and>
     (\<forall>k \<in> K0. part_of d k < j \<longrightarrow> k \<in> set ks)"

fun listing_at :: "go_string set \<Rightarrow> shared \<Rightarrow> pc \<Rightarrow> bool" where
  "listing_at K0 d (Keys_rlock i ks) = listed K0 d i ks"
| "listing_at K0 d (Keys_copy i ks) = listed K0 d i ks"
| "listing_at K0 d (Keys_runlock i ks) = listed K0 d (Suc i) ks"
| "listing_at K0 d (Finished KeysCall (KeysRet ks)) = listed K0 d (length (maps d)) ks"
| "listing_at K0 d pc = False"

lemma listing_cases:
  assumes "listing_at K0 d pc"
  obtains i ks where "pc = Keys_rlock i ks" | i ks where "pc = Keys_copy i ks" | i ks where "pc = Keys_runlock i ks"
    | ks where "pc = Finished KeysCall (KeysRet ks)"
proof (cases pc)
  case (Finished c r)
  then show thesis using assms that(4) by (cases c; cases r) auto
qed (use assms that in auto)

lemma present_in_map: "maps_ok d \<Longrightarrow> i < length (maps d) \<Longrightarrow> k \<in> fst ` set (maps d ! i) \<longleftrightarrow> k \<in> present d \<and> part_of d k = i"
proof -
  assume ok: "maps_ok d" "i < length (maps d)"
  have "part_of d k = i" if "k \<in> fst ` set (maps d ! i)" using ok that unfolding maps_ok_def by blast
  then show ?thesis unfolding present_def lookup_def mem_Collect_eq map_of_eq_None_iff by blast
qed

lemma listed_copy:
  assumes "listed K0 d i ks" "maps_ok d" "i < length (maps d)" "K0 \<subseteq> present d"
  shows "listed K0 d (Suc i) (ks @ map fst (maps d ! i))"
proof -
  let ?new = "map fst (maps d ! i)"
  have new: "k \<in> set ?new \<longleftrightarrow> k \<in> present d \<and> part_of d k = i" for k
    using present_in_map[OF assms(2,3), of k] by simp
  have old: "k \<in> present d" "part_of d k < i" if "k \<in> set ks" for k using assms(1) that by (simp_all add: listed_def)
  have "set ks \<inter> set ?new = {}" using new old(2) by (auto simp del: set_map) (metis less_irrefl)
  then have "distinct (ks @ ?new)" using assms(1-3) by (simp add: listed_def maps_ok_def del: set_map)
  moreover have "k \<in> present d \<and> part_of d k < Suc i" if "k \<in> set (ks @ ?new)" for k
    using that new[of k] old[of k] by (auto simp del: set_map)
  moreover have "k \<in> set (ks @ ?new)" if "k \<in> K0" "part_of d k < Suc i" for k
  proof (cases "part_of d k = i")
    case True
    then show ?thesis using new[of k] that(1) assms(4) by auto
  next
    case False
    then show ?thesis using assms(1) that by (simp add: listed_def)
  qed
  ultimately show ?thesis unfolding listed_def by blast
qed

lemma listed_end: "listed K0 d i ks \<Longrightarrow> n \<le> i \<Longrightarrow> \<forall>k. part_of d k < n \<Longrightarrow> listed K0 d n ks"
  unfolding listed_def by (meson less_le_trans)

lemma listed_mono:
  assumes "listed K0 d j ks" "present d \<subseteq> present d'" "count d' = count d"
  shows "listed K0 d' j ks"
  using assms by (auto simp: listed_def part_of_def)

lemma listing_step:
  assumes "inv s m" "thread_step s u = Some (s', ev)" "listing_at K0 (sh s) (thr s t)" "K0 \<subseteq> present (sh s)"
    "\<forall>c r. Ret t c r \<notin> set ev"
  shows "listing_at K0 (sh s') (thr s' t) \<and> K0 \<subseteq> present (sh s')"
proof -
  note I = invD[OF assms(1)]
  have mo: "maps_ok (sh s)" using I(2) by (simp add: mem_ok_def)
  obtain d pc' lin m' where e: "effect (sh s) (thr s u) = (d, pc', lin)" "sh s' = d" "thr s' = (thr s)(u := pc')"
    "ev = events u (thr s u) lin" by (rule inv_step[OF assms(1,2)])
  have grow: "present (sh s) \<subseteq> present d" using effect_lookup[OF e(1) mo] by (auto simp: present_def)
  note mono = listed_mono[OF _ grow effect_sizes(1)[OF e(1)]]
  have "listing_at K0 d (((thr s)(u := pc')) t)"
  proof (cases "u = t")
    case False
    have "listing_at K0 d (thr s t)"
      using assms(3) effect_sizes(2)[OF e(1)] by (cases rule: listing_cases[OF assms(3)]) (simp_all add: mono)
    then show ?thesis using False by simp
  next
    case True
    have all: "part_of (sh s) k < length (maps (sh s))" for k using mem_okD(1)[OF I(2)] .
    show ?thesis
    proof (cases rule: listing_cases[OF assms(3)])
      case (1 i ks)
      then show ?thesis using True e(1) assms(3) all listed_end[of K0 "sh s" i ks "length (maps (sh s))"]
        by (cases "i < length (maps (sh s))") auto
    next
      case (2 i ks)
      then have "i < length (maps (sh s))" using I(3)[of t] by (simp add: pc_ok_def)
      with 2 show ?thesis using True e(1) assms(3) listed_copy[OF _ mo _ assms(4)] by auto
    next
      case (3 i ks)
      then show ?thesis using True e(1) assms(3) by auto
    next
      case (4 ks)
      then show ?thesis using True e(4) assms(5) by auto
    qed
  qed
  then show ?thesis using grow assms(4) e(2,3) by auto
qed

lemma exec_trans: "exec s tr' s' \<Longrightarrow> exec s0 tr s \<Longrightarrow> exec s0 (tr @ tr') s'"
  by (induction rule: exec.induct) (simp_all add: exec_call exec_step flip: append_assoc)

lemma listing_exec:
  assumes "exec s tr' s'" "exec (initial n) tr s" "ValidPartitionCount n" "listing_at K0 (sh s) (thr s t)" "K0 \<subseteq> present (sh s)"
    "\<forall>c r. Ret t c r \<notin> set tr'"
  shows "listing_at K0 (sh s') (thr s' t) \<and> K0 \<subseteq> present (sh s')"
  using assms(1,6)
proof (induction rule: exec.induct)
  case exec_start
  then show ?case using assms(4,5) by simp
next
  case (exec_call tr1 s1 u c)
  then have "listing_at K0 (sh s1) (thr s1 t)" "K0 \<subseteq> present (sh s1)" by simp_all
  moreover from this have "u \<noteq> t" using exec_call.hyps(2) by auto
  ultimately show ?case by simp
next
  case (exec_step tr1 s1 u s2 ev)
  then have l: "listing_at K0 (sh s1) (thr s1 t)" "K0 \<subseteq> present (sh s1)" by simp_all
  obtain m where "inv s1 m" using exec_inv[OF exec_trans[OF exec_step.hyps(1) assms(2)] assms(3)] by blast
  from listing_step[OF this exec_step.hyps(2) l] exec_step.prems show ?case by simp
qed

text \<open>
  A listing that runs while other goroutines write returns every key that existed when it was
  called, only keys that exist when it returns, and no key twice.
\<close>

lemma Keys_while_writing:
  assumes "ValidPartitionCount n" "exec (initial n) tr s" "thr s t = enter KeysCall"
    "exec s tr' s'" "\<forall>c r. Ret t c r \<notin> set tr'" "thr s' t = Finished KeysCall (KeysRet ks)"
  shows "distinct ks \<and> present (sh s) \<subseteq> set ks \<and> set ks \<subseteq> present (sh s')"
proof -
  have "listing_at (present (sh s)) (sh s) (thr s t)" using assms(3) by (simp add: listed_def)
  from listing_exec[OF assms(4,2,1) this order_refl assms(5)]
  have l: "listed (present (sh s)) (sh s') (length (maps (sh s'))) ks" "present (sh s) \<subseteq> present (sh s')" using assms(6) by simp_all
  obtain m where "inv s' m" using exec_inv[OF exec_trans[OF assms(4,2)] assms(1)] by blast
  note I = invD[OF this]
  have "present (sh s) \<subseteq> set ks" using l mem_okD(1)[OF I(2)] by (auto simp: listed_def)
  then show ?thesis using l(1) by (auto simp: listed_def)
qed

section \<open>An execution\<close>

text \<open>
  Two goroutines create the same key at once. Both find it absent; the first inserts it, the second
  finds it under the partition's lock, goes round the loop and reports the conflict.
\<close>

definition sample_op :: WriteOp where
  "sample_op = \<lparr>Key = ''k'', Body = ''1'', op_Mode = ModeReplace, IfVersion = None, IfAbsent = True\<rparr>"

definition sample_start :: cstate where
  "sample_start = (initial 4)\<lparr>thr := (\<lambda>_. Idle)(0 := enter (WriteCall sample_op), 1 := enter (WriteCall sample_op))\<rparr>"

definition sample_sched :: "tid list" where
  "sample_sched = [0, 1, 0, 1, 0, 1, 0, 1] @ replicate 7 0 @ replicate 12 1"

lemma sample_start_exec: "exec (initial 4) [Inv 0 (WriteCall sample_op), Inv 1 (WriteCall sample_op)] sample_start"
proof -
  have "exec (initial 4) ([] @ [Inv 0 (WriteCall sample_op)]) ((initial 4)\<lparr>thr := (thr (initial 4))(0 := enter (WriteCall sample_op))\<rparr>)"
    by (intro exec_call exec_start) (simp add: initial_def)
  from exec_call[OF this, of 1 "WriteCall sample_op"] show ?thesis by (simp add: sample_start_def initial_def)
qed

lemma sample_run:
  assumes "map_option f (run_sched sample_start ts) = Some y"
  obtains s tr where "run_sched sample_start ts = Some (s, tr)" "f (s, tr) = y"
    "exec (initial 4) (Inv 0 (WriteCall sample_op) # Inv 1 (WriteCall sample_op) # tr) s"
proof -
  obtain s tr where "run_sched sample_start ts = Some (s, tr)" "f (s, tr) = y" using assms by auto
  with that run_sched_exec[OF sample_start_exec this(1)] show thesis by simp
qed

lemma sample_results:
  "map_option (\<lambda>(s, tr). (lins tr, thr s 2, lookup (sh s) ''k'')) (run_sched sample_start sample_sched) =
   Some ([(WriteCall sample_op, WriteRet (Inr \<lparr>Value = ''1'', Version = 1\<rparr>)),
          (WriteCall sample_op, WriteRet (Inl (VersionMismatch
             \<lparr>vm_Key = ''k'', Expected = 0, Current = 1, RequiredAbsent = True\<rparr>)))], Idle, Some 0)"
  by code_simp

theorem linearizable_witness:
  "\<exists>st st' s tr. New 4 = Inr st \<and> exec (initial 4) tr s \<and> (\<forall>t. phase t tr \<noteq> Wrong) \<and>
     seq_run st [WriteCall sample_op, WriteCall sample_op] =
       Some (st', [WriteRet (Inr \<lparr>Value = ''1'', Version = 1\<rparr>), WriteRet (Inl (VersionMismatch
             \<lparr>vm_Key = ''k'', Expected = 0, Current = 1, RequiredAbsent = True\<rparr>))])"
proof -
  obtain st where st: "New 4 = Inr st" using New_4 by blast
  obtain s tr where s: "lins tr = [(WriteCall sample_op, WriteRet (Inr \<lparr>Value = ''1'', Version = 1\<rparr>)),
          (WriteCall sample_op, WriteRet (Inl (VersionMismatch
             \<lparr>vm_Key = ''k'', Expected = 0, Current = 1, RequiredAbsent = True\<rparr>)))]"
    and e: "exec (initial 4) (Inv 0 (WriteCall sample_op) # Inv 1 (WriteCall sample_op) # tr) s"
    by (rule sample_run[OF sample_results]) auto
  from linearizable[OF st e] s st e show ?thesis by auto
qed

theorem no_data_race_witness:
  "\<exists>st s tr. New 4 = Inr st \<and> exec (initial 4) tr s \<and> thr s 0 = Create_insert sample_op \<and> thr s 1 = Create_lock sample_op \<and>
     (\<forall>b. (MapOf 2, b) \<notin> set (accesses (sh s) (thr s 1)))"
proof -
  obtain st where st: "New 4 = Inr st" using New_4 by blast
  have "map_option (\<lambda>(s, tr). (thr s 0, thr s 1, accesses (sh s) (thr s 0))) (run_sched sample_start (take 11 sample_sched)) =
      Some (Create_insert sample_op, Create_lock sample_op, [(MapOf 2, True)])" by code_simp
  then obtain s tr where "thr s 0 = Create_insert sample_op" "thr s 1 = Create_lock sample_op"
    and x: "accesses (sh s) (thr s 0) = [(MapOf 2, True)]"
    and e: "exec (initial 4) (Inv 0 (WriteCall sample_op) # Inv 1 (WriteCall sample_op) # tr) s"
    by (rule sample_run) auto
  moreover have "(MapOf 2, b) \<notin> set (accesses (sh s) (thr s 1))" for b
    by (rule no_data_race[OF st e, of 0]) (simp_all add: x)
  ultimately show ?thesis using st by blast
qed

theorem no_deadlock_witness:
  "\<exists>st u s' ev. New 4 = Inr st \<and> thread_step sample_start u = Some (s', ev)"
proof -
  obtain st where st: "New 4 = Inr st" using New_4 by blast
  have "thr sample_start 0 \<noteq> Idle" by (simp add: sample_start_def)
  from no_deadlock[OF st sample_start_exec this] st show ?thesis by blast
qed

theorem calls_terminate_witness:
  "\<exists>st s' ev. New 4 = Inr st \<and> run_sched sample_start sample_sched = Some (s', ev) \<and>
     count_list sample_sched 1 \<le> rank (sh sample_start) (thr sample_start 1)"
proof -
  obtain st where st: "New 4 = Inr st" using New_4 by blast
  obtain s tr where r: "run_sched sample_start sample_sched = Some (s, tr)" by (rule sample_run[OF sample_results]) auto
  from calls_terminate[OF st sample_start_exec r] st r show ?thesis by blast
qed

end
