(* ===== verification/Store_Cas.thy ===== *)
theory Store_Cas
  imports Store_Concurrent
begin

text \<open>
  What concurrent clients of the store rely on: the guards of \<open>Write\<close> decide between concurrent
  writers, and every write that succeeds gets a version of its own. The results follow from the
  locale of the sequential store along the order in which the concurrent calls take effect.
\<close>

section \<open>Versions of a sequence of writes\<close>

text \<open>The versions that the successful writes to a key returned.\<close>

definition won :: "go_string \<Rightarrow> (WriteOp \<times> (store_error + Entry)) list \<Rightarrow> uint64 list" where
  "won k ws = map (\<lambda>(opn, r). Version (projr r)) (filter (\<lambda>(opn, r). Key opn = k \<and> is_ok r) ws)"

lemma won_simps [simp]:
  "won k [] = []" "won k ((opn, Inl err) # ws) = won k ws"
  "won k ((opn, Inr e) # ws) = (if Key opn = k then Version e # won k ws else won k ws)"
  by (simp_all add: won_def)

lemma write_all_lengths: "write_all wr s ops = Some (s', rs) \<Longrightarrow> length rs = length ops"
  by (induction ops arbitrary: s rs) (auto split: option.splits)

lemma successes_filter:
  "length rs = length ops \<Longrightarrow> successes P ops rs = length (filter (\<lambda>(opn, r). P opn \<and> is_ok r) (zip ops rs))"
  by (induction ops rs rule: list_induct2') auto

context versioned_kv
begin

lemma versions_consecutive:
  assumes "ok s" "write_all wr s ops = Some (s', rs)" "get s k = Some cur"
  shows "won k (zip ops rs) = map (\<lambda>i. version_of cur + word_of_nat (Suc i)) [0..<length (won k (zip ops rs))]"
  using assms
proof (induction ops arbitrary: s rs cur)
  case (Cons opn ops)
  then obtain s1 r rs' where w: "wr s opn = Some (s1, r)" "write_all wr s1 ops = Some (s', rs')" "rs = r # rs'"
    by (auto split: option.splits)
  note IH = Cons.IH[OF write_ok[OF Cons.prems(1) w(1)] w(2) write_step[OF Cons.prems(1) w(1) Cons.prems(3)]]
  show ?case
  proof (cases "Key opn = k \<and> is_ok r")
    case True
    then obtain e where r: "r = Inr e" by (cases r) auto
    then have e: "e = apply_write opn cur" using write_applied[OF Cons.prems(1), of opn s1 e cur] w(1) Cons.prems(3) True by auto
    have v: "Version e = version_of cur + 1" using e by (simp add: apply_write_def version_of_def split: option.splits)
    let ?W = "won k (zip ops rs')"
    have "?W = map (\<lambda>i. version_of cur + word_of_nat (Suc (Suc i))) [0..<length ?W]"
      using IH True e v by (simp add: version_of_def add_ac)
    moreover have "map (\<lambda>i. version_of cur + word_of_nat (Suc i)) [0..<Suc (length ?W)] =
        (version_of cur + 1) # map (\<lambda>i. version_of cur + word_of_nat (Suc (Suc i))) [0..<length ?W]"
      by (simp add: upt_conv_Cons map_Suc_upt[symmetric] comp_def del: upt_Suc)
    ultimately show ?thesis using True r v w(3) by simp
  next
    case False
    then have "won k (zip (opn # ops) rs) = won k (zip ops rs')" using w(3) by (cases r) auto
    then show ?thesis using IH False by auto
  qed
qed simp

end

lemma won_distinct:
  assumes "ws = map (\<lambda>i. word_of_nat (Suc i) :: uint64) [0..<length ws]" "length ws < 2 ^ 64"
  shows "distinct ws"
proof -
  have "inj_on (\<lambda>i. word_of_nat (Suc i) :: uint64) {0..<length ws}"
  proof (rule inj_onI)
    fix i j assume "i \<in> {0..<length ws}" "j \<in> {0..<length ws}" "word_of_nat (Suc i) = (word_of_nat (Suc j) :: uint64)"
    then have "unat (word_of_nat (Suc i) :: uint64) = unat (word_of_nat (Suc j) :: uint64)" "Suc i < 2 ^ 64" "Suc j < 2 ^ 64"
      using assms(2) by auto
    then show "i = j" by (simp only: unat_of_nat64)
  qed
  then have "distinct (map (\<lambda>i. word_of_nat (Suc i) :: uint64) [0..<length ws])" by (simp add: distinct_map)
  then show ?thesis using assms(1) by metis
qed

section \<open>What goroutines are told and what took effect\<close>

text \<open>The writes in a list of calls with their results, and the writes that have returned.\<close>

fun write_of :: "call \<times> ret \<Rightarrow> (WriteOp \<times> (store_error + Entry)) option" where
  "write_of (WriteCall opn, WriteRet r) = Some (opn, r)"
| "write_of _ = None"

fun effects :: "event list \<Rightarrow> (tid \<times> call \<times> ret) list" where
  "effects [] = []"
| "effects (Lin t c r # es) = (t, c, r) # effects es"
| "effects (Inv t c # es) = effects es"
| "effects (Ret t c r # es) = effects es"

fun returns :: "event list \<Rightarrow> (tid \<times> call \<times> ret) list" where
  "returns [] = []"
| "returns (Ret t c r # es) = (t, c, r) # returns es"
| "returns (Inv t c # es) = returns es"
| "returns (Lin t c r # es) = returns es"

definition returned :: "event list \<Rightarrow> (WriteOp \<times> (store_error + Entry)) list" where
  "returned tr = List.map_filter write_of (map snd (returns tr))"

lemma effects_append [simp]: "effects (tr @ tr') = effects tr @ effects tr'"
  by (induction tr rule: effects.induct) simp_all

lemma returns_append [simp]: "returns (tr @ tr') = returns tr @ returns tr'"
  by (induction tr rule: returns.induct) simp_all

lemma lins_effects: "lins tr = map snd (effects tr)"
  by (induction tr rule: effects.induct) simp_all

lemma effects_length: "length (effects tr) \<le> length tr"
  by (induction tr rule: effects.induct) simp_all

lemma Wrong_stays: "phase_step t Wrong e = Wrong"
  by (cases e) simp_all

text \<open>A call has taken effect once more often than it has returned exactly while its result is pending.\<close>

lemma effects_returns:
  "phase t tr \<noteq> Wrong \<Longrightarrow> c \<noteq> KeysCall \<Longrightarrow>
   Multiset.count (mset (effects tr)) (t, c, r) = Multiset.count (mset (returns tr)) (t, c, r) + (if phase t tr = Effected c r then 1 else 0)"
proof (induction tr rule: rev_induct)
  case Nil
  then show ?case by (simp add: phase_def)
next
  case (snoc e tr)
  have "phase t tr \<noteq> Wrong" using snoc.prems(1) Wrong_stays by (auto simp: phase_snoc)
  then show ?case using snoc by (cases e) (auto simp: phase_snoc split: if_splits)
qed

lemma mset_writes:
  "mset (List.map_filter write_of (map snd xs)) =
   image_mset (\<lambda>(t, cr). the (write_of cr)) (filter_mset (\<lambda>(t, c, r). write_of (c, r) \<noteq> None) (mset xs))"
  by (induction xs) (auto simp: List.map_filter_simps split: option.splits)

lemma write_not_keys: "write_of (c, r) \<noteq> None \<Longrightarrow> c \<noteq> KeysCall"
  by (cases c; cases r) auto

lemma returned_effects:
  assumes "\<forall>t. phase t tr \<noteq> Wrong"
  shows "mset (returned tr) \<subseteq># mset (List.map_filter write_of (lins tr))"
    "\<forall>t. phase t tr = Quiet \<Longrightarrow> mset (returned tr) = mset (List.map_filter write_of (lins tr))"
proof -
  let ?w = "filter_mset (\<lambda>(t, c, r). write_of (c, r) \<noteq> None)"
  have "Multiset.count (?w (mset (returns tr))) x \<le> Multiset.count (?w (mset (effects tr))) x" for x
    using effects_returns[of "fst x" tr "fst (snd x)" "snd (snd x)"] assms write_not_keys
    by (cases x) (auto simp: count_filter_mset)
  then have "?w (mset (returns tr)) \<subseteq># ?w (mset (effects tr))" by (rule mset_subset_eqI)
  then show "mset (returned tr) \<subseteq># mset (List.map_filter write_of (lins tr))"
    unfolding returned_def lins_effects mset_writes by (rule image_mset_subseteq_mono)
  assume q: "\<forall>t. phase t tr = Quiet"
  have "Multiset.count (?w (mset (returns tr))) x = Multiset.count (?w (mset (effects tr))) x" for x
    using effects_returns[of "fst x" tr "fst (snd x)" "snd (snd x)"] assms q write_not_keys
    by (cases x) (auto simp: count_filter_mset)
  then have "?w (mset (returns tr)) = ?w (mset (effects tr))" by (rule multiset_eqI)
  then show "mset (returned tr) = mset (List.map_filter write_of (lins tr))"
    unfolding returned_def lins_effects mset_writes by simp
qed

lemma seq_writes:
  assumes "seq_run st (map fst es) = Some (st', map snd es)"
  shows "write_all Write st (map fst (List.map_filter write_of es)) = Some (st', map snd (List.map_filter write_of es))"
  using assms
proof (induction es arbitrary: st)
  case (Cons cr es)
  obtain c r where cr: "cr = (c, r)" by (cases cr)
  then obtain st1 where s: "seq_call st c = Some (st1, r)" "seq_run st1 (map fst es) = Some (st', map snd es)"
    using Cons.prems by (auto split: option.splits prod.splits)
  show ?case
  proof (cases c)
    case (WriteCall opn)
    then obtain r' where "Write st opn = Some (st1, r')" "r = WriteRet r'" using s(1) by auto
    then show ?thesis using Cons.IH[OF s(2)] cr WriteCall by (simp add: List.map_filter_simps)
  qed (use Cons.IH[OF s(2)] s(1) cr in \<open>auto simp: List.map_filter_simps\<close>)
qed (simp add: List.map_filter_simps)

lemma exec_writes:
  assumes "New n = Inr st" "exec (initial n) tr s"
  obtains st' ws m where "write_all Write st (map fst ws) = Some (st', map snd ws)" "mset (returned tr) \<subseteq># mset ws"
    "length ws \<le> length tr" "(\<forall>t. thr s t = Idle) \<longrightarrow> mset (returned tr) = mset ws \<and> contents st' = m" "inv s m" "store_ok st'"
proof -
  obtain st' m where x: "seq_run st (map fst (lins tr)) = Some (st', map snd (lins tr))" "store_ok st'" "contents st' = m" "inv s m"
    "\<forall>t. phase t tr = pc_phase (sh s) (thr s t)" "\<forall>t. phase t tr \<noteq> Wrong" by (rule exec_sequential[OF assms])
  have "length (List.map_filter write_of (lins tr)) \<le> length (lins tr)" by (simp add: List.map_filter_def)
  also have "\<dots> \<le> length tr" using effects_length by (simp add: lins_effects)
  finally have len: "length (List.map_filter write_of (lins tr)) \<le> length tr" .
  have "(\<forall>t. thr s t = Idle) \<longrightarrow> mset (returned tr) = mset (List.map_filter write_of (lins tr)) \<and> contents st' = m"
    using returned_effects(2)[OF x(6)] x(3,5) by simp
  from that[OF seq_writes[OF x(1)] returned_effects(1)[OF x(6)] len this x(4,2)] show thesis .
qed

section \<open>Guards and versions under concurrency\<close>

lemma filter_returned:
  assumes "mset (returned tr) \<subseteq># mset ws"
  shows "length (filter P (returned tr)) \<le> length (filter P ws)"
proof -
  have "filter_mset P (mset (returned tr)) \<subseteq># filter_mset P (mset ws)" using assms by (rule multiset_filter_mono)
  from size_mset_mono[OF this] show ?thesis by (simp flip: mset_filter)
qed

lemma returned_successes:
  assumes "mset (returned tr) \<subseteq># mset ws" "successes P (map fst ws) (map snd ws) \<le> j"
  shows "length (filter (\<lambda>(opn, r). P opn \<and> is_ok r) (returned tr)) \<le> j"
  using filter_returned[OF assms(1), of "\<lambda>(opn, r). P opn \<and> is_ok r"] assms(2)
  by (simp add: successes_filter zip_map_fst_snd)

lemma distinct_subseteq_mset:
  assumes "mset xs \<subseteq># mset ys" "distinct ys"
  shows "distinct xs"
proof -
  obtain zs where "mset ys = mset (xs @ zs)" using assms(1) by (metis ex_mset mset_append mset_subset_eq_exists_conv)
  then show ?thesis using assms(2) by (metis distinct_append mset_eq_imp_distinct_iff)
qed

text \<open>
  C5. Guards decide between concurrent writers: however the calls interleave, of all writes to a key
  that carry the same \<open>ifVersion\<close> at most one is told that it succeeded, and of all create-only
  writes to a key at most one. Nobody's update is overwritten unseen.
\<close>

theorem guards_decide:
  assumes "New n = Inr st" "exec (initial n) tr s" "length tr \<le> 2 ^ 64"
  shows "length (filter (\<lambda>(opn, r). (Key opn = k \<and> IfVersion opn = Some v) \<and> is_ok r) (returned tr)) \<le> 1 \<and>
         length (filter (\<lambda>(opn, r). (Key opn = k \<and> IfAbsent opn) \<and> is_ok r) (returned tr)) \<le> 1"
proof -
  have ok: "store_ok st" using New_ok[OF assms(1)] by simp
  obtain st' ws where w: "write_all Write st (map fst ws) = Some (st', map snd ws)" "mset (returned tr) \<subseteq># mset ws"
    "length ws \<le> length tr" by (rule exec_writes[OF assms(1,2)])
  then have "length (map fst ws) \<le> 2 ^ 64" using assms(3) by simp
  from returned_successes[OF w(2) store.cas_once[OF ok w(1) this]] returned_successes[OF w(2) store.create_once[OF ok w(1)]]
  show ?thesis by blast
qed

text \<open>What the versions of the returned writes say, for use below and in \<open>Store_Counter\<close>.\<close>

lemma returned_versions:
  assumes "New n = Inr st" "exec (initial n) tr s" "length tr < 2 ^ 64"
  shows "distinct (won k (returned tr)) \<and>
    ((\<forall>t. thr s t = Idle) \<longrightarrow>
       (case lookup (sh s) k of None \<Rightarrow> won k (returned tr) = []
        | Some a \<Rightarrow> unat (e_version (cells (sh s) ! a)) = length (won k (returned tr))))"
proof -
  have ok: "store_ok st" and fresh: "Get st k = Some None" using New_ok[OF assms(1)] by (simp_all add: Get_contents)
  obtain st' ws m where w: "write_all Write st (map fst ws) = Some (st', map snd ws)" "mset (returned tr) \<subseteq># mset ws"
    "length ws \<le> length tr" "(\<forall>t. thr s t = Idle) \<longrightarrow> mset (returned tr) = mset ws \<and> contents st' = m" "inv s m" "store_ok st'"
    by (rule exec_writes[OF assms(1,2)])
  have "length (won k ws) \<le> length ws" by (simp add: won_def)
  then have len: "length (won k ws) < 2 ^ 64" using w(3) assms(3) by linarith
  have "won k ws = map (\<lambda>i. word_of_nat (Suc i)) [0..<length (won k ws)]"
    using store.versions_consecutive[OF ok w(1) fresh] by (simp add: zip_map_fst_snd version_of_def)
  from won_distinct[OF this len] have d: "distinct (won k ws)" .
  have "mset (won k (returned tr)) \<subseteq># mset (won k ws)"
    unfolding won_def mset_map mset_filter using w(2) by (intro image_mset_subseteq_mono multiset_filter_mono)
  with d have "distinct (won k (returned tr))" by (rule distinct_subseteq_mset[rotated])
  moreover have "case lookup (sh s) k of None \<Rightarrow> won k (returned tr) = []
        | Some a \<Rightarrow> unat (e_version (cells (sh s) ! a)) = length (won k (returned tr))" if idle: "\<forall>t. thr s t = Idle"
  proof -
    have c: "length (won k (returned tr)) = successes (\<lambda>opn. Key opn = k) (map fst ws) (map snd ws)"
      using w(4) idle by (simp add: won_def successes_filter zip_map_fst_snd) (metis mset_filter size_mset)
    have cur: "Get st' k = Some (m k)" using Get_contents[OF w(6)] w(4) idle by simp
    have "version_of (m k) = word_of_nat (length (won k (returned tr)))"
      using store.version_counts[OF ok w(1) fresh] cur c by (simp add: version_of_def)
    moreover have "length (won k (returned tr)) < 2 ^ 64"
      using len filter_returned[OF w(2), of "\<lambda>(opn, r). Key opn = k \<and> is_ok r"] by (simp add: won_def)
    ultimately have "unat (version_of (m k)) = length (won k (returned tr))" by (simp add: unat_of_nat64)
    moreover have "m k = None \<longleftrightarrow> length (won k (returned tr)) = 0"
      using store.fresh_key_exists[OF ok w(1) fresh cur] c by simp
    moreover have "m k = map_option (\<lambda>a. snapshot (cells (sh s) ! a)) (lookup (sh s) k)" by (rule quiet_memory[OF w(5) idle])
    ultimately show ?thesis by (simp add: version_of_def snapshot_def split: option.splits)
  qed
  ultimately show ?thesis by blast
qed

text \<open>
  C11. Versions under concurrency: the versions that successful writes to a key return are pairwise
  different, and when no call is in progress the key's version in memory is the number of its
  successful writes; a key without one does not exist. The bound excludes the wrap-around of the
  64-bit version.
\<close>

theorem versions_unique:
  assumes "New n = Inr st" "exec (initial n) tr s" "length tr < 2 ^ 64"
  shows "distinct (won k (returned tr)) \<and>
    ((\<forall>t. thr s t = Idle) \<longrightarrow>
       (case lookup (sh s) k of None \<Rightarrow> won k (returned tr) = []
        | Some a \<Rightarrow> unat (e_version (cells (sh s) ! a)) = length (won k (returned tr))))"
  by (rule returned_versions[OF assms])

lemma sample_returned:
  "map_option (\<lambda>(s, tr). (length tr, returned tr)) (run_sched sample_start sample_sched) =
   Some (4, [(sample_op, Inr \<lparr>Value = ''1'', Version = 1\<rparr>),
             (sample_op, Inl (VersionMismatch \<lparr>vm_Key = ''k'', Expected = 0, Current = 1, RequiredAbsent = True\<rparr>))])"
  by code_simp

lemma sample_finished:
  obtains st s tr where "New 4 = Inr st" "exec (initial 4) tr s" "length tr = 6"
    "returned tr = [(sample_op, Inr \<lparr>Value = ''1'', Version = 1\<rparr>),
       (sample_op, Inl (VersionMismatch \<lparr>vm_Key = ''k'', Expected = 0, Current = 1, RequiredAbsent = True\<rparr>))]"
proof -
  obtain st where st: "New 4 = Inr st" using New_4 by blast
  obtain s tr where r: "(length tr, returned tr) = (4, [(sample_op, Inr \<lparr>Value = ''1'', Version = 1\<rparr>),
       (sample_op, Inl (VersionMismatch \<lparr>vm_Key = ''k'', Expected = 0, Current = 1, RequiredAbsent = True\<rparr>))])"
    and e: "exec (initial 4) (Inv 0 (WriteCall sample_op) # Inv 1 (WriteCall sample_op) # tr) s"
    by (rule sample_run[OF sample_returned]) auto
  show thesis by (rule that[OF st e]) (use r in \<open>simp_all add: returned_def\<close>)
qed

theorem guards_decide_witness:
  "\<exists>s tr. exec (initial 4) tr s \<and> length (returned tr) = 2 \<and>
     length (filter (\<lambda>(opn, r). (Key opn = ''k'' \<and> IfAbsent opn) \<and> is_ok r) (returned tr)) \<le> 1"
proof -
  obtain st s tr where x: "New 4 = Inr st" "exec (initial 4) tr s" "length tr = 6"
    "returned tr = [(sample_op, Inr \<lparr>Value = ''1'', Version = 1\<rparr>),
       (sample_op, Inl (VersionMismatch \<lparr>vm_Key = ''k'', Expected = 0, Current = 1, RequiredAbsent = True\<rparr>))]"
    by (rule sample_finished)
  have "length tr \<le> 2 ^ 64" using x(3) by simp
  from guards_decide[OF x(1,2) this, of "''k''"] x(2,4) show ?thesis by (intro exI[of _ s] exI[of _ tr]) auto
qed

theorem versions_unique_witness:
  "\<exists>s tr. exec (initial 4) tr s \<and> won ''k'' (returned tr) = [1] \<and> distinct (won ''k'' (returned tr))"
proof -
  obtain st s tr where x: "New 4 = Inr st" "exec (initial 4) tr s" "length tr = 6"
    "returned tr = [(sample_op, Inr \<lparr>Value = ''1'', Version = 1\<rparr>),
       (sample_op, Inl (VersionMismatch \<lparr>vm_Key = ''k'', Expected = 0, Current = 1, RequiredAbsent = True\<rparr>))]"
    by (rule sample_finished)
  have "length tr < 2 ^ 64" using x(3) by simp
  from versions_unique[OF x(1,2) this, of "''k''"] x(2,4) show ?thesis
    by (intro exI[of _ s] exI[of _ tr]) (simp add: sample_op_def)
qed

end
