(* ===== verification/Store_Counter.thy ===== *)
theory Store_Counter
  imports Store_Cas
begin

text \<open>
  The counter of the conformance tests, for any update in place of the increment: clients that read a
  value, compute a new one and write it guarded by the version they read, and create the key with
  \<open>ifAbsent\<close>. However many they are and however their calls interleave, no update is lost.
\<close>

section \<open>Clients that compare and set\<close>

text \<open>The entry of a key that a call's result shows to its caller.\<close>

fun shows_entry :: "call \<Rightarrow> ret \<Rightarrow> (go_string \<times> Entry) option" where
  "shows_entry (GetCall key) (GetRet (Some e)) = Some (key, e)"
| "shows_entry (WriteCall opn) (WriteRet (Inr e)) = Some (Key opn, e)"
| "shows_entry c r = None"

definition known :: "go_string \<Rightarrow> Entry \<Rightarrow> event list \<Rightarrow> bool" where
  "known k e tr \<longleftrightarrow> (\<exists>t c r. (t, c, r) \<in> set (returns tr) \<and> shows_entry c r = Some (k, e))"

text \<open>
  A write to the key that creates it with \<open>x0\<close>, or replaces a value by its update \<open>f\<close>, guarded by
  the version that value was returned with.
\<close>

definition updates :: "(go_string \<Rightarrow> go_string) \<Rightarrow> go_string \<Rightarrow> (Entry \<Rightarrow> bool) \<Rightarrow> WriteOp \<Rightarrow> bool" where
  "updates f x0 P opn \<longleftrightarrow> op_Mode opn = ModeReplace \<and>
     (IfAbsent opn \<and> Body opn = x0 \<or> (\<exists>e. P e \<and> IfVersion opn = Some (Version e) \<and> Body opn = f (Value e)))"

definition compare_and_set :: "(go_string \<Rightarrow> go_string) \<Rightarrow> go_string \<Rightarrow> go_string \<Rightarrow> event list \<Rightarrow> bool" where
  "compare_and_set f x0 k tr \<longleftrightarrow>
     (\<forall>tr1 t opn tr2. tr = tr1 @ Inv t (WriteCall opn) # tr2 \<and> Key opn = k \<longrightarrow> updates f x0 (\<lambda>e. known k e tr1) opn)"

section \<open>The version determines the value\<close>

definition nth_value :: "(go_string \<Rightarrow> go_string) \<Rightarrow> go_string \<Rightarrow> Entry \<Rightarrow> bool" where
  "nth_value f x0 e \<longleftrightarrow> 0 < unat (Version e) \<and> Value e = (f ^^ (unat (Version e) - 1)) x0"

definition call_ok :: "(go_string \<Rightarrow> go_string) \<Rightarrow> go_string \<Rightarrow> go_string \<Rightarrow> call \<Rightarrow> bool" where
  "call_ok f x0 k c \<longleftrightarrow> (\<forall>opn. c = WriteCall opn \<and> Key opn = k \<longrightarrow> updates f x0 (nth_value f x0) opn)"

definition ret_ok :: "(go_string \<Rightarrow> go_string) \<Rightarrow> go_string \<Rightarrow> go_string \<Rightarrow> call \<Rightarrow> ret \<Rightarrow> bool" where
  "ret_ok f x0 k c r \<longleftrightarrow> (\<forall>e. shows_entry c r = Some (k, e) \<longrightarrow> nth_value f x0 e)"

definition cell_ok :: "(go_string \<Rightarrow> go_string) \<Rightarrow> go_string \<Rightarrow> nat \<Rightarrow> Entry option \<Rightarrow> bool" where
  "cell_ok f x0 n cur \<longleftrightarrow> (\<forall>e. cur = Some e \<longrightarrow> nth_value f x0 e \<and> unat (Version e) \<le> n)"

lemma update_applies:
  assumes "updates f x0 (nth_value f x0) opn" "cell_ok f x0 n cur" "guard_ok opn cur" "n < 2 ^ 64 - 1"
    "\<not> (IfAbsent opn \<and> IfVersion opn \<noteq> None)"
  shows "nth_value f x0 (apply_write opn cur) \<and> unat (Version (apply_write opn cur)) \<le> Suc n"
proof (cases cur)
  case None
  then have "IfVersion opn = None" using assms(3) by (auto simp: guard_ok_def)
  then have "Body opn = x0" using assms(1) by (auto simp: updates_def)
  then show ?thesis using None by (simp add: apply_write_def nth_value_def)
next
  case (Some e0)
  then have "\<not> IfAbsent opn" using assms(3) by (auto simp: guard_ok_def)
  then obtain e where e: "nth_value f x0 e" "IfVersion opn = Some (Version e)" "Body opn = f (Value e)" "op_Mode opn = ModeReplace"
    using assms(1) by (auto simp: updates_def)
  have v: "Version e0 = Version e" using assms(3) e(2) Some by (auto simp: guard_ok_def version_of_def)
  have "unat (Version e) \<le> n" using assms(2) Some v by (simp add: cell_ok_def)
  then have s: "unat (Version e + 1) = Suc (unat (Version e))"
    using assms(4) unat_add_lem[of "Version e" 1] by simp
  have "apply_write opn cur = \<lparr>Value = f (Value e), Version = Version e + 1\<rparr>" using Some e v by (simp add: apply_write_def)
  moreover have "f (Value e) = (f ^^ unat (Version e)) x0"
    using e(1) by (cases "unat (Version e)") (simp_all add: nth_value_def)
  ultimately show ?thesis using s \<open>unat (Version e) \<le> n\<close> by (simp add: nth_value_def)
qed

lemma takes_effect:
  assumes "spec_call m c = Some (m', r)" "call_ok f x0 k c" "cell_ok f x0 n (m k)" "n < 2 ^ 64 - 1"
  shows "ret_ok f x0 k c r \<and> cell_ok f x0 (Suc n) (m' k)"
proof (cases c)
  case (GetCall key)
  then show ?thesis using assms(1,3) by (cases "m key") (auto simp: ret_ok_def cell_ok_def)
next
  case (WriteCall opn)
  show ?thesis
  proof (cases "Key opn = k \<and> is_ok (snd (spec_write m opn))")
    case True
    then have g: "guard_ok opn (m k)" "\<not> (IfAbsent opn \<and> IfVersion opn \<noteq> None)"
      and w: "spec_write m opn = (m(k \<mapsto> apply_write opn (m k)), Inr (apply_write opn (m k)))"
      by (auto simp: spec_write_def split: if_splits)
    have "updates f x0 (nth_value f x0) opn" using assms(2) WriteCall True by (simp add: call_ok_def)
    from update_applies[OF this assms(3) g(1) assms(4) g(2)] show ?thesis
      using assms(1) WriteCall w True by (auto simp: ret_ok_def cell_ok_def)
  next
    case False
    then have "m' k = m k" "\<forall>e. shows_entry c r \<noteq> Some (k, e)"
      using assms(1) WriteCall by (auto simp: spec_write_def split: if_splits)
    then show ?thesis using assms(3) by (fastforce simp: ret_ok_def cell_ok_def)
  qed
qed (use assms(1) in simp)

section \<open>No update is lost\<close>

lemma phase_nil [simp]: "phase t [] = Quiet"
  by (simp add: phase_def)

text \<open>What is known of calls in progress, of results and of the key, at every point of a trace.\<close>

definition counting :: "(go_string \<Rightarrow> go_string) \<Rightarrow> go_string \<Rightarrow> go_string \<Rightarrow> event list \<Rightarrow> kv \<Rightarrow> bool" where
  "counting f x0 k tr m \<longleftrightarrow>
     (\<forall>t c. phase t tr = Called c \<longrightarrow> call_ok f x0 k c) \<and>
     (\<forall>t c r. phase t tr = Effected c r \<longrightarrow> ret_ok f x0 k c r) \<and>
     (\<forall>t c r. (t, c, r) \<in> set (returns tr) \<longrightarrow> ret_ok f x0 k c r) \<and>
     cell_ok f x0 (length tr) (m k)"

lemma compare_and_set_snoc:
  assumes "compare_and_set f x0 k (tr @ [e])"
  shows "compare_and_set f x0 k tr" "e = Inv t (WriteCall opn) \<Longrightarrow> Key opn = k \<Longrightarrow> updates f x0 (\<lambda>e. known k e tr) opn"
  using assms unfolding compare_and_set_def by fastforce+

lemma known_ok: "counting f x0 k tr m \<Longrightarrow> known k e tr \<Longrightarrow> nth_value f x0 e"
  unfolding counting_def known_def ret_ok_def by blast

lemma cell_ok_mono: "cell_ok f x0 n cur \<Longrightarrow> cell_ok f x0 (Suc n) cur"
  by (auto simp: cell_ok_def)

lemma counting_snoc:
  assumes "counting f x0 k tr m" "compare_and_set f x0 k (tr @ [e])" "legal m (lins [e]) = Some m'"
    "\<forall>t. phase t (tr @ [e]) \<noteq> Wrong" "length tr < 2 ^ 64 - 1"
  shows "counting f x0 k (tr @ [e]) m'"
proof (cases e)
  case (Inv t c)
  have "call_ok f x0 k c" unfolding call_ok_def
  proof (intro allI impI)
    fix opn assume c: "c = WriteCall opn \<and> Key opn = k"
    from compare_and_set_snoc(2)[OF assms(2), of t opn] Inv c have "updates f x0 (\<lambda>e. known k e tr) opn" by simp
    with known_ok[OF assms(1)] show "updates f x0 (nth_value f x0) opn" by (auto simp: updates_def)
  qed
  moreover have "m' = m" using assms(3) Inv by simp
  ultimately show ?thesis using assms(1) Inv cell_ok_mono
    by (auto simp: counting_def phase_snoc split: if_splits)
next
  case (Lin t c r)
  have ph: "phase t tr = Called c" using assms(4) Lin by (auto simp: phase_snoc split: if_splits)
  then have "call_ok f x0 k c" using assms(1) by (simp add: counting_def)
  moreover have "spec_call m c = Some (m', r)" using assms(3) Lin by (auto split: option.splits if_splits)
  ultimately have "ret_ok f x0 k c r \<and> cell_ok f x0 (Suc (length tr)) (m' k)"
    using takes_effect[of m c m' r f x0 k "length tr"] assms(1,5) by (simp add: counting_def)
  then show ?thesis using assms(1) Lin by (auto simp: counting_def phase_snoc split: if_splits)
next
  case (Ret t c r)
  have "phase t tr = Effected c r \<or> c = KeysCall" using spec[OF assms(4), of t] Ret by (auto simp: phase_snoc split: if_splits)
  then have "ret_ok f x0 k c r" using assms(1) by (auto simp: counting_def ret_ok_def)
  moreover have "m' = m" using assms(3) Ret by simp
  ultimately show ?thesis using assms(1) Ret cell_ok_mono
    by (auto simp: counting_def phase_snoc split: if_splits)
qed

lemma counting_trace:
  assumes "legal Map.empty (lins tr) = Some m" "compare_and_set f x0 k tr" "\<forall>t. phase t tr \<noteq> Wrong" "length tr < 2 ^ 64"
  shows "counting f x0 k tr m"
  using assms
proof (induction tr arbitrary: m rule: rev_induct)
  case Nil
  then show ?case by (auto simp: counting_def cell_ok_def)
next
  case (snoc e tr)
  obtain m0 where m0: "legal Map.empty (lins tr) = Some m0" "legal m0 (lins [e]) = Some m"
    using snoc.prems(1) by (auto simp: legal_append bind_eq_Some_conv)
  have "\<forall>t. phase t tr \<noteq> Wrong"
  proof (intro allI notI)
    fix t assume "phase t tr = Wrong"
    then have "phase t (tr @ [e]) = Wrong" by (simp add: phase_snoc Wrong_stays)
    with snoc.prems(3) show False by blast
  qed
  from snoc.IH[OF m0(1) compare_and_set_snoc(1)[OF snoc.prems(2)] this] snoc.prems(4)
  have "counting f x0 k tr m0" by simp
  from counting_snoc[OF this snoc.prems(2) m0(2) snoc.prems(3)] snoc.prems(4) show ?case by simp
qed

text \<open>
  C6. No update is lost: when every write to a key creates it with \<open>x0\<close> or replaces a value that the
  client was given by its update, guarded by the version it was given with, then after \<open>n\<close> successful writes,
  from however many clients and however interleaved, the key holds the \<open>n - 1\<close>-fold update of
  \<open>x0\<close>; a counter counts every success. Every entry a client is given on the way is such a value, too.
\<close>

theorem no_lost_updates:
  assumes "New n = Inr st" "exec (initial n) tr s" "compare_and_set f x0 k tr" "length tr < 2 ^ 64"
  shows "(\<forall>e. known k e tr \<longrightarrow> Value e = (f ^^ (unat (Version e) - 1)) x0) \<and>
    ((\<forall>t. thr s t = Idle) \<longrightarrow>
       (case lookup (sh s) k of None \<Rightarrow> won k (returned tr) = []
        | Some a \<Rightarrow> e_value (cells (sh s) ! a) = (f ^^ (length (won k (returned tr)) - 1)) x0))"
proof -
  obtain m where m: "legal Map.empty (lins tr) = Some m" "inv s m" "\<forall>t. phase t tr = pc_phase (sh s) (thr s t)"
    using exec_inv[OF assms(2) New_valid[OF assms(1)]] by blast
  obtain st' m' where "\<forall>t. phase t tr \<noteq> Wrong" by (rule exec_sequential[OF assms(1,2)])
  from counting_trace[OF m(1) assms(3) this assms(4)] have c: "counting f x0 k tr m" .
  have "case lookup (sh s) k of None \<Rightarrow> won k (returned tr) = []
      | Some a \<Rightarrow> e_value (cells (sh s) ! a) = (f ^^ (length (won k (returned tr)) - 1)) x0" if idle: "\<forall>t. thr s t = Idle"
  proof (cases "lookup (sh s) k")
    case None
    then show ?thesis using returned_versions[OF assms(1,2,4), of k] idle by simp
  next
    case (Some a)
    have "unat (e_version (cells (sh s) ! a)) = length (won k (returned tr))"
      using returned_versions[OF assms(1,2,4), of k] idle Some by simp
    moreover have "m k = Some (snapshot (cells (sh s) ! a))" using quiet_memory[OF m(2) idle, of k] Some by simp
    then have "nth_value f x0 (snapshot (cells (sh s) ! a))" using c by (simp add: counting_def cell_ok_def)
    ultimately show ?thesis using Some by (simp add: nth_value_def snapshot_def)
  qed
  then show ?thesis using known_ok[OF c] by (auto simp: nth_value_def)
qed

section \<open>An execution\<close>

text \<open>One client creates a list of one mark; two clients then add a mark to what it holds, at once.\<close>

definition sample_next :: WriteOp where
  "sample_next = \<lparr>Key = ''k'', Body = ''11'', op_Mode = ModeReplace, IfVersion = Some 1, IfAbsent = False\<rparr>"

abbreviation add_mark :: "go_string \<Rightarrow> go_string" where
  "add_mark v \<equiv> v @ ''1''"

lemma compare_and_set_nil: "compare_and_set f x0 k []"
  by (simp add: compare_and_set_def)

lemma compare_and_set_extend:
  assumes "compare_and_set f x0 k tr" "\<And>t opn. e = Inv t (WriteCall opn) \<Longrightarrow> Key opn = k \<Longrightarrow> updates f x0 (\<lambda>e. known k e tr) opn"
  shows "compare_and_set f x0 k (tr @ [e])"
  unfolding compare_and_set_def
proof (intro allI impI, elim conjE)
  fix tr1 t opn tr2 assume eq: "tr @ [e] = tr1 @ Inv t (WriteCall opn) # tr2" and k: "Key opn = k"
  show "updates f x0 (\<lambda>e. known k e tr1) opn"
  proof (cases tr2 rule: rev_cases)
    case Nil
    then have "tr = tr1" "e = Inv t (WriteCall opn)" using eq by simp_all
    with assms(2) k show ?thesis by simp
  next
    case (snoc tr3 e')
    then have "tr = tr1 @ Inv t (WriteCall opn) # tr3" using eq by simp
    with assms(1) k show ?thesis unfolding compare_and_set_def by blast
  qed
qed

lemma compare_and_set_no_calls:
  assumes "compare_and_set f x0 k tr" "\<forall>t c. Inv t c \<notin> set es"
  shows "compare_and_set f x0 k (tr @ es)"
  using assms
proof (induction es rule: rev_induct)
  case (snoc e es)
  then have "compare_and_set f x0 k (tr @ es)" by simp
  from compare_and_set_extend[OF this, of e] snoc.prems(2) show ?case by auto
qed simp

definition sample_first :: "event list" where
  "sample_first = [Inv 0 (WriteCall sample_op), Lin 0 (WriteCall sample_op) (WriteRet (Inr \<lparr>Value = ''1'', Version = 1\<rparr>)),
     Ret 0 (WriteCall sample_op) (WriteRet (Inr \<lparr>Value = ''1'', Version = 1\<rparr>))]"

definition sample_race :: "event list" where
  "sample_race =
     (let won = WriteRet (Inr \<lparr>Value = ''11'', Version = 2\<rparr>);
          lost = WriteRet (Inl (VersionMismatch \<lparr>vm_Key = ''k'', Expected = 1, Current = 2, RequiredAbsent = False\<rparr>)) in
      [Lin 0 (WriteCall sample_next) won, Ret 0 (WriteCall sample_next) won,
       Lin 1 (WriteCall sample_next) lost, Ret 1 (WriteCall sample_next) lost])"

lemma sample_cas:
  "compare_and_set add_mark ''1'' ''k'' (((sample_first @ [Inv 0 (WriteCall sample_next)]) @ [Inv 1 (WriteCall sample_next)]) @ sample_race)"
proof -
  have "compare_and_set add_mark ''1'' ''k'' ([] @ [Inv 0 (WriteCall sample_op)])"
    by (intro compare_and_set_extend compare_and_set_nil) (auto simp: updates_def sample_op_def)
  then have "compare_and_set add_mark ''1'' ''k'' (([] @ [Inv 0 (WriteCall sample_op)]) @ tl sample_first)"
    by (rule compare_and_set_no_calls) (simp add: sample_first_def)
  then have first: "compare_and_set add_mark ''1'' ''k'' sample_first" by (simp add: sample_first_def)
  have "known ''k'' \<lparr>Value = ''1'', Version = 1\<rparr> (sample_first @ es)" for es
    by (auto simp: known_def sample_first_def sample_op_def intro!: exI[of _ 0] exI[of _ "WriteCall sample_op"])
  then have u: "updates add_mark ''1'' (\<lambda>e. known ''k'' e (sample_first @ es)) sample_next" for es
    by (auto simp: updates_def sample_next_def intro!: exI[of _ "\<lparr>Value = ''1'', Version = 1\<rparr>"])
  have "compare_and_set add_mark ''1'' ''k'' (sample_first @ [Inv 0 (WriteCall sample_next)])"
    using u[of "[]"] by (intro compare_and_set_extend first) auto
  then have "compare_and_set add_mark ''1'' ''k'' ((sample_first @ [Inv 0 (WriteCall sample_next)]) @ [Inv 1 (WriteCall sample_next)])"
    by (rule compare_and_set_extend) (use u[of "[Inv 0 (WriteCall sample_next)]"] in auto)
  then show ?thesis by (rule compare_and_set_no_calls) (simp add: sample_race_def Let_def)
qed

lemma sample_counter:
  obtains s where "exec (initial 4) (((sample_first @ [Inv 0 (WriteCall sample_next)]) @ [Inv 1 (WriteCall sample_next)]) @ sample_race) s"
    "\<forall>t. thr s t = Idle" "lookup (sh s) ''k'' = Some 0"
proof -
  let ?go = "\<lambda>t opn s. s\<lparr>thr := (thr s)(t := enter (WriteCall opn))\<rparr>"
  let ?race = "replicate 4 0 @ replicate 4 1 @ replicate 8 0 @ replicate 5 1"
  have "map_option (\<lambda>(s, tr). (thr s 0, thr s 1, tr, map_option (\<lambda>(s, tr). (thr s 0, thr s 1, lookup (sh s) ''k'', tr))
      (run_sched (?go 1 sample_next (?go 0 sample_next s)) ?race))) (run_sched (?go 0 sample_op (initial 4)) (replicate 11 0)) =
    Some (Idle, Idle, tl sample_first, Some (Idle, Idle, Some 0, sample_race))" by code_simp
  then obtain s1 s2 where r1: "run_sched (?go 0 sample_op (initial 4)) (replicate 11 0) = Some (s1, tl sample_first)"
    and s1: "thr s1 0 = Idle" "thr s1 1 = Idle"
    and r2: "run_sched (?go 1 sample_next (?go 0 sample_next s1)) ?race = Some (s2, sample_race)"
    and s2: "thr s2 0 = Idle" "thr s2 1 = Idle" "lookup (sh s2) ''k'' = Some 0" by auto
  have "exec (initial 4) ([] @ [Inv 0 (WriteCall sample_op)]) (?go 0 sample_op (initial 4))"
    by (intro exec_call exec_start) (simp add: initial_def)
  from run_sched_exec[OF this r1] have e1: "exec (initial 4) sample_first s1" by (simp add: sample_first_def)
  have "thr (?go 0 sample_next s1) 1 = Idle" using s1(2) by simp
  from run_sched_exec[OF exec_call[OF exec_call[OF e1 s1(1)] this] r2]
  have "exec (initial 4) (((sample_first @ [Inv 0 (WriteCall sample_next)]) @ [Inv 1 (WriteCall sample_next)]) @ sample_race) s2" .
  moreover have "thr s2 t = Idle" for t
  proof (cases "t \<in> {0, 1}")
    case False
    then have "thr s2 t = thr s1 t" "thr s1 t = Idle"
      using run_sched_others[OF r2, of t] run_sched_others[OF r1, of t] by (simp_all add: initial_def)
    then show ?thesis by simp
  qed (use s2 in auto)
  ultimately show thesis using that s2(3) by blast
qed

theorem no_lost_updates_witness:
  "\<exists>st tr s. New 4 = Inr st \<and> exec (initial 4) tr s \<and> won ''k'' (returned tr) = [1, 2] \<and> lookup (sh s) ''k'' = Some 0 \<and>
     e_value (cells (sh s) ! 0) = ''11''"
proof -
  let ?tr = "((sample_first @ [Inv 0 (WriteCall sample_next)]) @ [Inv 1 (WriteCall sample_next)]) @ sample_race"
  obtain st where st: "New 4 = Inr st" using New_4 by blast
  obtain s where s: "exec (initial 4) ?tr s" "\<forall>t. thr s t = Idle" "lookup (sh s) ''k'' = Some 0" by (rule sample_counter)
  have w: "won ''k'' (returned ?tr) = [1, 2]" by code_simp
  have "length ?tr < 2 ^ 64" by (simp add: sample_first_def sample_race_def Let_def)
  from no_lost_updates[OF st s(1) sample_cas this] s(2,3) w have "e_value (cells (sh s) ! 0) = ''11''" by simp
  then show ?thesis using st s(1,3) w by blast
qed

end
