(* ===== verification/Store_Aliasing.thy ===== *)
theory Store_Aliasing
  imports Kv_Store
begin

text \<open>
  The store over memory. A \<open>json.RawMessage\<close> is a slice of an array that others may hold as well: the
  body of a request is the caller's buffer, and the value in a snapshot shares its array with the
  store's own copy. Here the store and the merge run over an explicit heap of byte arrays, which
  makes \<open>clone\<close>, the identity in \<open>Kv_Store\<close>, what it is in the code: the reason why a published
  value is never changed, neither by a later write nor by the caller who reuses a buffer.
\<close>

section \<open>Slices\<close>

type_synonym heap = "go_string list"

record slice =
  sl_array :: nat
  sl_off :: nat
  sl_len :: nat

definition bytes :: "heap \<Rightarrow> slice \<Rightarrow> go_string" where
  "bytes h b = take (sl_len b) (drop (sl_off b) (h ! sl_array b))"

definition in_heap :: "heap \<Rightarrow> slice \<Rightarrow> bool" where
  "in_heap h b \<longleftrightarrow> sl_array b < length h \<and> sl_off b + sl_len b \<le> length (h ! sl_array b)"

text \<open>A new array with these contents, and the slice of all of it.\<close>

definition fresh :: "heap \<Rightarrow> go_string \<Rightarrow> heap \<times> slice" where
  "fresh h bs = (h @ [bs], \<lparr>sl_array = length h, sl_off = 0, sl_len = length bs\<rparr>)"

section \<open>The merge\<close>

definition clone_mem :: "heap \<Rightarrow> slice \<Rightarrow> heap \<times> slice" where
  "clone_mem h b = fresh h (bytes h b)"

text \<open>Decoding allocates the value of every member: \<open>RawMessage.UnmarshalJSON\<close> copies.\<close>

fun alloc_members :: "heap \<Rightarrow> object \<Rightarrow> heap \<times> (go_string \<times> slice) list" where
  "alloc_members h [] = (h, [])"
| "alloc_members h ((k, v) # m) =
     (case fresh h v of (h1, b) \<Rightarrow> case alloc_members h1 m of (h2, bs) \<Rightarrow> (h2, (k, b) # bs))"

definition asObject_mem :: "heap \<Rightarrow> slice \<Rightarrow> heap \<times> (go_string \<times> slice) list option" where
  "asObject_mem h raw =
     (case asObject (bytes h raw) of
        None \<Rightarrow> (h, None)
      | Some m \<Rightarrow> (case alloc_members h m of (h', bs) \<Rightarrow> (h', Some bs)))"

fun merge_into_mem :: "(go_string \<times> slice) list \<Rightarrow> (go_string \<times> slice) list \<Rightarrow> (go_string \<times> slice) list" where
  "merge_into_mem curObj [] = curObj"
| "merge_into_mem curObj ((k, b) # delObj) = merge_into_mem (AList.update k b curObj) delObj"

definition members :: "heap \<Rightarrow> (go_string \<times> slice) list \<Rightarrow> object" where
  "members h = map (\<lambda>(k, b). (k, bytes h b))"

definition Apply_mem :: "heap \<Rightarrow> slice \<Rightarrow> slice \<Rightarrow> heap \<times> slice" where
  "Apply_mem h current delta =
     (case asObject_mem h current of (h1, curObj) \<Rightarrow>
      case asObject_mem h1 delta of (h2, delObj) \<Rightarrow>
        (case (curObj, delObj) of
           (Some cur, Some del) \<Rightarrow>
             (case Marshal_map (members h2 (merge_into_mem cur del)) of
                None \<Rightarrow> clone_mem h2 delta
              | Some merged \<Rightarrow> fresh h2 merged)
         | _ \<Rightarrow> clone_mem h2 delta))"

section \<open>The store\<close>

record entry_mem =
  em_value :: slice
  em_version :: uint64

record Store_mem =
  sm_parts :: "(go_string \<times> entry_mem) list list"
  sm_partitionCount :: go_int

record WriteOp_mem =
  om_Key :: go_string
  om_Body :: slice
  om_Mode :: Mode
  om_IfVersion :: "uint64 option"
  om_IfAbsent :: bool

record Entry_mem =
  Value_mem :: slice
  Version_mem :: uint64

definition compute_mem :: "heap \<Rightarrow> slice \<Rightarrow> WriteOp_mem \<Rightarrow> heap \<times> slice" where
  "compute_mem h current opn =
     (if om_Mode opn = ModeMerge then Apply_mem h current (om_Body opn) else clone_mem h (om_Body opn))"

definition snapshot_mem :: "entry_mem \<Rightarrow> Entry_mem" where
  "snapshot_mem e = \<lparr>Value_mem = em_value e, Version_mem = em_version e\<rparr>"

definition bump_mem :: "heap \<Rightarrow> WriteOp_mem \<Rightarrow> entry_mem \<Rightarrow> heap \<times> entry_mem" where
  "bump_mem h opn e =
     (case compute_mem h (em_value e) opn of (h', b) \<Rightarrow> (h', \<lparr>em_value = b, em_version = em_version e + 1\<rparr>))"

definition write_existing_mem :: "heap \<Rightarrow> WriteOp_mem \<Rightarrow> entry_mem \<Rightarrow> store_error + heap \<times> entry_mem" where
  "write_existing_mem h opn e =
     (if om_IfAbsent opn
      then Inl (VersionMismatch \<lparr>vm_Key = om_Key opn, Expected = 0, Current = em_version e, RequiredAbsent = True\<rparr>)
      else case om_IfVersion opn of
        Some v \<Rightarrow>
          if v \<noteq> em_version e
          then Inl (VersionMismatch \<lparr>vm_Key = om_Key opn, Expected = v, Current = em_version e, RequiredAbsent = False\<rparr>)
          else Inr (bump_mem h opn e)
      | None \<Rightarrow> Inr (bump_mem h opn e))"

definition write_new_mem :: "heap \<Rightarrow> WriteOp_mem \<Rightarrow> store_error + heap \<times> entry_mem" where
  "write_new_mem h opn =
     (case om_IfVersion opn of
        Some v \<Rightarrow> Inl (VersionMismatch \<lparr>vm_Key = om_Key opn, Expected = v, Current = 0, RequiredAbsent = False\<rparr>)
      | None \<Rightarrow> (case clone_mem h (om_Body opn) of (h', b) \<Rightarrow> Inr (h', \<lparr>em_value = b, em_version = FirstVersion\<rparr>)))"

definition put_entry_mem :: "Store_mem \<Rightarrow> nat \<Rightarrow> go_string \<Rightarrow> entry_mem \<Rightarrow> Store_mem" where
  "put_entry_mem s i key e = s\<lparr>sm_parts := (sm_parts s)[i := AList.update key e (sm_parts s ! i)]\<rparr>"

definition Get_mem :: "Store_mem \<Rightarrow> go_string \<Rightarrow> Entry_mem option option" where
  "Get_mem s key =
     (let i = unat (Partition key (sm_partitionCount s)) in
      if length (sm_parts s) \<le> i then None else Some (map_option snapshot_mem (map_of (sm_parts s ! i) key)))"

definition Write_mem ::
    "heap \<Rightarrow> Store_mem \<Rightarrow> WriteOp_mem \<Rightarrow> ((heap \<times> Store_mem) \<times> (store_error + Entry_mem)) option" where
  "Write_mem h s opn =
     (if om_IfAbsent opn \<and> om_IfVersion opn \<noteq> None then Some ((h, s), Inl ErrConflictingGuards)
      else let i = unat (Partition (om_Key opn) (sm_partitionCount s)) in
        if length (sm_parts s) \<le> i then None
        else Some
          (case (case map_of (sm_parts s ! i) (om_Key opn) of
                   Some e \<Rightarrow> write_existing_mem h opn e
                 | None \<Rightarrow> write_new_mem h opn) of
             Inl err \<Rightarrow> ((h, s), Inl err)
           | Inr (h', e') \<Rightarrow> ((h', put_entry_mem s i (om_Key opn) e'), Inr (snapshot_mem e'))))"

section \<open>Reading memory\<close>

definition read_entry :: "heap \<Rightarrow> entry_mem \<Rightarrow> entry" where
  "read_entry h e = \<lparr>e_value = bytes h (em_value e), e_version = em_version e\<rparr>"

definition read_store :: "heap \<Rightarrow> Store_mem \<Rightarrow> Store" where
  "read_store h s = \<lparr>parts = map (\<lambda>m. \<lparr>part_m = map (\<lambda>(k, e). (k, read_entry h e)) m\<rparr>) (sm_parts s),
     store_partitionCount = sm_partitionCount s\<rparr>"

definition read_op :: "heap \<Rightarrow> WriteOp_mem \<Rightarrow> WriteOp" where
  "read_op h opn = \<lparr>Key = om_Key opn, Body = bytes h (om_Body opn), op_Mode = om_Mode opn,
     IfVersion = om_IfVersion opn, IfAbsent = om_IfAbsent opn\<rparr>"

definition read_snapshot :: "heap \<Rightarrow> Entry_mem \<Rightarrow> Entry" where
  "read_snapshot h e = \<lparr>Value = bytes h (Value_mem e), Version = Version_mem e\<rparr>"

definition store_slices :: "Store_mem \<Rightarrow> slice set" where
  "store_slices s = {em_value e | e. \<exists>m \<in> set (sm_parts s). e \<in> snd ` set m}"

lemma bytes_append [simp]: "in_heap h b \<Longrightarrow> bytes (h @ h') b = bytes h b"
  by (simp add: bytes_def in_heap_def nth_append)

lemma in_heap_append [simp]: "in_heap h b \<Longrightarrow> in_heap (h @ h') b"
  by (simp add: in_heap_def nth_append)

lemma bytes_scribble: "sl_array b \<noteq> a \<Longrightarrow> bytes (h[a := bs]) b = bytes h b"
  by (simp add: bytes_def)

lemma in_heap_scribble: "in_heap h b \<Longrightarrow> length bs = length (h ! a) \<Longrightarrow> in_heap (h[a := bs]) b"
  by (cases "sl_array b = a") (auto simp: in_heap_def)

text \<open>
  Every allocating operation keeps what is in the heap, and returns a slice of a new array with the
  bytes that the operation on values computes.
\<close>

definition allocates :: "heap \<Rightarrow> go_string \<Rightarrow> heap \<times> slice \<Rightarrow> bool" where
  "allocates h bs r \<longleftrightarrow> (\<exists>h'. fst r = h @ h') \<and> length h \<le> sl_array (snd r) \<and> in_heap (fst r) (snd r) \<and> bytes (fst r) (snd r) = bs"

lemma fresh_allocates: "allocates h bs (fresh h bs)"
  by (simp add: allocates_def fresh_def in_heap_def bytes_def)

lemma allocates_later: "allocates (h @ h1) bs r \<Longrightarrow> allocates h bs r"
  by (auto simp: allocates_def)

lemma clone_allocates: "allocates h (clone (bytes h b)) (clone_mem h b)"
  by (simp add: clone_def clone_mem_def fresh_allocates)

lemma update_map_values:
  "AList.update k (f e) (map (\<lambda>(k, e). (k, f e)) m) = map (\<lambda>(k, e). (k, f e)) (AList.update k e m)"
  by (induction m) auto

lemma update_values: "snd ` set (AList.update k e m) \<subseteq> insert e (snd ` set m)"
  by (induction m) auto

lemma map_of_map_values: "map_of (map (\<lambda>(k, e). (k, f e)) m) k = map_option f (map_of m k)"
  by (induction m) auto

lemma members_append: "\<forall>b \<in> snd ` set bs. in_heap h b \<Longrightarrow> members (h @ h') bs = members h bs"
  by (auto simp: members_def)

lemma merge_into_members: "members h (merge_into_mem cur del) = merge_into (members h cur) (members h del)"
  by (induction cur del rule: merge_into_mem.induct) (simp_all add: members_def flip: update_map_values)

lemma alloc_members_ok:
  assumes "alloc_members h m = (h', bs)"
  shows "(\<exists>x. h' = h @ x) \<and> (\<forall>b \<in> snd ` set bs. in_heap h' b) \<and> members h' bs = m"
  using assms
proof (induction h m arbitrary: h' bs rule: alloc_members.induct)
  case (2 h k v m)
  obtain h1 b where b: "fresh h v = (h1, b)" by (cases "fresh h v")
  then obtain bs' where bs: "alloc_members h1 m = (h', bs')" "bs = (k, b) # bs'"
    using "2.prems" by (auto split: prod.splits)
  note IH = "2.IH"[OF b[symmetric] bs(1)]
  have f: "\<exists>x. h1 = h @ x" "in_heap h1 b" "bytes h1 b = v" using fresh_allocates[of h v] b by (auto simp: allocates_def)
  obtain y where y: "h' = h1 @ y" using IH by blast
  have "in_heap h' b" "bytes h' b = v" using f(2,3) unfolding y by simp_all
  moreover have "\<exists>x. h' = h @ x" using f(1) y by auto
  ultimately show ?case using IH bs(2) by (simp add: members_def)
qed (simp add: members_def)

lemma asObject_mem_ok:
  assumes "asObject_mem h raw = (h', obj)"
  shows "(\<exists>x. h' = h @ x) \<and> (\<forall>bs. obj = Some bs \<longrightarrow> (\<forall>b \<in> snd ` set bs. in_heap h' b)) \<and>
         map_option (members h') obj = asObject (bytes h raw)"
proof (cases "asObject (bytes h raw)")
  case (Some m)
  obtain bs where bs: "alloc_members h m = (h', bs)" "obj = Some bs" using assms Some by (auto simp: asObject_mem_def split: prod.splits)
  from alloc_members_ok[OF bs(1)] bs(2) Some show ?thesis by auto
qed (use assms in \<open>auto simp: asObject_mem_def\<close>)

lemma Apply_allocates:
  assumes "in_heap h current" "in_heap h delta"
  shows "allocates h (Apply (bytes h current) (bytes h delta)) (Apply_mem h current delta)"
proof -
  obtain h1 co where 1: "asObject_mem h current = (h1, co)" by (cases "asObject_mem h current")
  obtain h2 dl where 2: "asObject_mem h1 delta = (h2, dl)" by (cases "asObject_mem h1 delta")
  note a1 = asObject_mem_ok[OF 1] and a2 = asObject_mem_ok[OF 2]
  obtain x1 x2 where x: "h1 = h @ x1" "h2 = h1 @ x2" using a1 a2 by auto
  then have d: "bytes h1 delta = bytes h delta" "bytes h2 delta = bytes h delta" using assms(2) by simp_all
  then have cl: "allocates h (clone (bytes h delta)) (clone_mem h2 delta)"
    using clone_allocates[of h2 delta] x allocates_later[of h "x1 @ x2"] by simp
  show ?thesis
  proof (cases "\<exists>cs ds. co = Some cs \<and> dl = Some ds")
    case True
    then obtain cs ds where o: "co = Some cs" "dl = Some ds" by blast
    have "members h2 cs = members h1 cs" using a1 o(1) members_append[of cs h1 x2] unfolding x(2) by simp
    then have m: "members h2 (merge_into_mem cs ds) = merge_into (members h1 cs) (members h2 ds)" by (simp add: merge_into_members)
    have as: "asObject (bytes h current) = Some (members h1 cs)" "asObject (bytes h delta) = Some (members h2 ds)"
      using a1 a2 o d(1) by simp_all
    have f: "allocates h bs (fresh h2 bs)" for bs using fresh_allocates[of h2 bs] x allocates_later[of h "x1 @ x2"] by simp
    show ?thesis
    proof (cases "Marshal_map (merge_into (members h1 cs) (members h2 ds))")
      case None
      then show ?thesis using cl m as o 1 2 by (simp add: Apply_mem_def Apply_def)
    next
      case (Some bs)
      then show ?thesis using f[of bs] m as o 1 2 by (simp add: Apply_mem_def Apply_def)
    qed
  next
    case False
    then have "asObject (bytes h current) = None \<or> asObject (bytes h delta) = None" using a1 a2 d(1) by (cases co; cases dl) auto
    then have "Apply (bytes h current) (bytes h delta) = clone (bytes h delta)" by (auto simp: Apply_def split: option.split)
    moreover have "Apply_mem h current delta = clone_mem h2 delta" using 1 2 False by (auto simp: Apply_mem_def split: option.split)
    ultimately show ?thesis using cl by simp
  qed
qed

lemma compute_allocates:
  assumes "in_heap h current" "in_heap h (om_Body opn)"
  shows "allocates h (compute (bytes h current) (read_op h opn)) (compute_mem h current opn)"
  using Apply_allocates[OF assms] clone_allocates by (simp add: compute_def compute_mem_def read_op_def)

section \<open>Refinement\<close>

definition stored_in :: "heap \<Rightarrow> Store_mem \<Rightarrow> bool" where
  "stored_in h s \<longleftrightarrow> (\<forall>b \<in> store_slices s. in_heap h b)"

text \<open>A new entry refines one of \<open>Kv_Store\<close>, and its value is in an array that did not exist before.\<close>

definition refines_entry :: "heap \<Rightarrow> store_error + entry \<Rightarrow> store_error + heap \<times> entry_mem \<Rightarrow> bool" where
  "refines_entry h r rm \<longleftrightarrow> r = map_sum id (\<lambda>(h', e'). read_entry h' e') rm \<and>
     (\<forall>h' e'. rm = Inr (h', e') \<longrightarrow> (\<exists>x. h' = h @ x) \<and> length h \<le> sl_array (em_value e') \<and> in_heap h' (em_value e'))"

lemma refines_entry_allocates:
  assumes "allocates h bs (h', b)"
  shows "refines_entry h (Inr \<lparr>e_value = bs, e_version = v\<rparr>) (Inr (h', \<lparr>em_value = b, em_version = v\<rparr>))"
  using assms by (auto simp: refines_entry_def allocates_def read_entry_def)

lemma write_new_refines: "refines_entry h (write_new (read_op h opn)) (write_new_mem h opn)"
proof (cases "om_IfVersion opn")
  case None
  obtain h' b where "clone_mem h (om_Body opn) = (h', b)" by (cases "clone_mem h (om_Body opn)")
  with refines_entry_allocates[of h _ h' b FirstVersion] clone_allocates[of h "om_Body opn"] None show ?thesis
    by (simp add: write_new_def write_new_mem_def read_op_def)
qed (simp add: write_new_def write_new_mem_def read_op_def refines_entry_def)

lemma bump_refines:
  assumes "in_heap h (em_value e)" "in_heap h (om_Body opn)"
  shows "refines_entry h (Inr \<lparr>e_value = compute (bytes h (em_value e)) (read_op h opn), e_version = em_version e + 1\<rparr>)
    (Inr (bump_mem h opn e))"
proof -
  obtain h' b where "compute_mem h (em_value e) opn = (h', b)" by (cases "compute_mem h (em_value e) opn")
  with compute_allocates[OF assms] refines_entry_allocates show ?thesis by (simp add: bump_mem_def)
qed

lemma write_existing_refines:
  assumes "in_heap h (em_value e)" "in_heap h (om_Body opn)"
  shows "refines_entry h (write_existing (read_op h opn) (read_entry h e)) (write_existing_mem h opn e)"
proof (cases "om_IfAbsent opn \<or> (\<exists>v. om_IfVersion opn = Some v \<and> v \<noteq> em_version e)")
  case True
  then show ?thesis
    by (auto simp: write_existing_def write_existing_mem_def read_entry_def read_op_def refines_entry_def)
next
  case False
  then have "write_existing_mem h opn e = Inr (bump_mem h opn e)"
    "write_existing (read_op h opn) (read_entry h e) =
      Inr \<lparr>e_value = compute (bytes h (em_value e)) (read_op h opn), e_version = em_version e + 1\<rparr>"
    by (auto simp: write_existing_def write_existing_mem_def read_entry_def read_op_def split: option.split)
  with bump_refines[OF assms] show ?thesis by simp
qed

lemma store_slicesI: "m \<in> set (sm_parts s) \<Longrightarrow> (k, e) \<in> set m \<Longrightarrow> em_value e \<in> store_slices s"
  unfolding store_slices_def by force

lemma store_slices_part: "i < length (sm_parts s) \<Longrightarrow> map_of (sm_parts s ! i) k = Some e \<Longrightarrow> em_value e \<in> store_slices s"
  by (rule store_slicesI[OF nth_mem map_of_SomeD])

lemma read_store_append:
  assumes "stored_in h s"
  shows "read_store (h @ x) s = read_store h s"
proof -
  have "read_entry (h @ x) e = read_entry h e" if "m \<in> set (sm_parts s)" "(k, e) \<in> set m" for m k e
  proof -
    have "em_value e \<in> store_slices s" by (rule store_slicesI[OF that])
    then show ?thesis using assms by (simp add: stored_in_def read_entry_def)
  qed
  then show ?thesis by (auto simp: read_store_def)
qed

lemma put_entry_read:
  "i < length (sm_parts s) \<Longrightarrow> put_entry (read_store h s) i k (read_entry h e) = read_store h (put_entry_mem s i k e)"
  by (simp add: put_entry_def read_store_def put_entry_mem_def map_update flip: update_map_values)

lemma store_slices_put:
  assumes "i < length (sm_parts s)"
  shows "store_slices (put_entry_mem s i k e) \<subseteq> insert (em_value e) (store_slices s)"
proof
  fix b assume "b \<in> store_slices (put_entry_mem s i k e)"
  then obtain m e' where m: "m \<in> set ((sm_parts s)[i := AList.update k e (sm_parts s ! i)])" "e' \<in> snd ` set m" "b = em_value e'"
    by (auto simp: store_slices_def put_entry_mem_def)
  note update_values[of k e "sm_parts s ! i"]
  with m show "b \<in> insert (em_value e) (store_slices s)"
    using set_update_subset_insert[of "sm_parts s" i] nth_mem[OF assms] unfolding store_slices_def by fast
qed

lemma new_entry_refines:
  assumes "stored_in h s" "in_heap h (om_Body opn)" "i < length (sm_parts s)"
  shows "refines_entry h
    (case map_of (part_m (parts (read_store h s) ! i)) (om_Key opn) of
       Some e \<Rightarrow> write_existing (read_op h opn) e | None \<Rightarrow> write_new (read_op h opn))
    (case map_of (sm_parts s ! i) (om_Key opn) of Some e \<Rightarrow> write_existing_mem h opn e | None \<Rightarrow> write_new_mem h opn)"
proof (cases "map_of (sm_parts s ! i) (om_Key opn)")
  case None
  then show ?thesis using write_new_refines assms(3) by (simp add: read_store_def map_of_map_values)
next
  case (Some e)
  then have "in_heap h (em_value e)" using store_slices_part[OF assms(3)] assms(1) by (simp add: stored_in_def)
  from write_existing_refines[OF this assms(2)] Some assms(3) show ?thesis by (simp add: read_store_def map_of_map_values)
qed

text \<open>The code over memory gives what \<open>Kv_Store.Write\<close> gives for the bytes in memory.\<close>

lemma Write_mem_refines:
  assumes "stored_in h s" "in_heap h (om_Body opn)"
  shows "Write (read_store h s) (read_op h opn) =
    map_option (\<lambda>((h', s'), r). (read_store h' s', map_sum id (read_snapshot h') r)) (Write_mem h s opn)"
proof -
  let ?i = "unat (Partition (om_Key opn) (sm_partitionCount s))"
  have op: "Key (read_op h opn) = om_Key opn" "IfAbsent (read_op h opn) = om_IfAbsent opn" "IfVersion (read_op h opn) = om_IfVersion opn"
    by (simp_all add: read_op_def)
  have i: "partitionFor (read_store h s) (om_Key opn) = ?i" "length (parts (read_store h s)) = length (sm_parts s)"
    by (simp_all add: partitionFor_def read_store_def)
  show ?thesis
  proof (cases "om_IfAbsent opn \<and> om_IfVersion opn \<noteq> None \<or> length (sm_parts s) \<le> ?i")
    case True
    then show ?thesis using op i by (auto simp: Write_def Write_mem_def)
  next
    case False
    then have lt: "?i < length (sm_parts s)" by simp
    let ?r = "case map_of (part_m (parts (read_store h s) ! ?i)) (om_Key opn) of
       Some e \<Rightarrow> write_existing (read_op h opn) e | None \<Rightarrow> write_new (read_op h opn)"
    let ?rm = "case map_of (sm_parts s ! ?i) (om_Key opn) of Some e \<Rightarrow> write_existing_mem h opn e | None \<Rightarrow> write_new_mem h opn"
    have r: "refines_entry h ?r ?rm" by (rule new_entry_refines[OF assms lt])
    have w: "Write (read_store h s) (read_op h opn) = Some (case ?r of Inl err \<Rightarrow> (read_store h s, Inl err)
        | Inr e' \<Rightarrow> (put_entry (read_store h s) ?i (om_Key opn) e', Inr (snapshot e')))"
      "Write_mem h s opn = Some (case ?rm of Inl err \<Rightarrow> ((h, s), Inl err)
        | Inr (h', e') \<Rightarrow> ((h', put_entry_mem s ?i (om_Key opn) e'), Inr (snapshot_mem e')))"
      unfolding Write_def Write_mem_def op i Let_def using False by auto
    show ?thesis
    proof (cases ?rm)
      case (Inl err)
      then show ?thesis using r w by (simp add: refines_entry_def)
    next
      case (Inr he)
      obtain h' e' where he: "he = (h', e')" by (cases he)
      then obtain x where "h' = h @ x" using r Inr unfolding refines_entry_def by blast
      then have "read_store h' s = read_store h s" using read_store_append[OF assms(1)] by simp
      then have "put_entry (read_store h s) ?i (om_Key opn) (read_entry h' e') = read_store h' (put_entry_mem s ?i (om_Key opn) e')"
        using put_entry_read[OF lt, of h'] by simp
      then show ?thesis using r w Inr he
        by (simp add: refines_entry_def snapshot_def snapshot_mem_def read_snapshot_def read_entry_def)
    qed
  qed
qed

text \<open>Its effect on memory: arrays are only added, and everything it stores or returns is in a new one.\<close>

lemma Write_mem_effect:
  assumes "stored_in h s" "in_heap h (om_Body opn)" "Write_mem h s opn = Some ((h', s'), r)"
  shows "(\<exists>x. h' = h @ x) \<and> stored_in h' s' \<and> (\<forall>b \<in> store_slices s'. b \<in> store_slices s \<or> length h \<le> sl_array b) \<and>
    (\<forall>e. r = Inr e \<longrightarrow> in_heap h' (Value_mem e) \<and> length h \<le> sl_array (Value_mem e))"
proof -
  define i where "i = unat (Partition (om_Key opn) (sm_partitionCount s))"
  define rm where "rm = (case map_of (sm_parts s ! i) (om_Key opn) of Some e \<Rightarrow> write_existing_mem h opn e | None \<Rightarrow> write_new_mem h opn)"
  have W: "Write_mem h s opn =
     (if om_IfAbsent opn \<and> om_IfVersion opn \<noteq> None then Some ((h, s), Inl ErrConflictingGuards)
      else if length (sm_parts s) \<le> i then None
      else Some (case rm of Inl err \<Rightarrow> ((h, s), Inl err)
        | Inr (h', e') \<Rightarrow> ((h', put_entry_mem s i (om_Key opn) e'), Inr (snapshot_mem e'))))"
    unfolding Write_mem_def rm_def i_def Let_def ..
  have "(h' = h \<and> s' = s \<and> (\<exists>err. r = Inl err)) \<or>
    (\<exists>e'. i < length (sm_parts s) \<and> rm = Inr (h', e') \<and> s' = put_entry_mem s i (om_Key opn) e' \<and> r = Inr (snapshot_mem e'))"
    using assms(3) unfolding W by (simp split: if_splits sum.splits prod.splits) (metis, metis)
  then consider "h' = h" "s' = s" "\<exists>err. r = Inl err"
    | e' where "i < length (sm_parts s)" "rm = Inr (h', e')" "s' = put_entry_mem s i (om_Key opn) e'" "r = Inr (snapshot_mem e')"
    by blast
  then show ?thesis
  proof cases
    case 1
    then show ?thesis using assms(1) by auto
  next
    case (2 e')
    have e': "\<exists>x. h' = h @ x" "length h \<le> sl_array (em_value e')" "in_heap h' (em_value e')"
      using new_entry_refines[OF assms(1,2) 2(1)] 2(2) unfolding refines_entry_def rm_def by simp_all
    have "\<forall>b \<in> store_slices s'. b = em_value e' \<or> b \<in> store_slices s" using store_slices_put[OF 2(1)] 2(3) by blast
    then show ?thesis using e' 2(4) assms(1) by (auto simp: stored_in_def snapshot_mem_def)
  qed
qed

section \<open>Callers that reuse their buffers\<close>

text \<open>
  The store among callers that allocate arrays, overwrite the arrays that they allocated, and hand any
  slices to the store. \<open>given\<close> records every value a caller was given, with its bytes at that time,
  and \<open>calls\<close> every write, with the bytes of its body when it was made and those of its result.
\<close>

record world =
  memory :: heap
  mine :: "nat list"
  kv_mem :: Store_mem
  given :: "(slice \<times> go_string) list"
  calls :: "(WriteOp \<times> (store_error + Entry)) list"

datatype action = Allocate go_string | Overwrite nat go_string | CallWrite WriteOp_mem | CallGet go_string

definition give :: "slice \<Rightarrow> world \<Rightarrow> world" where
  "give b w = w\<lparr>given := given w @ [(b, bytes (memory w) b)]\<rparr>"

fun act :: "world \<Rightarrow> action \<Rightarrow> world option" where
  "act w (Allocate bs) = Some (w\<lparr>memory := memory w @ [bs], mine := length (memory w) # mine w\<rparr>)"
| "act w (Overwrite a bs) =
     (if a \<in> set (mine w) \<and> length bs = length (memory w ! a) then Some (w\<lparr>memory := (memory w)[a := bs]\<rparr>) else None)"
| "act w (CallWrite opn) =
     (if in_heap (memory w) (om_Body opn)
      then case Write_mem (memory w) (kv_mem w) opn of
        None \<Rightarrow> None
      | Some ((h, s), r) \<Rightarrow>
          (let w' = w\<lparr>memory := h, kv_mem := s, calls := calls w @ [(read_op (memory w) opn, map_sum id (read_snapshot h) r)]\<rparr> in
           Some (case r of Inl err \<Rightarrow> w' | Inr e \<Rightarrow> give (Value_mem e) w'))
      else None)"
| "act w (CallGet key) =
     (case Get_mem (kv_mem w) key of
        None \<Rightarrow> None
      | Some None \<Rightarrow> Some w
      | Some (Some e) \<Rightarrow> Some (give (Value_mem e) w))"

fun acts :: "world \<Rightarrow> action list \<Rightarrow> world option" where
  "acts w [] = Some w"
| "acts w (a # as) = (case act w a of None \<Rightarrow> None | Some w' \<Rightarrow> acts w' as)"

definition New_mem :: "go_int \<Rightarrow> world" where
  "New_mem n = \<lparr>memory = [], mine = [], kv_mem = \<lparr>sm_parts = replicate (unat n) [], sm_partitionCount = n\<rparr>, given = [], calls = []\<rparr>"

definition published :: "world \<Rightarrow> slice set" where
  "published w = store_slices (kv_mem w) \<union> fst ` set (given w)"

definition world_ok :: "Store \<Rightarrow> world \<Rightarrow> bool" where
  "world_ok st w \<longleftrightarrow> (\<forall>a \<in> set (mine w). a < length (memory w)) \<and>
     (\<forall>b \<in> published w. in_heap (memory w) b \<and> sl_array b \<notin> set (mine w)) \<and>
     (\<forall>(b, bs) \<in> set (given w). bytes (memory w) b = bs) \<and>
     write_all Write st (map fst (calls w)) = Some (read_store (memory w) (kv_mem w), map snd (calls w))"

lemma write_all_snoc:
  "write_all wr s (ops @ [opn]) =
     (case write_all wr s ops of None \<Rightarrow> None
      | Some (s', rs) \<Rightarrow> map_option (\<lambda>(s'', r). (s'', rs @ [r])) (wr s' opn))"
  by (induction ops arbitrary: s) (auto simp: option.map_comp comp_def split_def split: option.splits)

lemma world_okD:
  assumes "world_ok st w"
  shows "\<forall>a \<in> set (mine w). a < length (memory w)" "stored_in (memory w) (kv_mem w)"
    "\<And>b bs. (b, bs) \<in> set (given w) \<Longrightarrow> in_heap (memory w) b \<and> sl_array b \<notin> set (mine w) \<and> bytes (memory w) b = bs"
    "\<And>b. b \<in> store_slices (kv_mem w) \<Longrightarrow> in_heap (memory w) b \<and> sl_array b \<notin> set (mine w)"
    "write_all Write st (map fst (calls w)) = Some (read_store (memory w) (kv_mem w), map snd (calls w))"
  using assms by (force simp: world_ok_def published_def stored_in_def)+

lemma world_okI:
  assumes "\<forall>a \<in> set (mine w). a < length (memory w)"
    "\<And>b. b \<in> store_slices (kv_mem w) \<Longrightarrow> in_heap (memory w) b \<and> sl_array b \<notin> set (mine w)"
    "\<And>b bs. (b, bs) \<in> set (given w) \<Longrightarrow> in_heap (memory w) b \<and> sl_array b \<notin> set (mine w) \<and> bytes (memory w) b = bs"
    "write_all Write st (map fst (calls w)) = Some (read_store (memory w) (kv_mem w), map snd (calls w))"
  shows "world_ok st w"
  using assms by (fastforce simp: world_ok_def published_def)

lemma give_ok:
  assumes "world_ok st w" "in_heap (memory w) b" "sl_array b \<notin> set (mine w)"
  shows "world_ok st (give b w)"
  using world_okD[OF assms(1)] assms(2,3) by (intro world_okI) (auto simp: give_def)

lemma read_store_overwrite:
  "\<forall>b \<in> store_slices s. sl_array b \<noteq> a \<Longrightarrow> read_store (h[a := bs]) s = read_store h s"
proof -
  assume a: "\<forall>b \<in> store_slices s. sl_array b \<noteq> a"
  have "read_entry (h[a := bs]) e = read_entry h e" if "m \<in> set (sm_parts s)" "(k, e) \<in> set m" for m k e
    using a store_slicesI[OF that] by (simp add: read_entry_def bytes_scribble)
  then show ?thesis by (auto simp: read_store_def)
qed

lemma Overwrite_ok:
  assumes "world_ok st w" "a \<in> set (mine w)" "length bs = length (memory w ! a)"
  shows "world_ok st (w\<lparr>memory := (memory w)[a := bs]\<rparr>)" (is "world_ok st ?w")
proof -
  note D = world_okD[OF assms(1)]
  have "\<forall>b \<in> store_slices (kv_mem w). sl_array b \<noteq> a" using D(4) assms(2) by blast
  note keep = read_store_overwrite[OF this]
  show ?thesis
  proof (rule world_okI)
    fix b assume "b \<in> store_slices (kv_mem ?w)"
    then show "in_heap (memory ?w) b \<and> sl_array b \<notin> set (mine ?w)"
      using D(4)[of b] in_heap_scribble[OF _ assms(3)] by simp
  next
    fix b v assume "(b, v) \<in> set (given ?w)"
    then show "in_heap (memory ?w) b \<and> sl_array b \<notin> set (mine ?w) \<and>
        bytes (memory ?w) b = v"
      using D(3)[of b v] in_heap_scribble[OF _ assms(3)] bytes_scribble[of b a] assms(2) by auto
  qed (use D(1,5) keep in simp_all)
qed

lemma Allocate_ok:
  assumes "world_ok st w"
  shows "world_ok st (w\<lparr>memory := memory w @ [bs], mine := length (memory w) # mine w\<rparr>)" (is "world_ok st ?w")
proof -
  note D = world_okD[OF assms]
  have old: "sl_array b \<noteq> length (memory w)" if "in_heap (memory w) b" for b using that by (simp add: in_heap_def)
  show ?thesis
  proof (rule world_okI)
    fix b assume "b \<in> store_slices (kv_mem ?w)"
    then show "in_heap (memory ?w) b \<and> sl_array b \<notin> set (mine ?w)" using D(4)[of b] old[of b] by simp
  next
    fix b v assume "(b, v) \<in> set (given ?w)"
    then show "in_heap (memory ?w) b \<and> sl_array b \<notin> set (mine ?w) \<and> bytes (memory ?w) b = v" using D(3)[of b v] old[of b] by simp
  qed (use D(1,5) read_store_append[OF D(2)] in auto)
qed

lemma CallWrite_ok:
  assumes "world_ok st w" "in_heap (memory w) (om_Body opn)" "Write_mem (memory w) (kv_mem w) opn = Some ((h, s), r)"
  shows "world_ok st (w\<lparr>memory := h, kv_mem := s, calls := calls w @ [(read_op (memory w) opn, map_sum id (read_snapshot h) r)]\<rparr>)"
    (is "world_ok st ?w")
proof -
  note D = world_okD[OF assms(1)]
  note E = Write_mem_effect[OF D(2) assms(2,3)]
  obtain x where x: "h = memory w @ x" using E by blast
  show ?thesis
  proof (rule world_okI)
    fix b assume "b \<in> store_slices (kv_mem ?w)"
    then have b: "in_heap h b" "b \<in> store_slices (kv_mem w) \<or> length (memory w) \<le> sl_array b" using E by (simp_all add: stored_in_def)
    moreover have "sl_array b \<notin> set (mine w)" using b(2) D(1) D(4)[of b] by (meson not_le)
    ultimately show "in_heap (memory ?w) b \<and> sl_array b \<notin> set (mine ?w)" by simp
  next
    fix b v assume "(b, v) \<in> set (given ?w)"
    then show "in_heap (memory ?w) b \<and> sl_array b \<notin> set (mine ?w) \<and> bytes (memory ?w) b = v" using D(3)[of b v] x by simp
  next
    show "write_all Write st (map fst (calls ?w)) = Some (read_store (memory ?w) (kv_mem ?w), map snd (calls ?w))"
      using D(5) Write_mem_refines[OF D(2) assms(2)] assms(3) by (simp add: write_all_snoc)
  qed (use D(1) x in auto)
qed

lemma Get_mem_stored: "Get_mem s key = Some (Some e) \<Longrightarrow> Value_mem e \<in> store_slices s"
  by (auto simp: Get_mem_def Let_def snapshot_mem_def not_le intro: store_slices_part split: if_splits)

lemma act_ok:
  assumes "world_ok st w" "act w a = Some w'"
  shows "world_ok st w'"
proof (cases a)
  case (CallWrite opn)
  then obtain h s r where c: "in_heap (memory w) (om_Body opn)" "Write_mem (memory w) (kv_mem w) opn = Some ((h, s), r)"
    using assms(2) by (auto split: if_splits option.splits)
  let ?w = "w\<lparr>memory := h, kv_mem := s, calls := calls w @ [(read_op (memory w) opn, map_sum id (read_snapshot h) r)]\<rparr>"
  have ok: "world_ok st ?w" by (rule CallWrite_ok[OF assms(1) c])
  note D = world_okD[OF assms(1)]
  show ?thesis
  proof (cases r)
    case (Inr e)
    then have "in_heap h (Value_mem e)" "length (memory w) \<le> sl_array (Value_mem e)"
      using Write_mem_effect[OF D(2) c] by auto
    then have "in_heap (memory ?w) (Value_mem e)" "sl_array (Value_mem e) \<notin> set (mine ?w)" using D(1) by auto
    from give_ok[OF ok this] show ?thesis using assms(2) CallWrite c Inr by simp
  qed (use ok assms(2) CallWrite c in simp)
next
  case (CallGet key)
  then obtain eo where g: "Get_mem (kv_mem w) key = Some eo" using assms(2) by (auto split: option.splits)
  show ?thesis
  proof (cases eo)
    case (Some e)
    then show ?thesis using g CallGet assms give_ok[OF assms(1)] world_okD(4)[OF assms(1) Get_mem_stored] by auto
  qed (use g CallGet assms in simp)
qed (use assms Allocate_ok Overwrite_ok in \<open>auto split: if_splits\<close>)

lemma acts_ok: "acts w as = Some w' \<Longrightarrow> world_ok st w \<Longrightarrow> world_ok st w'"
  by (induction as arbitrary: w) (auto split: option.splits intro: act_ok)

lemma New_mem_ok: "New n = Inr st \<Longrightarrow> world_ok st (New_mem n)"
  by (intro world_okI)
    (auto simp: New_mem_def New_def read_store_def store_slices_def split: if_splits)

text \<open>
  C14. Published values never change: whatever callers allocate, overwrite and pass to the store, every
  value a caller has been given reads the same as when it was given, and the store holds and
  returns what the sequential store of \<open>Kv_Store\<close> does for the bytes the bodies had when
  the writes were called.
\<close>

theorem published_values_immutable:
  assumes "New n = Inr st" "acts (New_mem n) as = Some w"
  shows "(\<forall>(b, bs) \<in> set (given w). bytes (memory w) b = bs) \<and>
    write_all Write st (map fst (calls w)) = Some (read_store (memory w) (kv_mem w), map snd (calls w))"
  using world_okD(3,5)[OF acts_ok[OF assms(2) New_mem_ok[OF assms(1)]]] by blast

text \<open>A caller writes from a buffer, overwrites the buffer, writes from it again and reads.\<close>

definition sample_acts :: "action list" where
  "sample_acts =
     (let opn = \<lparr>om_Key = ''k'', om_Body = \<lparr>sl_array = 0, sl_off = 1, sl_len = 1\<rparr>, om_Mode = ModeReplace,
                 om_IfVersion = None, om_IfAbsent = False\<rparr> in
      [Allocate ''[1]'', CallWrite opn, Overwrite 0 ''{2}'', CallWrite opn, CallGet ''k''])"

theorem published_values_immutable_witness:
  "\<exists>st w. New 4 = Inr st \<and> acts (New_mem 4) sample_acts = Some w \<and>
     map snd (given w) = [''1'', ''2'', ''2''] \<and> map (bytes (memory w) \<circ> fst) (given w) = [''1'', ''2'', ''2'']"
proof -
  obtain st where st: "New 4 = Inr st" using New_4 by blast
  have "map_option (\<lambda>w. map snd (given w)) (acts (New_mem 4) sample_acts) = Some [''1'', ''2'', ''2'']" by code_simp
  then obtain w where w: "acts (New_mem 4) sample_acts = Some w" "map snd (given w) = [''1'', ''2'', ''2'']" by auto
  from published_values_immutable[OF st w(1)] have "\<forall>x \<in> set (given w). bytes (memory w) (fst x) = snd x" by auto
  then have "map (bytes (memory w) \<circ> fst) (given w) = map snd (given w)" by simp
  with st w show ?thesis by metis
qed

end
