(* ===== verification/Node_Service.thy ===== *)
theory Node_Service
  imports Kv_Store
begin

text \<open>
  \<open>internal/node/service.go\<close>: the application logic of a node. It checks keys and bodies and
  hands the whole operation to the store. The service owns the store, so an operation takes the
  service and returns it updated; the outer \<open>None\<close> is a panic, as in the store.

  The invariant \<open>node_ok\<close> says what a node may hold: keys of its own partitions, within the
  length limit, with valid JSON values. Under it no operation panics, and \<open>Service_Write_spec\<close>
  gives the result and the effect of a write on every branch.
\<close>

section \<open>The service\<close>

record Config =
  cfg_NodeID :: go_string
  cfg_PartitionCount :: go_int
  cfg_Owned :: Range
  MaxValueBytes :: go_int
  MaxKeyBytes :: go_int

record Service =
  svc_store :: Store
  svc_cfg :: Config

definition NewService :: "Store \<Rightarrow> Config \<Rightarrow> Service" where
  "NewService s cfg = \<lparr>svc_store = s, svc_cfg = cfg\<rparr>"

definition NodeID :: "Service \<Rightarrow> go_string" where
  "NodeID s = cfg_NodeID (svc_cfg s)"

definition Owned :: "Service \<Rightarrow> Range" where
  "Owned s = cfg_Owned (svc_cfg s)"

definition Service_PartitionCount :: "Service \<Rightarrow> go_int" where
  "Service_PartitionCount s = cfg_PartitionCount (svc_cfg s)"

record Result =
  res_Key :: go_string
  res_Value :: go_string
  res_Version :: uint64

record WriteRequest =
  wr_Key :: go_string
  wr_Mode :: Mode
  wr_Body :: go_string
  wr_IfVersion :: "uint64 option"
  wr_IfAbsent :: bool

record MisdirectedError =
  md_Key :: go_string
  md_Partition :: uint64
  md_Owned :: Range
  md_NodeID :: go_string

record PartitionCountMismatchError =
  pm_NodeID :: go_string
  Ours :: go_int
  Theirs :: go_int

datatype service_error =
    ErrKeyEmpty
  | ErrKeyTooLong
  | ErrValueTooLarge
  | ErrInvalidJSON
  | ErrNotFound
  | Misdirected MisdirectedError
  | StoreFailed store_error

definition checkKey :: "Service \<Rightarrow> go_string \<Rightarrow> service_error option" where
  "checkKey s key =
     (if key = [] then Some ErrKeyEmpty
      else if sint (MaxKeyBytes (svc_cfg s)) < int (length key) then Some ErrKeyTooLong
      else let partition = Partition key (cfg_PartitionCount (svc_cfg s)) in
           if \<not> Contains (cfg_Owned (svc_cfg s)) partition
           then Some (Misdirected \<lparr>md_Key = key, md_Partition = partition,
                                   md_Owned = cfg_Owned (svc_cfg s), md_NodeID = cfg_NodeID (svc_cfg s)\<rparr>)
           else None)"

definition Service_Get :: "Service \<Rightarrow> go_string \<Rightarrow> (service_error + Result) option" where
  "Service_Get s key =
     (case checkKey s key of
        Some err \<Rightarrow> Some (Inl err)
      | None \<Rightarrow>
          (case Get (svc_store s) key of
             None \<Rightarrow> None
           | Some None \<Rightarrow> Some (Inl ErrNotFound)
           | Some (Some entry) \<Rightarrow>
               Some (Inr \<lparr>res_Key = key, res_Value = Value entry, res_Version = Version entry\<rparr>)))"

definition Service_Write :: "Service \<Rightarrow> WriteRequest \<Rightarrow> (Service \<times> (service_error + Result)) option" where
  "Service_Write s req =
     (case checkKey s (wr_Key req) of
        Some err \<Rightarrow> Some (s, Inl err)
      | None \<Rightarrow>
          if sint (MaxValueBytes (svc_cfg s)) < int (length (wr_Body req)) then Some (s, Inl ErrValueTooLarge)
          else if \<not> Valid (wr_Body req) then Some (s, Inl ErrInvalidJSON)
          else case Write (svc_store s) \<lparr>Key = wr_Key req, Body = wr_Body req, op_Mode = wr_Mode req,
                                         IfVersion = wr_IfVersion req, IfAbsent = wr_IfAbsent req\<rparr> of
                 None \<Rightarrow> None
               | Some (st, Inl err) \<Rightarrow> Some (s\<lparr>svc_store := st\<rparr>, Inl (StoreFailed err))
               | Some (st, Inr entry) \<Rightarrow>
                   Some (s\<lparr>svc_store := st\<rparr>,
                         Inr \<lparr>res_Key = wr_Key req, res_Value = Value entry, res_Version = Version entry\<rparr>))"

definition CheckPartitionCount :: "Service \<Rightarrow> go_int \<Rightarrow> PartitionCountMismatchError option" where
  "CheckPartitionCount s theirs =
     (if theirs \<noteq> 0 \<and> theirs \<noteq> cfg_PartitionCount (svc_cfg s)
      then Some \<lparr>pm_NodeID = cfg_NodeID (svc_cfg s), Ours = cfg_PartitionCount (svc_cfg s), Theirs = theirs\<rparr>
      else None)"

text \<open>The service's iterator passes every key of the store's on until \<open>yield\<close> refuses one.\<close>

definition Service_Keys :: "Service \<Rightarrow> ('a \<Rightarrow> go_string \<Rightarrow> 'a \<times> bool) \<Rightarrow> 'a \<Rightarrow> 'a" where
  "Service_Keys s yield a = Keys (svc_store s) yield a"

section \<open>Invariant\<close>

text \<open>The map a node holds, and the keys it accepts.\<close>

abbreviation holds :: "Service \<Rightarrow> kv" where
  "holds s \<equiv> contents (svc_store s)"

definition accepts :: "Service \<Rightarrow> go_string \<Rightarrow> bool" where
  "accepts s key \<longleftrightarrow> checkKey s key = None"

definition node_ok :: "Service \<Rightarrow> bool" where
  "node_ok s \<longleftrightarrow> store_ok (svc_store s) \<and> store_partitionCount (svc_store s) = cfg_PartitionCount (svc_cfg s) \<and>
     values_valid (svc_store s) \<and> (\<forall>k \<in> dom (holds s). accepts s k)"

definition store_op :: "WriteRequest \<Rightarrow> WriteOp" where
  "store_op req = \<lparr>Key = wr_Key req, Body = wr_Body req, op_Mode = wr_Mode req,
     IfVersion = wr_IfVersion req, IfAbsent = wr_IfAbsent req\<rparr>"

lemma store_op_simps [simp]:
  "Key (store_op req) = wr_Key req" "Body (store_op req) = wr_Body req" "op_Mode (store_op req) = wr_Mode req"
  "IfVersion (store_op req) = wr_IfVersion req" "IfAbsent (store_op req) = wr_IfAbsent req"
  by (simp_all add: store_op_def)

definition as_result :: "go_string \<Rightarrow> store_error + Entry \<Rightarrow> service_error + Result" where
  "as_result key r = (case r of Inl err \<Rightarrow> Inl (StoreFailed err)
     | Inr e \<Rightarrow> Inr \<lparr>res_Key = key, res_Value = Value e, res_Version = Version e\<rparr>)"

text \<open>What a write does to the map a node holds: the checks in their order, then the store's rules.\<close>

definition spec_service_write :: "Service \<Rightarrow> WriteRequest \<Rightarrow> kv \<times> (service_error + Result)" where
  "spec_service_write s req =
     (case checkKey s (wr_Key req) of
        Some err \<Rightarrow> (holds s, Inl err)
      | None \<Rightarrow>
          if sint (MaxValueBytes (svc_cfg s)) < int (length (wr_Body req)) then (holds s, Inl ErrValueTooLarge)
          else if \<not> Valid (wr_Body req) then (holds s, Inl ErrInvalidJSON)
          else (fst (spec_write (holds s) (store_op req)),
                as_result (wr_Key req) (snd (spec_write (holds s) (store_op req)))))"

lemma checkKey_cfg: "svc_cfg s' = svc_cfg s \<Longrightarrow> checkKey s' k = checkKey s k"
  by (simp add: checkKey_def Let_def)

lemma accepts_store_update [simp]: "accepts (s\<lparr>svc_store := st\<rparr>) k = accepts s k"
  using checkKey_cfg[of "s\<lparr>svc_store := st\<rparr>" s k] by (simp add: accepts_def)

lemma spec_write_dom: "k \<in> dom (fst (spec_write m opn)) \<Longrightarrow> k = Key opn \<or> k \<in> dom m"
  by (auto simp: spec_write_def split: if_splits)

lemma Service_Write_spec:
  assumes "node_ok s"
  shows "\<exists>s'. Service_Write s req = Some (s', snd (spec_service_write s req)) \<and> node_ok s' \<and>
           holds s' = fst (spec_service_write s req) \<and> svc_cfg s' = svc_cfg s"
proof (cases "checkKey s (wr_Key req) = None \<and> \<not> sint (MaxValueBytes (svc_cfg s)) < int (length (wr_Body req)) \<and>
      Valid (wr_Body req)")
  case False
  then show ?thesis using assms
    by (auto simp: Service_Write_def spec_service_write_def split: option.splits)
next
  case True
  have ok: "store_ok (svc_store s)" using assms by (simp add: node_ok_def)
  obtain st where st: "Write (svc_store s) (store_op req) = Some (st, snd (spec_write (holds s) (store_op req)))"
    "store_ok st" "contents st = fst (spec_write (holds s) (store_op req))"
    "store_partitionCount st = store_partitionCount (svc_store s)"
    using Write_spec[OF ok] by blast
  let ?s = "s\<lparr>svc_store := st\<rparr>"
  have "Service_Write s req = Some (?s, as_result (wr_Key req) (snd (spec_write (holds s) (store_op req))))"
    using True st(1) unfolding Service_Write_def store_op_def [symmetric]
    by (auto simp: as_result_def split: sum.splits)
  moreover have "accepts ?s k" if "k \<in> dom (contents st)" for k
    using that spec_write_dom[of k "holds s" "store_op req"] assms True st(3)
    unfolding accepts_store_update by (auto simp: node_ok_def accepts_def)
  moreover have "values_valid st"
    using Write_values_valid[OF ok _ _ st(1)] assms True by (simp add: node_ok_def)
  ultimately show ?thesis using assms True st by (simp add: node_ok_def spec_service_write_def)
qed

lemma Service_Get_spec:
  assumes "node_ok s"
  shows "Service_Get s key = Some (case checkKey s key of Some err \<Rightarrow> Inl err
     | None \<Rightarrow> (case holds s key of None \<Rightarrow> Inl ErrNotFound
                | Some e \<Rightarrow> Inr \<lparr>res_Key = key, res_Value = Value e, res_Version = Version e\<rparr>))"
  using assms Get_contents[of "svc_store s" key]
  by (auto simp: Service_Get_def node_ok_def split: option.splits)

lemma node_ok_New:
  assumes "New (cfg_PartitionCount cfg) = Inr st"
  shows "node_ok (NewService st cfg)" "holds (NewService st cfg) = Map.empty"
  using New_ok[OF assms] by (simp_all add: node_ok_def NewService_def values_valid_def)

section \<open>Properties\<close>

text \<open>
  C19. A write through the service, on every branch: the node's checks are applied in the order
  key, size, JSON, store guards; a failing one leaves the node unchanged; the map the node holds
  afterwards and the result are those of the specification; and the node's invariant holds again,
  so it never holds a key of another node's partitions or a value that is not JSON.
\<close>

theorem Service_Write_correct:
  assumes "node_ok s"
  shows "\<exists>s'. Service_Write s req = Some (s', snd (spec_service_write s req)) \<and> node_ok s' \<and>
           holds s' = fst (spec_service_write s req) \<and> svc_cfg s' = svc_cfg s"
  by (rule Service_Write_spec[OF assms])

definition sample_cfg :: Config where
  "sample_cfg = \<lparr>cfg_NodeID = ''n'', cfg_PartitionCount = 4, cfg_Owned = \<lparr>Lo = 0, Hi = 4\<rparr>,
     MaxValueBytes = 8, MaxKeyBytes = 16\<rparr>"

lemma sample_node:
  obtains s where "node_ok s" "holds s = Map.empty" "svc_cfg s = sample_cfg"
proof -
  obtain st where "New 4 = Inr st" using New_4 by blast
  then have "New (cfg_PartitionCount sample_cfg) = Inr st" by (simp add: sample_cfg_def)
  from node_ok_New[OF this] that show thesis by (simp add: NewService_def)
qed

lemma sample_accepts: "svc_cfg s = sample_cfg \<Longrightarrow> key \<noteq> [] \<Longrightarrow> length key \<le> 16 \<Longrightarrow> checkKey s key = None"
proof -
  assume cfg: "svc_cfg s = sample_cfg" and key: "key \<noteq> []" "length key \<le> 16"
  have "Contains \<lparr>Lo = 0, Hi = 4\<rparr> (Partition key 4)"
    using Partition_less[OF ValidPartitionCount_4, of key] by (simp add: Contains_def word_less_nat_alt)
  then show ?thesis using cfg key by (simp add: checkKey_def sample_cfg_def Let_def)
qed

lemma sample_node_k:
  obtains s where "node_ok s" "holds s = [''k'' \<mapsto> \<lparr>Value = ''[1]'', Version = 1\<rparr>]" "svc_cfg s = sample_cfg"
proof -
  let ?req = "\<lparr>wr_Key = ''k'', wr_Mode = ModeReplace, wr_Body = ''[1]'', wr_IfVersion = None, wr_IfAbsent = False\<rparr>"
  obtain s where s: "node_ok s" "holds s = Map.empty" "svc_cfg s = sample_cfg" by (rule sample_node)
  have "Valid ''[1]''" by (simp add: json_eval)
  then have "fst (spec_service_write s ?req) = [''k'' \<mapsto> \<lparr>Value = ''[1]'', Version = 1\<rparr>]"
    using s sample_accepts[of s "''k''"]
    by (simp add: spec_service_write_def spec_write_def guard_ok_def apply_write_def store_op_def sample_cfg_def)
  with Service_Write_spec[OF s(1), of ?req] s(3) that show thesis by metis
qed

theorem Service_Write_correct_witness:
  "\<exists>s s'. node_ok s \<and> node_ok s' \<and>
     Service_Write s \<lparr>wr_Key = ''k'', wr_Mode = ModeReplace, wr_Body = ''[1]'', wr_IfVersion = None, wr_IfAbsent = False\<rparr>
       = Some (s', Inr \<lparr>res_Key = ''k'', res_Value = ''[1]'', res_Version = 1\<rparr>)"
proof -
  obtain s where s: "node_ok s" "holds s = Map.empty" "svc_cfg s = sample_cfg" by (rule sample_node)
  have "Valid ''[1]''" by (simp add: json_eval)
  then have "snd (spec_service_write s \<lparr>wr_Key = ''k'', wr_Mode = ModeReplace, wr_Body = ''[1]'', wr_IfVersion = None, wr_IfAbsent = False\<rparr>)
      = Inr \<lparr>res_Key = ''k'', res_Value = ''[1]'', res_Version = 1\<rparr>"
    using s sample_accepts[of s "''k''"]
    by (simp add: spec_service_write_def spec_write_def guard_ok_def apply_write_def as_result_def store_op_def sample_cfg_def)
  with Service_Write_correct[OF s(1)] s(1) show ?thesis by metis
qed

lemma Service_read_back:
  assumes "node_ok s" "Service_Write s req = Some (s', r)"
  shows "Service_Get s' k = (if k = wr_Key req \<and> is_ok r then Some r else Service_Get s k)"
proof -
  have spec: "node_ok s'" "r = snd (spec_service_write s req)" "holds s' = fst (spec_service_write s req)"
    "svc_cfg s' = svc_cfg s" using Service_Write_spec[OF assms(1), of req] assms(2) by auto
  note get = Service_Get_spec[OF assms(1), of k] Service_Get_spec[OF spec(1), of k] checkKey_cfg[OF spec(4), of k]
  show ?thesis
  proof (cases "k = wr_Key req \<and> is_ok r")
    case True
    then have key: "checkKey s k = None"
      and "\<exists>e. holds s' k = Some e \<and> r = Inr \<lparr>res_Key = k, res_Value = Value e, res_Version = Version e\<rparr>"
      using spec(2,3) by (auto simp: spec_service_write_def as_result_def spec_write_def split: option.splits if_splits)
    then show ?thesis using True get by auto
  next
    case False
    then have same: "holds s' k = holds s k"
      using spec(2,3) by (auto simp: spec_service_write_def as_result_def spec_write_def split: option.splits if_splits)
    show ?thesis unfolding get same if_not_P[OF False] ..
  qed
qed

text \<open>
  C34. The size limit applies to a request's body only. Two requests within the limit can leave a
  value beyond it, because a PATCH is not measured again after it has been merged.
\<close>

theorem patch_outgrows_limit:
  \<open>\<exists>s s1 s2 r1 r2.
     node_ok s \<and> MaxValueBytes (svc_cfg s) = 8 \<and>
     Service_Write s \<lparr>wr_Key = ''k'', wr_Mode = ModeReplace, wr_Body = ''{"a":1}'', wr_IfVersion = None, wr_IfAbsent = False\<rparr>
       = Some (s1, Inr r1) \<and>
     Service_Write s1 \<lparr>wr_Key = ''k'', wr_Mode = ModeMerge, wr_Body = ''{"b":2}'', wr_IfVersion = None, wr_IfAbsent = False\<rparr>
       = Some (s2, Inr r2) \<and>
     res_Value r2 = ''{"a":1,"b":2}'' \<and> sint (MaxValueBytes (svc_cfg s2)) < int (length (res_Value r2))\<close>
proof -
  let ?put = \<open>\<lparr>wr_Key = ''k'', wr_Mode = ModeReplace, wr_Body = ''{"a":1}'', wr_IfVersion = None, wr_IfAbsent = False\<rparr>\<close>
  let ?patch = \<open>\<lparr>wr_Key = ''k'', wr_Mode = ModeMerge, wr_Body = ''{"b":2}'', wr_IfVersion = None, wr_IfAbsent = False\<rparr>\<close>
  let ?r1 = \<open>\<lparr>res_Key = ''k'', res_Value = ''{"a":1}'', res_Version = 1\<rparr>\<close>
  let ?r2 = \<open>\<lparr>res_Key = ''k'', res_Value = ''{"a":1,"b":2}'', res_Version = 2\<rparr>\<close>
  have valid: \<open>Valid ''{"a":1}''\<close> \<open>Valid ''{"b":2}''\<close> by (simp_all add: json_eval)
  have merged: \<open>Apply ''{"a":1}'' ''{"b":2}'' = ''{"a":1,"b":2}''\<close>
    by (simp add: Apply_def asObject_eq json_eval marshal_eval)
  obtain s where s: "node_ok s" "holds s = Map.empty" "svc_cfg s = sample_cfg" by (rule sample_node)
  obtain s1 where s1: "Service_Write s ?put = Some (s1, snd (spec_service_write s ?put))" "node_ok s1"
    "holds s1 = fst (spec_service_write s ?put)" "svc_cfg s1 = svc_cfg s" using Service_Write_spec[OF s(1)] by blast
  have sp1: \<open>spec_service_write s ?put = ([''k'' \<mapsto> \<lparr>Value = ''{"a":1}'', Version = 1\<rparr>], Inr ?r1)\<close>
    using s valid sample_accepts[of s "''k''"]
    by (simp add: spec_service_write_def spec_write_def guard_ok_def apply_write_def as_result_def store_op_def sample_cfg_def)
  obtain s2 where s2: "Service_Write s1 ?patch = Some (s2, snd (spec_service_write s1 ?patch))"
    "svc_cfg s2 = svc_cfg s1" using Service_Write_spec[OF s1(2)] by blast
  have "snd (spec_service_write s1 ?patch) = Inr ?r2"
    using s1 s(3) sp1 valid merged sample_accepts[of s1 "''k''"]
    by (simp add: spec_service_write_def spec_write_def guard_ok_def apply_write_def as_result_def store_op_def sample_cfg_def)
  then show ?thesis using s s1 s2 sp1 by (intro exI[of _ s] exI[of _ s1] exI[of _ s2] exI[of _ ?r1] exI[of _ ?r2])
      (simp add: sample_cfg_def)
qed

end
