(* ===== verification/Go_Http.thy ===== *)
theory Go_Http
  imports Json_Text "HOL-Library.Char_ord" "HOL-Library.List_Lexorder"
begin

text \<open>
  What the program uses of \<open>net/http\<close> and \<open>net/url\<close>: percent-decoding, parsing a query string,
  cleaning a path, and \<open>ServeMux\<close> with the patterns of Go 1.22. A request has the escaped path
  the mux sees; a response is the status, the two headers the handlers set, and the body bytes.
\<close>

section \<open>Requests and responses\<close>

record Request =
  Method :: go_string
  EscapedPath :: go_string
  RawQuery :: go_string
  PartitionHeader :: go_string
  ContentType :: go_string
  ReqBody :: go_string
  BodyBroken :: bool

text \<open>
  A header that is not set is the empty string, as \<open>Header.Get\<close> returns it. \<open>BodyBroken\<close> says that
  reading the body fails after the bytes of \<open>ReqBody\<close>.
\<close>

record Response =
  Status :: nat
  RespContentType :: go_string
  Allow :: go_string
  RespBody :: go_string

section \<open>Percent-decoding\<close>

text \<open>\<open>url.QueryUnescape\<close>, which also decodes a plus, and \<open>url.PathUnescape\<close>.\<close>

fun unescape :: "bool \<Rightarrow> go_string \<Rightarrow> go_string option" where
  "unescape query [] = Some []"
| "unescape query (c # cs) =
     (if c = CHR ''%''
      then (case cs of
              a # b # rest \<Rightarrow>
                if is_hex a \<and> is_hex b
                then map_option (Cons (char_of (16 * hex_val a + hex_val b))) (unescape query rest)
                else None
            | _ \<Rightarrow> None)
      else map_option (Cons (if query \<and> c = CHR ''+'' then CHR '' '' else c)) (unescape query cs))"

text \<open>Every byte in its percent-encoded form: one way for a client to write any key.\<close>

fun percent :: "go_string \<Rightarrow> go_string" where
  "percent [] = []"
| "percent (c # cs) = CHR ''%'' # hex_digit (of_char c div 16) # hex_digit (of_char c mod 16) # percent cs"

lemma hex_val_digit: "d < 16 \<Longrightarrow> hex_val (hex_digit d) = d"
  by (auto simp: hex_val_def hex_digit_def is_digit_def byte_in_def)

lemma unescape_percent: "unescape query (percent s) = Some s"
proof (induction s)
  case (Cons c s)
  have "(of_char c :: nat) div 16 < 16" using of_char_lt[of c] by (simp add: less_mult_imp_div_less)
  moreover have "16 * ((of_char c :: nat) div 16) + of_char c mod 16 = of_char c" by simp
  ultimately show ?case using Cons by (simp add: hex_val_digit hex_digit_is_hex)
qed simp

section \<open>Query strings\<close>

text \<open>
  \<open>URL.Query\<close>: the pairs between ampersands, in order; a pair with a semicolon, or one that does
  not decode, is dropped.
\<close>

definition query_pair :: "go_string \<Rightarrow> (go_string \<times> go_string) option" where
  "query_pair kv =
     (if kv = [] \<or> CHR '';'' \<in> set kv then None
      else case Cut kv CHR ''='' of
        (k, v, _) \<Rightarrow> (case (unescape True k, unescape True v) of (Some k', Some v') \<Rightarrow> Some (k', v') | _ \<Rightarrow> None))"

definition Query :: "go_string \<Rightarrow> go_string \<Rightarrow> go_string list" where
  "Query raw name = map snd (filter (\<lambda>kv. fst kv = name) (List.map_filter query_pair (Split raw CHR ''&'')))"

section \<open>The mux\<close>

text \<open>\<open>path.Clean\<close> on the segments of a rooted path, the innermost first in the accumulator.\<close>

fun clean_segments :: "go_string list \<Rightarrow> go_string list \<Rightarrow> go_string list" where
  "clean_segments acc [] = rev acc"
| "clean_segments acc (s # ss) =
     (if s = [] \<or> s = ''.'' then clean_segments acc ss
      else if s = ''..'' then clean_segments (tl acc) ss
      else clean_segments (s # acc) ss)"

definition rooted :: "go_string list \<Rightarrow> go_string" where
  "rooted ss = concat (map (\<lambda>s. CHR ''/'' # s) ss)"

definition cleanPath :: "go_string \<Rightarrow> go_string" where
  "cleanPath p =
     (let ss = clean_segments [] (Split p CHR ''/'') in
      if ss = [] then ''/''
      else rooted ss @ (if last p = CHR ''/'' then ''/'' else []))"

text \<open>The segments of a path as the mux reads them; a trailing slash is the segment \<open>/\<close>.\<close>

definition unescape_segment :: "go_string \<Rightarrow> go_string" where
  "unescape_segment s = (case unescape False s of Some t \<Rightarrow> t | None \<Rightarrow> s)"

definition mux_segments :: "go_string \<Rightarrow> go_string list" where
  "mux_segments path =
     (case Split path CHR ''/'' of
        [] \<Rightarrow> []
      | _ # ss \<Rightarrow> (if ss = [] then []
                  else map unescape_segment (butlast ss) @ [if last ss = [] then ''/'' else unescape_segment (last ss)]))"

datatype mux_segment = Lit go_string | Wild

fun match_segments :: "mux_segment list \<Rightarrow> go_string list \<Rightarrow> go_string list option" where
  "match_segments [] [] = Some []"
| "match_segments (Lit l # ps) (s # ss) = (if s = l then match_segments ps ss else None)"
| "match_segments (Wild # ps) (s # ss) = (if s = ''/'' then None else map_option (Cons s) (match_segments ps ss))"
| "match_segments _ _ = None"

text \<open>A pattern is a method, empty for any, and a path. No two patterns here overlap except by method.\<close>

type_synonym 'h pattern = "go_string \<times> mux_segment list \<times> 'h"

fun find_pattern :: "go_string \<Rightarrow> go_string list \<Rightarrow> 'h pattern list \<Rightarrow> ('h \<times> go_string list) option" where
  "find_pattern m ss [] = None"
| "find_pattern m ss ((pm, ps, h) # pats) =
     (if pm = m then (case match_segments ps ss of Some vs \<Rightarrow> Some (h, vs) | None \<Rightarrow> find_pattern m ss pats)
      else find_pattern m ss pats)"

datatype 'h mux_result =
    MuxRedirect go_string
  | MuxHandler 'h go_string
  | MuxMethodNotAllowed "go_string list"
  | MuxNotFound

text \<open>
  The methods of the patterns that match a path, sorted, and HEAD with GET: the \<open>Allow\<close> header of the
  mux's own 405.
\<close>

definition allowed_methods :: "'h pattern list \<Rightarrow> go_string list \<Rightarrow> go_string list" where
  "allowed_methods pats ss =
     (let ms = map fst (filter (\<lambda>(pm, ps, h). match_segments ps ss \<noteq> None) pats) in
      sort (remdups (if ''GET'' \<in> set ms then ''HEAD'' # ms else ms)))"

text \<open>
  \<open>ServeMux.findHandler\<close>: the request's method first, for HEAD also GET, then patterns without a
  method. The one wildcard of a pattern here is \<open>{key}\<close>, whose value the result carries. A path
  that is not clean is redirected, except for CONNECT, whose path is matched as it is.
\<close>

definition mux_find :: "'h pattern list \<Rightarrow> go_string \<Rightarrow> go_string \<Rightarrow> 'h mux_result" where
  "mux_find pats meth escaped =
     (let path = (if meth = ''CONNECT'' then escaped else cleanPath escaped);
          ss = mux_segments path;
          try = (\<lambda>m. find_pattern m ss pats);
          found = (case try meth of
                     Some r \<Rightarrow> Some r
                   | None \<Rightarrow> (case (if meth = ''HEAD'' then try ''GET'' else None) of
                                Some r \<Rightarrow> Some r
                              | None \<Rightarrow> try [])) in
      if path \<noteq> escaped then MuxRedirect path
      else case found of
        Some (h, vs) \<Rightarrow> MuxHandler h (case vs of [] \<Rightarrow> [] | v # _ \<Rightarrow> v)
      | None \<Rightarrow> (case allowed_methods pats ss of [] \<Rightarrow> MuxNotFound | ms \<Rightarrow> MuxMethodNotAllowed ms))"

text \<open>
  The mux's own answers: the status, and the plain text of \<open>http.Error\<close>. Of a redirect only the
  status is kept.
\<close>

definition mux_error :: "'h mux_result \<Rightarrow> Response" where
  "mux_error r = \<lparr>Status = (case r of MuxRedirect p \<Rightarrow> 301 | MuxMethodNotAllowed ms \<Rightarrow> 405 | _ \<Rightarrow> 404),
     RespContentType = ''text/plain; charset=utf-8'',
     Allow = (case r of MuxMethodNotAllowed ms \<Rightarrow> join '', '' ms | _ \<Rightarrow> []),
     RespBody = (case r of MuxRedirect p \<Rightarrow> [] | MuxMethodNotAllowed ms \<Rightarrow> ''Method Not Allowed'' @ [CHR 0x0A]
                 | _ \<Rightarrow> ''404 page not found'' @ [CHR 0x0A])\<rparr>"

section \<open>Reading a body\<close>

datatype body_error = BodyTooLarge | BodyUnreadable

text \<open>\<open>io.ReadAll\<close> of a \<open>http.MaxBytesReader\<close>, whose limit is at least 0.\<close>

definition read_body :: "go_int \<Rightarrow> Request \<Rightarrow> body_error + go_string" where
  "read_body limit r =
     (if max 0 (sint limit) < int (length (ReqBody r)) then Inl BodyTooLarge
      else if BodyBroken r then Inl BodyUnreadable
      else Inr (ReqBody r))"

section \<open>Paths of keys\<close>

lemma percent_chars: "c \<in> set (percent s) \<Longrightarrow> c = CHR ''%'' \<or> is_hex c"
proof (induction s)
  case (Cons x s)
  have "(of_char x :: nat) div 16 < 16" using of_char_lt[of x] by (simp add: less_mult_imp_div_less)
  with Cons hex_digit_is_hex show ?case by auto
qed simp

lemma percent_no_slash: "CHR ''/'' \<notin> set (percent s)"
  using percent_chars by (fastforce simp: is_hex_def is_digit_def)

lemma percent_not_dots: "percent s \<noteq> ''.'' \<and> percent s \<noteq> ''..''"
  by (cases s) auto

lemma percent_Nil_iff [simp]: "percent s = [] \<longleftrightarrow> s = []"
  by (cases s) auto

definition key_path :: "go_string \<Rightarrow> go_string" where
  "key_path key = ''/kv/'' @ percent key"

lemma key_path_split: "Split (key_path key) CHR ''/'' = [[], ''kv'', percent key]"
  using Split_append[of "CHR ''/''" "''kv''" "percent key"] Split_no_sep[OF percent_no_slash, of key]
  by (simp add: key_path_def)

lemma key_path_clean: "key \<noteq> [] \<Longrightarrow> cleanPath (key_path key) = key_path key"
proof -
  assume "key \<noteq> []"
  then have "percent key \<noteq> []" by simp
  then have "last (percent key) \<noteq> CHR ''/''" using percent_no_slash[of key] by (metis last_in_set)
  then have "last (key_path key) \<noteq> CHR ''/''" using \<open>percent key \<noteq> []\<close> by (simp add: key_path_def)
  then show ?thesis using \<open>percent key \<noteq> []\<close> percent_not_dots[of key]
    unfolding cleanPath_def key_path_split Let_def by (simp add: rooted_def key_path_def)
qed

lemma key_path_taken: "key \<noteq> [] \<Longrightarrow> (if b then key_path key else cleanPath (key_path key)) = key_path key"
  by (simp add: key_path_clean)

lemma key_path_segments: "key \<noteq> [] \<Longrightarrow> mux_segments (key_path key) = [''kv'', key]"
  by (simp add: mux_segments_def key_path_split unescape_segment_def unescape_percent)

end
