(* ===== verification/Node_Handler.thy ===== *)
theory Node_Handler
  imports Node_Service Go_Http
begin

text \<open>
  \<open>internal/node/handler.go\<close>: the HTTP API of a node. A handler takes the service and the request
  and returns the service and the response. The bodies are the bytes \<open>json.Encoder\<close> writes for
  the package's structs. Two things come from outside: \<open>isPrint\<close>, the table behind
  \<open>strconv.IsPrint\<close>, which \<open>%q\<close> consults when it renders a key in an error message, and
  \<open>conn\<close>, which says whether the client still takes the n-th line of a listing.
\<close>

section \<open>Encoding the response structs\<close>

text \<open>A struct's fields are encoded in the order of their declaration.\<close>

definition object_text :: "(go_string \<times> go_string) list \<Rightarrow> go_string" where
  "object_text ms = CHR ''{'' # join '','' (map member_text ms) @ ''}''"

definition json_line :: "(go_string \<times> go_string) list \<Rightarrow> go_string" where
  "json_line ms = object_text ms @ [CHR 0x0A]"

definition successBody :: "Result \<Rightarrow> (go_string \<times> go_string) list option" where
  "successBody r = map_option (\<lambda>v. [(''key'', quote (res_Key r)), (''value'', v),
     (''version'', format_uint (unat (res_Version r)))]) (Compact (res_Value r))"

definition errorBody :: "go_string \<Rightarrow> go_string \<Rightarrow> uint64 option \<Rightarrow> (go_string \<times> go_string) list" where
  "errorBody msg key version =
     [(''error'', quote msg)] @ (if key = [] then [] else [(''key'', quote key)]) @
     (case version of None \<Rightarrow> [] | Some v \<Rightarrow> [(''version'', format_uint (unat v))])"

definition keyLine :: "go_string \<Rightarrow> go_string \<Rightarrow> (go_string \<times> go_string) list" where
  "keyLine key node = [(''key'', quote key), (''node'', quote node)]"

section \<open>Error texts\<close>

text \<open>The code point a string starts with, if it starts with a UTF-8 sequence.\<close>

definition decode_rune :: "go_string \<Rightarrow> nat" where
  "decode_rune s =
     (let b = (\<lambda>i. of_char (s ! i) :: nat); n = utf8_len s in
      if n = 1 then b 0
      else if n = 2 then (b 0 mod 32) * 64 + b 1 mod 64
      else if n = 3 then (b 0 mod 16) * 4096 + (b 1 mod 64) * 64 + b 2 mod 64
      else (b 0 mod 8) * 262144 + (b 1 mod 64) * 4096 + (b 2 mod 64) * 64 + b 3 mod 64)"

fun hex_digits :: "nat \<Rightarrow> nat \<Rightarrow> go_string" where
  "hex_digits 0 n = []"
| "hex_digits (Suc k) n = hex_digits k (n div 16) @ [hex_digit (n mod 16)]"

text \<open>\<open>strconv.Quote\<close>: one rune of the string, given its code point and its bytes.\<close>

definition escape_rune :: "(nat \<Rightarrow> bool) \<Rightarrow> nat \<Rightarrow> go_string \<Rightarrow> go_string" where
  "escape_rune isPrint r bytes =
     (if r = 0x22 \<or> r = 0x5C then CHR 0x5C # bytes
      else if isPrint r then bytes
      else if r = 7 then [CHR 0x5C, CHR ''a'']
      else if r = 8 then [CHR 0x5C, CHR ''b'']
      else if r = 12 then [CHR 0x5C, CHR ''f'']
      else if r = 10 then [CHR 0x5C, CHR ''n'']
      else if r = 13 then [CHR 0x5C, CHR ''r'']
      else if r = 9 then [CHR 0x5C, CHR ''t'']
      else if r = 11 then [CHR 0x5C, CHR ''v'']
      else if r < 32 \<or> r = 127 then CHR 0x5C # CHR ''x'' # hex_digits 2 r
      else if r < 0x10000 then CHR 0x5C # CHR ''u'' # hex_digits 4 r
      else CHR 0x5C # CHR ''U'' # hex_digits 8 r)"

function go_quote_loop :: "(nat \<Rightarrow> bool) \<Rightarrow> go_string \<Rightarrow> go_string" where
  "go_quote_loop isPrint [] = []"
| "go_quote_loop isPrint (c # cs) =
     (if utf8_len (c # cs) = 0
      then CHR 0x5C # CHR ''x'' # hex_digits 2 (of_char c) @ go_quote_loop isPrint cs
      else escape_rune isPrint (decode_rune (c # cs)) (take (utf8_len (c # cs)) (c # cs)) @
           go_quote_loop isPrint (drop (utf8_len (c # cs)) (c # cs)))"
  by pat_completeness auto
termination
  by (relation "measure (\<lambda>(isPrint, s). length s)") (simp_all del: utf8_len.simps drop_Cons')

declare go_quote_loop.simps(2) [simp del]

definition go_quote :: "(nat \<Rightarrow> bool) \<Rightarrow> go_string \<Rightarrow> go_string" where
  "go_quote isPrint s = CHR 0x22 # go_quote_loop isPrint s @ [CHR 0x22]"

definition MisdirectedError_Error :: "(nat \<Rightarrow> bool) \<Rightarrow> MisdirectedError \<Rightarrow> go_string" where
  "MisdirectedError_Error isPrint e =
     ''node '' @ md_NodeID e @ '' owns partitions '' @ Range_String (md_Owned e) @ '', but key '' @
     go_quote isPrint (md_Key e) @ '' is in partition '' @ format_uint (unat (md_Partition e))"

definition PartitionCountMismatchError_Error :: "PartitionCountMismatchError \<Rightarrow> go_string" where
  "PartitionCountMismatchError_Error e =
     ''node '' @ pm_NodeID e @ '' is configured for '' @ Itoa (Ours e) @ '' partitions, caller assumed '' @
     Itoa (Theirs e)"

section \<open>Responses\<close>

definition json_response :: "nat \<Rightarrow> go_string \<Rightarrow> Response" where
  "json_response status body =
     \<lparr>Status = status, RespContentType = ''application/json'', Allow = [], RespBody = body\<rparr>"

definition writeResult :: "nat \<Rightarrow> Result \<Rightarrow> Response" where
  "writeResult status r =
     json_response status (case successBody r of None \<Rightarrow> [] | Some ms \<Rightarrow> json_line ms)"

definition writeStatus :: "nat \<Rightarrow> go_string \<Rightarrow> go_string \<Rightarrow> uint64 option \<Rightarrow> Response" where
  "writeStatus status msg key version = json_response status (json_line (errorBody msg key version))"

definition writeError :: "(nat \<Rightarrow> bool) \<Rightarrow> go_string \<Rightarrow> service_error \<Rightarrow> Response" where
  "writeError isPrint key err =
     (case err of
        StoreFailed (VersionMismatch mismatch) \<Rightarrow>
          writeStatus 409 ''version mismatch'' key (if Current mismatch \<noteq> 0 then Some (Current mismatch) else None)
      | Misdirected misdirected \<Rightarrow> writeStatus 421 (MisdirectedError_Error isPrint misdirected) key None
      | ErrNotFound \<Rightarrow> writeStatus 404 ''key not found'' key None
      | ErrKeyEmpty \<Rightarrow> writeStatus 404 ''key must not be empty'' key None
      | ErrKeyTooLong \<Rightarrow> writeStatus 414 ''key too long'' [] None
      | ErrValueTooLarge \<Rightarrow> writeStatus 413 ''value too large'' key None
      | ErrInvalidJSON \<Rightarrow> writeStatus 400 ''body is not valid JSON'' key None
      | StoreFailed ErrConflictingGuards \<Rightarrow>
          writeStatus 400 ''store: IfAbsent and IfVersion cannot both be set'' key None)"

section \<open>Handlers\<close>

text \<open>A response means that the request must not proceed.\<close>

definition checkPartitionCount :: "Service \<Rightarrow> Request \<Rightarrow> Response option" where
  "checkPartitionCount s r =
     (let raw = PartitionHeader r in
      if raw = [] then None
      else case Atoi raw of
             Inl err \<Rightarrow> Some (writeStatus 400 ''invalid X-Partition-Count header'' [] None)
           | Inr theirs \<Rightarrow>
               (case CheckPartitionCount s theirs of
                  Some err \<Rightarrow> Some (writeStatus 421 (PartitionCountMismatchError_Error err) [] None)
                | None \<Rightarrow> None))"

definition parseIfVersion :: "go_string list \<Rightarrow> go_string + uint64 option" where
  "parseIfVersion vals =
     (case vals of
        [] \<Rightarrow> Inr None
      | [v] \<Rightarrow> (case ParseUint v of
                  Inl err \<Rightarrow> Inl ''ifVersion must be a non-negative integer''
                | Inr n \<Rightarrow> Inr (Some n))
      | _ \<Rightarrow> Inl ''ifVersion given more than once'')"

definition parseIfAbsent :: "go_string list \<Rightarrow> go_string + bool" where
  "parseIfAbsent vals =
     (case vals of
        [] \<Rightarrow> Inr False
      | [v] \<Rightarrow> if v = ''true'' \<or> v = ''1'' then Inr True
               else if v = ''false'' \<or> v = ''0'' then Inr False
               else Inl ''ifAbsent must be true or false''
      | _ \<Rightarrow> Inl ''ifAbsent given more than once'')"

definition parseGuards :: "Request \<Rightarrow> go_string + (uint64 option \<times> bool)" where
  "parseGuards r =
     (case parseIfVersion (Query (RawQuery r) ''ifVersion'') of
        Inl err \<Rightarrow> Inl err
      | Inr ifVersion \<Rightarrow>
          (case parseIfAbsent (Query (RawQuery r) ''ifAbsent'') of
             Inl err \<Rightarrow> Inl err
           | Inr ifAbsent \<Rightarrow>
               if ifAbsent \<and> ifVersion \<noteq> None then Inl ''ifAbsent and ifVersion cannot both be set''
               else Inr (ifVersion, ifAbsent)))"

definition get_handler :: "(nat \<Rightarrow> bool) \<Rightarrow> Service \<Rightarrow> Request \<Rightarrow> go_string \<Rightarrow> (Service \<times> Response) option" where
  "get_handler isPrint s r key =
     (case checkPartitionCount s r of
        Some resp \<Rightarrow> Some (s, resp)
      | None \<Rightarrow>
          (case Service_Get s key of
             None \<Rightarrow> None
           | Some (Inl err) \<Rightarrow> Some (s, writeError isPrint key err)
           | Some (Inr result) \<Rightarrow> Some (s, writeResult 200 result)))"

definition write_handler :: "(nat \<Rightarrow> bool) \<Rightarrow> Mode \<Rightarrow> Service \<Rightarrow> Request \<Rightarrow> go_string \<Rightarrow> (Service \<times> Response) option" where
  "write_handler isPrint mode s r key =
     (case checkPartitionCount s r of
        Some resp \<Rightarrow> Some (s, resp)
      | None \<Rightarrow>
          (case parseGuards r of
             Inl msg \<Rightarrow> Some (s, writeStatus 400 msg key None)
           | Inr (ifVersion, ifAbsent) \<Rightarrow>
               (case read_body (MaxValueBytes (svc_cfg s)) r of
                  Inl BodyTooLarge \<Rightarrow> Some (s, writeStatus 413 ''value too large'' key None)
                | Inl BodyUnreadable \<Rightarrow> Some (s, writeStatus 400 ''could not read request body'' key None)
                | Inr body \<Rightarrow>
                    (case Service_Write s \<lparr>wr_Key = key, wr_Mode = mode, wr_Body = body,
                                           wr_IfVersion = ifVersion, wr_IfAbsent = ifAbsent\<rparr> of
                       None \<Rightarrow> None
                     | Some (s', Inl err) \<Rightarrow> Some (s', writeError isPrint key err)
                     | Some (s', Inr result) \<Rightarrow> Some (s', writeResult 200 result)))))"

text \<open>The state of the listing: the bytes written, the number of lines, and the number of flushes.\<close>

record listing =
  l_out :: go_string
  l_written :: nat
  l_flushes :: nat

definition flushEvery :: nat where
  "flushEvery = 100"

definition list_line :: "(nat \<Rightarrow> bool) \<Rightarrow> go_string \<Rightarrow> listing \<Rightarrow> go_string \<Rightarrow> listing \<times> bool" where
  "list_line conn nodeID l key =
     (if \<not> conn (l_written l) then (l, False)
      else let n = l_written l + 1 in
           (\<lparr>l_out = l_out l @ json_line (keyLine key nodeID), l_written = n,
             l_flushes = (if n mod flushEvery = 0 then l_flushes l + 1 else l_flushes l)\<rparr>, True))"

definition list_keys :: "(nat \<Rightarrow> bool) \<Rightarrow> Service \<Rightarrow> listing" where
  "list_keys conn s =
     (let l = Service_Keys s (list_line conn (NodeID s)) \<lparr>l_out = [], l_written = 0, l_flushes = 0\<rparr> in
      l\<lparr>l_flushes := l_flushes l + 1\<rparr>)"

definition listKeys :: "(nat \<Rightarrow> bool) \<Rightarrow> Service \<Rightarrow> Request \<Rightarrow> Service \<times> Response" where
  "listKeys conn s r =
     (case checkPartitionCount s r of
        Some resp \<Rightarrow> (s, resp)
      | None \<Rightarrow> (s, \<lparr>Status = 200, RespContentType = ''application/x-ndjson'', Allow = [],
                     RespBody = l_out (list_keys conn s)\<rparr>))"

definition methodNotAllowed :: "Request \<Rightarrow> go_string \<Rightarrow> Response" where
  "methodNotAllowed r key =
     (writeStatus 405 (Method r @ '' is not supported on this resource'') key None)
       \<lparr>Allow := (if unescape False (EscapedPath r) = Some ''/kv'' then ''GET'' else ''GET, PUT, PATCH'')\<rparr>"

definition health :: "Service \<Rightarrow> Response" where
  "health s = json_response 200 (json_line
     [(''node'', quote (NodeID s)), (''ownedPartitions'', quote (Range_String (Owned s))),
      (''partitions'', Itoa (Service_PartitionCount s))])"

datatype node_route = H_get | H_put | H_patch | H_listKeys | H_methodNotAllowed | H_health

definition Routes :: "node_route pattern list" where
  "Routes =
     [(''GET'', [Lit ''kv'', Wild], H_get),
      (''PUT'', [Lit ''kv'', Wild], H_put),
      (''PATCH'', [Lit ''kv'', Wild], H_patch),
      (''GET'', [Lit ''kv''], H_listKeys),
      ([], [Lit ''kv'', Wild], H_methodNotAllowed),
      ([], [Lit ''kv''], H_methodNotAllowed),
      (''GET'', [Lit ''health''], H_health)]"

definition dispatch ::
    "(nat \<Rightarrow> bool) \<Rightarrow> (nat \<Rightarrow> bool) \<Rightarrow> node_route \<Rightarrow> Service \<Rightarrow> Request \<Rightarrow> go_string \<Rightarrow> (Service \<times> Response) option" where
  "dispatch isPrint conn h s r key =
     (case h of
        H_get \<Rightarrow> get_handler isPrint s r key
      | H_put \<Rightarrow> write_handler isPrint ModeReplace s r key
      | H_patch \<Rightarrow> write_handler isPrint ModeMerge s r key
      | H_listKeys \<Rightarrow> Some (listKeys conn s r)
      | H_methodNotAllowed \<Rightarrow> Some (s, methodNotAllowed r key)
      | H_health \<Rightarrow> Some (s, health s))"

definition ServeHTTP :: "(nat \<Rightarrow> bool) \<Rightarrow> (nat \<Rightarrow> bool) \<Rightarrow> Service \<Rightarrow> Request \<Rightarrow> (Service \<times> Response) option" where
  "ServeHTTP isPrint conn s r =
     (case mux_find Routes (Method r) (EscapedPath r) of
        MuxHandler h key \<Rightarrow> dispatch isPrint conn h s r key
      | other \<Rightarrow> Some (s, mux_error other))"

section \<open>Response bodies are JSON\<close>

lemma tight_value_quote: "tight_value (quote s)"
  unfolding tight_value_def using tight_run_quote_value by (intro exI conjI) (assumption, simp add: eof_ok_def)

lemma tight_run_digits: "list_all is_digit ds \<Longrightarrow> tight_run limit (Num1, ps) ds = Some (Num1, ps)"
  by (induction ds) (auto simp: elides_def dest: space_not_other)

lemma format_uint_head:
  "0 < n \<Longrightarrow> \<exists>c ds. format_uint n = c # ds \<and> is_digit19 c \<and> list_all is_digit ds"
proof (induction n rule: format_uint.induct)
  case (1 n)
  show ?case
  proof (cases "n < 10")
    case True
    then have "digit_val (digit_char n) \<noteq> digit_val CHR ''0''" using "1.prems" by (simp add: digit_val_def[of "CHR ''0''"])
    then have "digit_char n \<noteq> CHR ''0''" by auto
    then show ?thesis using True "1.prems" by (subst format_uint.simps) (auto simp: is_digit19_def)
  next
    case False
    then have "0 < n div 10" by (simp add: div_greater_zero_iff)
    then obtain c ds where "format_uint (n div 10) = c # ds" "is_digit19 c" "list_all is_digit ds"
      using "1.IH"[OF False] by blast
    then show ?thesis using False by (subst format_uint.simps) simp
  qed
qed

lemma digit19_start:
  assumes "is_digit19 c"
  shows "step limit (BeginValue, ps) c = Some (Num1, ps)" "step limit (Neg, ps) c = Some (Num1, ps)" "\<not> is_space c"
proof -
  show sp: "\<not> is_space c" using assms space_not_other by blast
  have "c \<noteq> CHR ''0''" "is_digit c" using assms by (simp_all add: is_digit19_def)
  moreover from this have "c \<noteq> CHR ''{''" "c \<noteq> CHR ''[''" "c \<noteq> CHR 0x22" "c \<noteq> CHR ''-''" "c \<noteq> CHR ''t''" "c \<noteq> CHR ''f''" "c \<noteq> CHR ''n''"
    by (auto simp: is_digit_def)
  ultimately show "step limit (BeginValue, ps) c = Some (Num1, ps)" "step limit (Neg, ps) c = Some (Num1, ps)"
    using assms sp by (simp_all add: begin_value_def)
qed

lemma tight_value_format_uint: "tight_value (format_uint n)"
proof (cases "n = 0")
  case True
  have "format_uint 0 = ''0''" by (subst format_uint.simps) (simp add: digit_char_def char_of_def bit_simps)
  then show ?thesis using True by (simp add: tight_value_def elides_def is_space_def begin_value_def eof_ok_def)
next
  case False
  then obtain c ds where "format_uint n = c # ds" "is_digit19 c" "list_all is_digit ds" using format_uint_head by blast
  then show ?thesis using digit19_start[of c] tight_run_digits by (simp add: tight_value_def elides_def eof_ok_def)
qed

lemma tight_value_Itoa: "tight_value (Itoa n)"
proof (cases "sint n < 0")
  case True
  then obtain c ds where "format_uint (nat (- sint n)) = c # ds" "is_digit19 c" "list_all is_digit ds"
    using format_uint_head[of "nat (- sint n)"] by auto
  then show ?thesis using True digit19_start[of c] tight_run_digits
    by (simp add: tight_value_def Itoa_def elides_def eof_ok_def is_space_def begin_value_def)
next
  case False
  then show ?thesis using tight_value_format_uint by (simp add: Itoa_def)
qed

definition good_fields :: "(go_string \<times> go_string) list \<Rightarrow> bool" where
  "good_fields ms \<longleftrightarrow> (\<forall>(k, w) \<in> set ms. valid_utf8 k \<and> tight_value w) \<and> distinct (map fst ms)"

lemma json_line_ok:
  assumes "good_fields ms"
  shows "Valid (json_line ms)" "Unmarshal_map (json_line ms) = Some ms"
proof -
  have line: "json_line ms = CHR ''{'' # join '','' (map member_text ms) @ CHR ''}'' # [CHR 0x0A]"
    by (simp add: json_line_def object_text_def)
  have nl: "\<forall>c \<in> set [CHR 0x0A]. is_space c" by (simp add: is_space_def)
  have "\<forall>(k, w) \<in> set ms. tight_value w" using assms by (auto simp: good_fields_def)
  then show "Valid (json_line ms)" unfolding line using nl by (rule object_text_Valid)
  show "Unmarshal_map (json_line ms) = Some ms" unfolding line
    using assms nl by (intro Unmarshal_object_text) (auto simp: good_fields_def)
qed

lemma field_names [simp]:
  "valid_utf8 ''key''" "valid_utf8 ''value''" "valid_utf8 ''version''" "valid_utf8 ''error''" "valid_utf8 ''node''"
  "valid_utf8 ''ownedPartitions''" "valid_utf8 ''partitions''"
  by (simp_all add: valid_utf8_ascii byte_in_def)

lemma good_errorBody: "good_fields (errorBody msg key version)"
  by (auto simp: good_fields_def errorBody_def tight_value_quote tight_value_format_uint split: option.splits)

section \<open>What the handlers do\<close>

definition respond :: "(nat \<Rightarrow> bool) \<Rightarrow> go_string \<Rightarrow> service_error + Result \<Rightarrow> Response" where
  "respond isPrint key r = (case r of Inl err \<Rightarrow> writeError isPrint key err | Inr result \<Rightarrow> writeResult 200 result)"

lemma Status_writeStatus [simp]: "Status (writeStatus status msg key version) = status"
  by (simp add: writeStatus_def json_response_def)

lemma Status_writeError:
  "Status (writeError isPrint key err) \<in> {400, 404, 409, 413, 414, 421}"
  by (cases err) (auto simp: writeError_def split: store_error.splits)

lemma Status_respond: "Status (respond isPrint key r) = 200 \<longleftrightarrow> is_ok r"
proof (cases r)
  case (Inl err)
  then show ?thesis using Status_writeError[of isPrint key err] by (auto simp: respond_def)
qed (simp add: respond_def writeResult_def json_response_def)

lemma checkPartitionCount_Status: "checkPartitionCount s r = Some resp \<Longrightarrow> Status resp \<in> {400, 421}"
  by (auto simp: checkPartitionCount_def Let_def split: if_splits sum.splits option.splits)

definition write_request :: "Mode \<Rightarrow> go_string \<Rightarrow> go_string \<Rightarrow> uint64 option \<times> bool \<Rightarrow> WriteRequest" where
  "write_request mode key body g = \<lparr>wr_Key = key, wr_Mode = mode, wr_Body = body, wr_IfVersion = fst g, wr_IfAbsent = snd g\<rparr>"

lemma write_request_simps [simp]:
  "wr_Key (write_request mode key body g) = key" "wr_Mode (write_request mode key body g) = mode"
  "wr_Body (write_request mode key body g) = body" "wr_IfVersion (write_request mode key body g) = fst g"
  "wr_IfAbsent (write_request mode key body g) = snd g"
  by (simp_all add: write_request_def)

text \<open>The part of a write that does not depend on what the node holds: the request is refused, or is this write.\<close>

definition write_decoded :: "Service \<Rightarrow> Request \<Rightarrow> go_string \<Rightarrow> Response + go_string \<times> uint64 option \<times> bool" where
  "write_decoded s r key =
     (case checkPartitionCount s r of
        Some resp \<Rightarrow> Inl resp
      | None \<Rightarrow>
          (case parseGuards r of
             Inl msg \<Rightarrow> Inl (writeStatus 400 msg key None)
           | Inr g \<Rightarrow>
               (case read_body (MaxValueBytes (svc_cfg s)) r of
                  Inl BodyTooLarge \<Rightarrow> Inl (writeStatus 413 ''value too large'' key None)
                | Inl BodyUnreadable \<Rightarrow> Inl (writeStatus 400 ''could not read request body'' key None)
                | Inr body \<Rightarrow> Inr (body, g))))"

lemma write_decoded_Status: "write_decoded s r key = Inl resp \<Longrightarrow> Status resp \<in> {400, 413, 421}"
  using checkPartitionCount_Status[of s r]
  by (auto simp: write_decoded_def split: option.splits sum.splits body_error.splits)

lemma checkPartitionCount_cfg:
  assumes "svc_cfg s' = svc_cfg s"
  shows "checkPartitionCount s' r = checkPartitionCount s r"
proof -
  have "CheckPartitionCount s' = CheckPartitionCount s" using assms by (simp add: CheckPartitionCount_def fun_eq_iff)
  then show ?thesis unfolding checkPartitionCount_def by (rule arg_cong)
qed

lemma write_decoded_cfg:
  assumes "svc_cfg s' = svc_cfg s"
  shows "write_decoded s' r key = write_decoded s r key"
  unfolding write_decoded_def checkPartitionCount_cfg[OF assms] assms ..

lemma write_handler_decoded:
  "write_handler isPrint mode s r key =
     (case write_decoded s r key of
        Inl resp \<Rightarrow> Some (s, resp)
      | Inr (body, g) \<Rightarrow> map_option (\<lambda>(s', res). (s', respond isPrint key res)) (Service_Write s (write_request mode key body g)))"
  by (auto simp: write_handler_def write_decoded_def write_request_def respond_def split: option.splits sum.splits body_error.splits)

lemma spec_service_write_error:
  "snd (spec_service_write s req) = Inl err \<Longrightarrow> fst (spec_service_write s req) = holds s"
  by (auto simp: spec_service_write_def spec_write_def as_result_def split: option.splits if_splits)

lemma write_handler_spec:
  assumes "node_ok s"
  obtains s' resp where "write_handler isPrint mode s r key = Some (s', resp)" "node_ok s'" "svc_cfg s' = svc_cfg s"
    "holds s' \<noteq> holds s \<Longrightarrow> Status resp = 200"
proof (cases "write_decoded s r key")
  case (Inl resp)
  then show thesis using that[of s resp] assms by (simp add: write_handler_decoded)
next
  case (Inr bg)
  let ?req = "write_request mode key (fst bg) (snd bg)"
  obtain s' where s': "Service_Write s ?req = Some (s', snd (spec_service_write s ?req))" "node_ok s'"
    "holds s' = fst (spec_service_write s ?req)" "svc_cfg s' = svc_cfg s" using Service_Write_spec[OF assms] by blast
  let ?resp = "respond isPrint key (snd (spec_service_write s ?req))"
  have "write_handler isPrint mode s r key = Some (s', ?resp)"
    using Inr s'(1) by (cases bg) (simp add: write_handler_decoded)
  moreover have "Status ?resp = 200" if "holds s' \<noteq> holds s"
    using that s'(3) spec_service_write_error[of s ?req]
    unfolding Status_respond by (cases "snd (spec_service_write s ?req)") auto
  ultimately show thesis using that s' by blast
qed

lemma get_handler_respond:
  "Service_Get s key = Some res \<Longrightarrow> checkPartitionCount s r = None \<Longrightarrow>
   get_handler isPrint s r key = Some (s, respond isPrint key res)"
  by (simp add: get_handler_def respond_def split: sum.splits)

lemma get_handler_spec:
  assumes "node_ok s"
  obtains resp where "get_handler isPrint s r key = Some (s, resp)"
proof (cases "checkPartitionCount s r")
  case None
  then show thesis using that Service_Get_spec[OF assms, of key] get_handler_respond by blast
qed (simp add: get_handler_def that)

lemma find_pattern_SomeD:
  "find_pattern m ss pats = Some (h, vs) \<Longrightarrow> \<exists>ps. (m, ps, h) \<in> set pats \<and> match_segments ps ss = Some vs"
  by (induction m ss pats rule: find_pattern.induct) (auto split: if_splits option.splits)

lemma mux_find_HandlerD:
  assumes "mux_find pats m p = MuxHandler h key"
  obtains pm ps where "(pm, ps, h) \<in> set pats" "pm = m \<or> pm = [] \<or> pm = ''GET'' \<and> m = ''HEAD''"
  using assms that by (auto simp: mux_find_def Let_def split: if_splits option.splits list.splits dest!: find_pattern_SomeD)

lemma mux_find_write:
  "mux_find Routes m p = MuxHandler H_put key \<Longrightarrow> m = ''PUT''"
  "mux_find Routes m p = MuxHandler H_patch key \<Longrightarrow> m = ''PATCH''"
  by (erule mux_find_HandlerD; auto simp: Routes_def)+

text \<open>
  C20. A node never panics on a request, whatever it contains, and serving one keeps the node's
  invariant. What the node holds changes only on a PUT or PATCH that is answered with 200: an error
  response means that nothing was written.
\<close>

theorem ServeHTTP_safe:
  assumes "node_ok s"
  shows "\<exists>s' resp. ServeHTTP isPrint conn s r = Some (s', resp) \<and> node_ok s' \<and> svc_cfg s' = svc_cfg s \<and>
           (holds s' = holds s \<or> Status resp = 200 \<and> (Method r = ''PUT'' \<or> Method r = ''PATCH''))"
proof (cases "mux_find Routes (Method r) (EscapedPath r)")
  case (MuxHandler h key)
  have wr: "\<exists>s' resp. write_handler isPrint mode s r key = Some (s', resp) \<and> node_ok s' \<and> svc_cfg s' = svc_cfg s \<and>
           (holds s' = holds s \<or> Status resp = 200)" for mode
    using write_handler_spec[OF assms, of isPrint mode r key] by metis
  obtain resp where gt: "get_handler isPrint s r key = Some (s, resp)" using get_handler_spec[OF assms] by blast
  obtain resp' where ls: "listKeys conn s r = (s, resp')" by (cases "checkPartitionCount s r") (simp_all add: listKeys_def)
  have "ServeHTTP isPrint conn s r = dispatch isPrint conn h s r key" using MuxHandler by (simp add: ServeHTTP_def)
  then show ?thesis
    using assms MuxHandler gt ls wr[of ModeReplace] wr[of ModeMerge] mux_find_write[of "Method r" "EscapedPath r" key]
    by (cases h) (auto simp: dispatch_def)
qed (use assms in \<open>simp_all add: ServeHTTP_def\<close>)

theorem ServeHTTP_safe_witness:
  "\<exists>s s' resp. node_ok s \<and> node_ok s' \<and>
     ServeHTTP (\<lambda>_. True) (\<lambda>_. True) s \<lparr>Method = ''DELETE'', EscapedPath = ''/kv/k'', RawQuery = [],
       PartitionHeader = ''abc'', ContentType = [], ReqBody = [], BodyBroken = False\<rparr> = Some (s', resp) \<and> holds s' = holds s"
proof -
  obtain s where s: "node_ok s" by (rule sample_node)
  from ServeHTTP_safe[OF s, of "\<lambda>_. True" "\<lambda>_. True" "\<lparr>Method = ''DELETE'', EscapedPath = ''/kv/k'', RawQuery = [],
       PartitionHeader = ''abc'', ContentType = [], ReqBody = [], BodyBroken = False\<rparr>"] s show ?thesis by force
qed

section \<open>Addressing keys\<close>

lemma mux_find_key_path:
  assumes "key \<noteq> []" "key \<noteq> ''/''"
  shows "mux_find Routes m (key_path key) =
     MuxHandler (if m = ''GET'' \<or> m = ''HEAD'' then H_get else if m = ''PUT'' then H_put
                 else if m = ''PATCH'' then H_patch else H_methodNotAllowed) key"
  unfolding mux_find_def Let_def key_path_taken[OF assms(1)] key_path_segments[OF assms(1)]
  using assms by (simp add: Routes_def)

text \<open>
  C28. Every key except the empty one and the single slash can be addressed: its percent-encoded
  path reaches the handler of the request's method with exactly that key, slashes, dots and
  arbitrary bytes included, and HEAD is served like GET. A method without a handler gets the
  package's own 405, never the router's.
\<close>

theorem key_routes:
  assumes "key \<noteq> []" "key \<noteq> ''/''"
  shows "mux_find Routes m (key_path key) =
     MuxHandler (if m = ''GET'' \<or> m = ''HEAD'' then H_get else if m = ''PUT'' then H_put
                 else if m = ''PATCH'' then H_patch else H_methodNotAllowed) key"
  by (rule mux_find_key_path[OF assms])

theorem key_routes_witness:
  "mux_find Routes ''HEAD'' (key_path ''a/../b'') = MuxHandler H_get ''a/../b''"
  using key_routes[of "''a/../b''" "''HEAD''"] by simp

section \<open>Reading a success body\<close>

lemma good_successBody:
  assumes "good_value (res_Value r)"
  obtains v where "Compact (res_Value r) = Some v" "tight_value v"
    "successBody r = Some [(''key'', quote (res_Key r)), (''value'', v), (''version'', format_uint (unat (res_Version r)))]"
    "good_fields [(''key'', quote (res_Key r)), (''value'', v), (''version'', format_uint (unat (res_Version r)))]"
  using good_value_Compact[OF assms] that
  by (auto simp: successBody_def good_fields_def tight_value_quote tight_value_format_uint)



text \<open>
  Every error answer of a handler is a JSON object whose \<open>error\<close> field is its message and
  whose \<open>version\<close> field, when there is one, parses to the version given; whatever bytes the key
  and the message have.
\<close>

lemma error_body_reads_back:
  "\<exists>m q. Unmarshal_map (RespBody (writeStatus status msg key version)) = Some m \<and> map_of m ''error'' = Some q \<and>
         unquote q = Some (sanitize msg) \<and>
         (case version of None \<Rightarrow> map_of m ''version'' = None
          | Some v \<Rightarrow> (\<exists>n. map_of m ''version'' = Some n \<and> ParseUint n = Inr v))"
proof -
  have "Unmarshal_map (RespBody (writeStatus status msg key version)) = Some (errorBody msg key version)"
    using json_line_ok(2)[OF good_errorBody] by (simp add: writeStatus_def json_response_def)
  moreover have "map_of (errorBody msg key version) ''error'' = Some (quote msg)" by (simp add: errorBody_def)
  moreover have "map_of (errorBody msg key version) ''version'' = map_option (\<lambda>v. format_uint (unat v)) version"
    by (simp add: errorBody_def split: option.splits)
  ultimately show ?thesis by (auto simp: unquote_quote split: option.splits)
qed

section \<open>Conflicts and retries\<close>

definition retry :: "Request \<Rightarrow> uint64 \<Rightarrow> Request" where
  "retry r v = r\<lparr>RawQuery := ''ifVersion='' @ format_uint (unat v)\<rparr>"

lemma retry_simps [simp]:
  "PartitionHeader (retry r v) = PartitionHeader r" "ReqBody (retry r v) = ReqBody r"
  "BodyBroken (retry r v) = BodyBroken r" "Method (retry r v) = Method r" "EscapedPath (retry r v) = EscapedPath r"
  by (simp_all add: retry_def)

lemma unescape_plain: "CHR ''%'' \<notin> set s \<Longrightarrow> CHR ''+'' \<notin> set s \<Longrightarrow> unescape query s = Some s"
  by (induction s) auto

lemma parseGuards_retry: "parseGuards (retry r v) = Inr (Some v, False)"
proof -
  let ?d = "format_uint (unat v)" and ?q = "''ifVersion='' @ format_uint (unat v)"
  have d: "c \<notin> set ?d" if "\<not> is_digit c" for c using that by (rule digits_no_char)
  have nd: "\<not> is_digit CHR ''&''" "\<not> is_digit CHR '';''" "\<not> is_digit CHR ''%''" "\<not> is_digit CHR ''+''"
    by (simp_all add: is_digit_def)
  have sp: "Split ?q CHR ''&'' = [?q]" using d nd by (intro Split_no_sep) auto
  have "Cut ?q CHR ''='' = (''ifVersion'', ?d, True)" using Cut_found[of "CHR ''=''" "''ifVersion''" ?d] by simp
  moreover have "unescape True ?d = Some ?d" "unescape True ''ifVersion'' = Some ''ifVersion''"
    using d nd by (auto intro!: unescape_plain)
  ultimately have "query_pair ?q = Some (''ifVersion'', ?d)" using d nd by (auto simp: query_pair_def)
  then have "Query ?q ''ifVersion'' = [?d]" "Query ?q ''ifAbsent'' = []"
    unfolding Query_def sp by (simp_all add: List.map_filter_simps)
  then show ?thesis by (simp add: parseGuards_def retry_def parseIfVersion_def parseIfAbsent_def)
qed

lemma write_decoded_retry:
  assumes "write_decoded s r key = Inr (body, g)"
  shows "write_decoded s (retry r v) key = Inr (body, Some v, False)"
proof -
  have "checkPartitionCount s (retry r v) = checkPartitionCount s r" "read_body n (retry r v) = read_body n r" for n
    by (simp_all add: checkPartitionCount_def read_body_def)
  then show ?thesis using assms
    by (auto simp: write_decoded_def parseGuards_retry split: option.splits sum.splits body_error.splits)
qed

lemma checkKey_no_store_error: "checkKey s key \<noteq> Some (StoreFailed err)"
  by (simp add: checkKey_def Let_def)

lemma service_conflict:
  assumes "snd (spec_service_write s req) = Inl (StoreFailed (VersionMismatch mm))" "holds s (wr_Key req) = Some e"
  shows "Current mm = Version e" "checkKey s (wr_Key req) = None"
    "\<not> sint (MaxValueBytes (svc_cfg s)) < int (length (wr_Body req))" "Valid (wr_Body req)"
  using assms checkKey_no_store_error[of s "wr_Key req"]
  by (auto simp: spec_service_write_def as_result_def spec_write_def version_of_def split: option.splits if_splits)

lemma respond_409:
  assumes "Status (respond isPrint key res) = 409"
  obtains mm where "res = Inl (StoreFailed (VersionMismatch mm))"
proof (cases res)
  case (Inl err)
  then show thesis using assms that by (cases err) (auto simp: respond_def writeError_def split: store_error.splits)
qed (use assms in \<open>simp add: respond_def writeResult_def json_response_def\<close>)

text \<open>
  C21. A conflict carries what the retry needs: when a write to an existing key is answered with
  409, the body's \<open>version\<close> field parses to the key's current version, nothing was written, and
  sending the same request again with that \<open>ifVersion\<close> succeeds if nobody wrote in between.
\<close>

theorem conflict_then_retry:
  assumes "node_ok s" "holds s key = Some e" "Version e \<noteq> 0"
    "write_handler isPrint mode s r key = Some (s', resp)" "Status resp = 409"
  shows "\<exists>m n s'' resp''. Unmarshal_map (RespBody resp) = Some m \<and> map_of m ''version'' = Some n \<and>
           ParseUint n = Inr (Version e) \<and> holds s' = holds s \<and>
           write_handler isPrint mode s' (retry r (Version e)) key = Some (s'', resp'') \<and> Status resp'' = 200"
proof -
  obtain body g where d: "write_decoded s r key = Inr (body, g)"
    using assms(4,5) write_decoded_Status[of s r key] by (fastforce simp: write_handler_decoded split: sum.splits)
  let ?req = "write_request mode key body g" and ?req' = "write_request mode key body (Some (Version e), False)"
  obtain s1 where s1: "Service_Write s ?req = Some (s1, snd (spec_service_write s ?req))" "node_ok s1"
    "holds s1 = fst (spec_service_write s ?req)" "svc_cfg s1 = svc_cfg s" using Service_Write_spec[OF assms(1)] by blast
  with d assms(4) have s': "s' = s1" and resp: "resp = respond isPrint key (snd (spec_service_write s ?req))"
    by (simp_all add: write_handler_decoded)
  then obtain mm where mm: "snd (spec_service_write s ?req) = Inl (StoreFailed (VersionMismatch mm))"
    using assms(5) respond_409 by blast
  note c = service_conflict[OF mm, simplified, OF assms(2)]
  have same: "holds s1 = holds s" using s1(3) spec_service_write_error[OF mm] by simp
  have body: "Unmarshal_map (RespBody resp) = Some (errorBody ''version mismatch'' key (Some (Version e)))"
    using json_line_ok(2)[OF good_errorBody] assms(3) resp mm c(1)
    by (simp add: respond_def writeError_def writeStatus_def json_response_def)
  have dec: "write_decoded s1 (retry r (Version e)) key = Inr (body, Some (Version e), False)"
    using write_decoded_retry[OF d] write_decoded_cfg[OF s1(4)] by simp
  have "is_ok (snd (spec_service_write s1 ?req'))"
    using c s1(4) same assms(2) checkKey_cfg[OF s1(4), of key]
    by (simp add: spec_service_write_def spec_write_def guard_ok_def version_of_def as_result_def)
  then have "\<exists>s'' resp''. write_handler isPrint mode s1 (retry r (Version e)) key = Some (s'', resp'') \<and> Status resp'' = 200"
    using Service_Write_spec[OF s1(2), of ?req'] dec Status_respond[of isPrint key]
    by (auto simp: write_handler_decoded)
  then show ?thesis using body same s' by (auto simp: errorBody_def)
qed

lemma sample_key: "svc_cfg s = sample_cfg \<Longrightarrow> checkKey s ''k'' = None"
  by (rule sample_accepts) simp_all

lemma parseGuards_if_absent:
  "RawQuery r = ''ifAbsent=true'' \<Longrightarrow> parseGuards r = Inr (None, True)"
  by (simp add: parseGuards_def Query_def query_pair_def Cut_def parseIfVersion_def parseIfAbsent_def List.map_filter_simps)

theorem conflict_then_retry_witness:
  "\<exists>s s' resp m n. node_ok s \<and> Status resp = 409 \<and> Unmarshal_map (RespBody resp) = Some m \<and>
     map_of m ''version'' = Some n \<and> ParseUint n = Inr 1 \<and>
     write_handler (\<lambda>_. True) ModeReplace s \<lparr>Method = ''PUT'', EscapedPath = ''/kv/k'', RawQuery = ''ifAbsent=true'',
       PartitionHeader = [], ContentType = [], ReqBody = ''2'', BodyBroken = False\<rparr> ''k'' = Some (s', resp)"
proof -
  let ?r = "\<lparr>Method = ''PUT'', EscapedPath = ''/kv/k'', RawQuery = ''ifAbsent=true'',
       PartitionHeader = [], ContentType = [], ReqBody = ''2'', BodyBroken = False\<rparr>"
  let ?req = "write_request ModeReplace ''k'' ''2'' (None, True)"
  obtain s where s: "node_ok s" "holds s = [''k'' \<mapsto> \<lparr>Value = ''[1]'', Version = 1\<rparr>]" "svc_cfg s = sample_cfg"
    by (rule sample_node_k)
  have dec: "write_decoded s ?r ''k'' = Inr (''2'', None, True)"
    using s(3) by (simp add: write_decoded_def checkPartitionCount_def parseGuards_if_absent read_body_def sample_cfg_def)
  have "Valid ''2''" by (simp add: json_eval)
  then obtain mm where mm: "snd (spec_service_write s ?req) = Inl (StoreFailed (VersionMismatch mm))"
    using s sample_key[OF s(3)]
    by (auto simp: spec_service_write_def spec_write_def guard_ok_def as_result_def sample_cfg_def store_op_def)
  obtain s' where w: "write_handler (\<lambda>_. True) ModeReplace s ?r ''k'' =
      Some (s', respond (\<lambda>_. True) ''k'' (Inl (StoreFailed (VersionMismatch mm))))"
    using Service_Write_spec[OF s(1), of ?req] dec mm by (auto simp: write_handler_decoded)
  have st: "Status (respond (\<lambda>_. True) ''k'' (Inl (StoreFailed (VersionMismatch mm)))) = 409"
    by (simp add: respond_def writeError_def)
  have "holds s ''k'' = Some \<lparr>Value = ''[1]'', Version = 1\<rparr>" using s(2) by simp
  from conflict_then_retry[OF s(1) this _ w st] obtain m n where
    "Unmarshal_map (RespBody (respond (\<lambda>_. True) ''k'' (Inl (StoreFailed (VersionMismatch mm))))) = Some m"
    "map_of m ''version'' = Some n" "ParseUint n = Inr 1" by auto
  then show ?thesis using s(1) st w by blast
qed

section \<open>Reading over HTTP what was written over HTTP\<close>

text \<open>
  C25. A GET after a PUT or PATCH that succeeded answers with exactly the bytes the write was
  answered with, for every key that can be addressed.
\<close>

theorem http_read_after_write:
  assumes "node_ok s" "key \<noteq> []" "key \<noteq> ''/''" "EscapedPath r = key_path key" "Method r = ''PUT'' \<or> Method r = ''PATCH''"
    "ServeHTTP isPrint conn s r = Some (s', resp)" "Status resp = 200"
  shows "ServeHTTP isPrint conn s' (r\<lparr>Method := ''GET''\<rparr>) = Some (s', resp)"
proof -
  obtain mode where wr: "write_handler isPrint mode s r key = Some (s', resp)"
    using assms mux_find_key_path[OF assms(2,3), of "Method r"] by (auto simp: ServeHTTP_def dispatch_def)
  obtain body g where d: "write_decoded s r key = Inr (body, g)"
    using wr assms(7) write_decoded_Status[of s r key] by (fastforce simp: write_handler_decoded split: sum.splits)
  then obtain res where res: "Service_Write s (write_request mode key body g) = Some (s', res)" "resp = respond isPrint key res"
    using wr by (auto simp: write_handler_decoded)
  have "is_ok res" using assms(7) res(2) Status_respond by simp
  then have get: "Service_Get s' key = Some res" using Service_read_back[OF assms(1) res(1), of key] by simp
  have cfg: "svc_cfg s' = svc_cfg s" using Service_Write_spec[OF assms(1)] res(1) by (metis option.inject prod.inject)
  have "checkPartitionCount s r = None" using d by (auto simp: write_decoded_def split: option.splits)
  then have "checkPartitionCount s' (r\<lparr>Method := ''GET''\<rparr>) = None"
    using checkPartitionCount_cfg[OF cfg, of r] by (simp add: checkPartitionCount_def)
  from get_handler_respond[OF get this] res(2) show ?thesis
    using assms(4) mux_find_key_path[OF assms(2,3), of "''GET''"] by (simp add: ServeHTTP_def dispatch_def)
qed

theorem http_read_after_write_witness:
  "\<exists>s s' resp. node_ok s \<and>
     ServeHTTP (\<lambda>_. True) (\<lambda>_. True) s \<lparr>Method = ''PUT'', EscapedPath = key_path ''k'', RawQuery = [],
       PartitionHeader = [], ContentType = [], ReqBody = ''2'', BodyBroken = False\<rparr> = Some (s', resp) \<and>
     ServeHTTP (\<lambda>_. True) (\<lambda>_. True) s' \<lparr>Method = ''GET'', EscapedPath = key_path ''k'', RawQuery = [],
       PartitionHeader = [], ContentType = [], ReqBody = ''2'', BodyBroken = False\<rparr> = Some (s', resp)"
proof -
  let ?r = "\<lparr>Method = ''PUT'', EscapedPath = key_path ''k'', RawQuery = [], PartitionHeader = [],
    ContentType = [], ReqBody = ''2'', BodyBroken = False\<rparr>"
  let ?req = "write_request ModeReplace ''k'' ''2'' (None, False)"
  obtain s where s: "node_ok s" "holds s = Map.empty" "svc_cfg s = sample_cfg" by (rule sample_node)
  have "parseGuards ?r = Inr (None, False)"
    by (simp add: parseGuards_def Query_def query_pair_def parseIfVersion_def parseIfAbsent_def List.map_filter_simps)
  then have dec: "write_decoded s ?r ''k'' = Inr (''2'', None, False)"
    using s(3) by (simp add: write_decoded_def checkPartitionCount_def read_body_def sample_cfg_def)
  have "Valid ''2''" by (simp add: json_eval)
  then have ok: "is_ok (snd (spec_service_write s ?req))"
    using s sample_key[OF s(3)]
    by (simp add: spec_service_write_def spec_write_def guard_ok_def as_result_def sample_cfg_def store_op_def)
  obtain s' where w: "write_handler (\<lambda>_. True) ModeReplace s ?r ''k'' = Some (s', respond (\<lambda>_. True) ''k'' (snd (spec_service_write s ?req)))"
    using Service_Write_spec[OF s(1), of ?req] dec by (auto simp: write_handler_decoded)
  then have "ServeHTTP (\<lambda>_. True) (\<lambda>_. True) s ?r = Some (s', respond (\<lambda>_. True) ''k'' (snd (spec_service_write s ?req)))"
    using mux_find_key_path[of "''k''" "''PUT''"] by (simp add: ServeHTTP_def dispatch_def)
  from http_read_after_write[OF s(1) _ _ _ _ this, of "''k''"] this s(1) ok Status_respond show ?thesis by auto
qed

section \<open>Listing keys\<close>

definition key_lines :: "go_string \<Rightarrow> go_string list \<Rightarrow> go_string" where
  "key_lines nodeID ks = concat (map (\<lambda>k. json_line (keyLine k nodeID)) ks)"

lemma good_keyLine: "good_fields (keyLine key node)"
  by (simp add: good_fields_def keyLine_def tight_value_quote)

lemma list_line_step:
  "list_line (\<lambda>_. True) nodeID \<lparr>l_out = out, l_written = n, l_flushes = n div flushEvery\<rparr> k =
   (\<lparr>l_out = out @ json_line (keyLine k nodeID), l_written = n + 1, l_flushes = (n + 1) div flushEvery\<rparr>, True)"
  by (simp add: list_line_def Let_def flushEvery_def div_Suc)

lemma yield_list_line:
  "yield_keys (list_line (\<lambda>_. True) nodeID) \<lparr>l_out = out, l_written = n, l_flushes = n div flushEvery\<rparr> ks =
   (\<lparr>l_out = out @ key_lines nodeID ks, l_written = n + length ks, l_flushes = (n + length ks) div flushEvery\<rparr>, True)"
proof (induction ks arbitrary: out n)
  case (Cons k ks)
  show ?case unfolding yield_keys.simps list_line_step
    using Cons[of "out @ json_line (keyLine k nodeID)" "n + 1"] by (simp add: key_lines_def)
qed (simp add: key_lines_def)

text \<open>
  The listing of a node: one line per key it holds, each key once, each line a JSON object
  that names the key and the node; the connection is flushed after every hundred lines and once
  at the end.
\<close>

lemma list_keys_complete:
  assumes "node_ok s"
  shows "\<exists>ks. distinct ks \<and> set ks = dom (holds s) \<and>
           list_keys (\<lambda>_. True) s =
             \<lparr>l_out = key_lines (NodeID s) ks, l_written = length ks, l_flushes = length ks div 100 + 1\<rparr> \<and>
           (\<forall>k. Unmarshal_map (json_line (keyLine k (NodeID s))) = Some (keyLine k (NodeID s)))"
proof -
  have ok: "store_ok (svc_store s)" using assms by (simp add: node_ok_def)
  have "list_keys (\<lambda>_. True) s = \<lparr>l_out = key_lines (NodeID s) (all_keys (svc_store s)),
      l_written = length (all_keys (svc_store s)), l_flushes = length (all_keys (svc_store s)) div 100 + 1\<rparr>"
    using yield_list_line[of "NodeID s" "[]" 0 "all_keys (svc_store s)"]
    by (simp add: list_keys_def Service_Keys_def Keys_all_keys flushEvery_def)
  then show ?thesis using all_keys_set[OF ok] all_keys_distinct[OF ok] json_line_ok(2)[OF good_keyLine]
    by (intro exI[of _ "all_keys (svc_store s)"]) simp
qed

end
