(* ===== verification/Store_Text.thy ===== *)
theory Store_Text
  imports Node_Handler
begin

text \<open>
  The texts of \<open>internal/store/entry.go\<close> that go to logs and callers of the package but into no
  response: the name of a write mode and the message of a version mismatch. The name determines
  the mode, and the message of an error that a write returns says how the guard failed.
\<close>

section \<open>Modes\<close>

text \<open>\<open>Mode\<close> is a byte in Go, and its two constants are 0 and 1.\<close>

fun mode_byte :: "Mode \<Rightarrow> 8 word" where
  "mode_byte ModeReplace = 0"
| "mode_byte ModeMerge = 1"

definition Mode_String :: "8 word \<Rightarrow> go_string" where
  "Mode_String m =
     (if m = mode_byte ModeReplace then ''replace''
      else if m = mode_byte ModeMerge then ''merge''
      else ''Mode('' @ format_uint (unat m) @ '')'')"

lemma Mode_String_inject: "Mode_String m = Mode_String m' \<longleftrightarrow> m = m'"
proof -
  have "m = m'" if "format_uint (unat m) = format_uint (unat m')"
  proof -
    from that have "dec_value 0 (format_uint (unat m)) = dec_value 0 (format_uint (unat m'))" by (rule arg_cong)
    then have "unat m = unat m'" by (simp only: dec_value_format_uint)
    then show "m = m'" by (simp only: word_unat_eq_iff)
  qed
  then show ?thesis by (auto simp: Mode_String_def)
qed

section \<open>The message of a version mismatch\<close>

definition VersionMismatchError_Error :: "(nat \<Rightarrow> bool) \<Rightarrow> VersionMismatchError \<Rightarrow> go_string" where
  "VersionMismatchError_Error isPrint e =
     (if RequiredAbsent e
      then ''store: key '' @ go_quote isPrint (vm_Key e) @ '' already exists at version '' @ format_uint (unat (Current e))
      else if Current e = 0
      then ''store: key '' @ go_quote isPrint (vm_Key e) @ '' does not exist, cannot match version '' @ format_uint (unat (Expected e))
      else ''store: key '' @ go_quote isPrint (vm_Key e) @ '' is at version '' @ format_uint (unat (Current e)) @
             '', not '' @ format_uint (unat (Expected e)))"

lemma mismatch_message:
  assumes "store_ok s" "Write s opn = Some (s', Inl (VersionMismatch e))" "\<forall>c. contents s (Key opn) = Some c \<longrightarrow> Version c \<noteq> 0"
  shows "VersionMismatchError_Error isPrint e = ''store: key '' @ go_quote isPrint (Key opn) @
    (case (IfVersion opn, contents s (Key opn)) of
       (None, c) \<Rightarrow> '' already exists at version '' @ format_uint (unat (version_of c))
     | (Some v, None) \<Rightarrow> '' does not exist, cannot match version '' @ format_uint (unat v)
     | (Some v, Some c) \<Rightarrow> '' is at version '' @ format_uint (unat (Version c)) @ '', not '' @ format_uint (unat v))"
proof -
  have r: "snd (spec_write (contents s) opn) = Inl (VersionMismatch e)"
    using Write_spec[OF assms(1), of opn] assms(2) by auto
  then have e: "e = \<lparr>vm_Key = Key opn, Expected = (case IfVersion opn of None \<Rightarrow> 0 | Some v \<Rightarrow> v),
      Current = version_of (contents s (Key opn)), RequiredAbsent = IfAbsent opn\<rparr>"
    and g: "\<not> (IfAbsent opn \<and> IfVersion opn \<noteq> None)" "\<not> guard_ok opn (contents s (Key opn))"
    by (auto simp: spec_write_def split: if_splits)
  show ?thesis using g assms(3) unfolding e
    by (cases "IfVersion opn"; cases "contents s (Key opn)")
      (auto simp: VersionMismatchError_Error_def guard_ok_def version_of_def)
qed

end
