(* ===== verification/Proxy.thy ===== *)
theory Proxy
  imports Node_Handler
begin

text \<open>
  Package \<open>internal/proxy\<close>: the stateless router in front of the nodes. The HTTP client and the
  network behind it are the parameter \<open>send\<close>: given the state of the network, a node's base URL
  and the outbound request, it returns the new state and either a failure or the node's response,
  with a flag that says that the response body broke off after the bytes given.

  The key listing runs one goroutine per node, each writing whole lines to the client under a
  mutex; \<open>merges\<close> is the relation between the lines of the goroutines and the lines the client
  sees.
\<close>

section \<open>Calling nodes\<close>

record Caller =
  addresses :: "go_string \<rightharpoonup> go_string"
  caller_partitionCount :: go_int
  caller_timeout :: go_int

definition NewCaller :: "(go_string \<rightharpoonup> go_string) \<Rightarrow> go_int \<Rightarrow> go_int \<Rightarrow> Caller" where
  "NewCaller addrs partitionCount timeout =
     \<lparr>addresses = addrs, caller_partitionCount = partitionCount, caller_timeout = timeout\<rparr>"

definition Address :: "Caller \<Rightarrow> go_string \<Rightarrow> go_string option" where
  "Address c nodeID = addresses c nodeID"

datatype call_error = UnknownNode go_string | CallFailed go_string | NodeReturned go_string nat

type_synonym 'net transport = "'net \<Rightarrow> go_string \<Rightarrow> Request \<Rightarrow> 'net \<times> (go_string + Response \<times> bool)"

text \<open>
  The request is reproduced: method, escaped path, query and body; the partition count is declared. The
  body is the reader of the incoming request itself, so where that breaks off, the client of \<open>Forward\<close> fails
  to read it; what becomes of such a request is up to \<open>send\<close>.
\<close>

definition outbound :: "Caller \<Rightarrow> Request \<Rightarrow> Request" where
  "outbound c r =
     \<lparr>Method = Method r, EscapedPath = EscapedPath r, RawQuery = RawQuery r,
      PartitionHeader = Itoa (caller_partitionCount c), ContentType = ContentType r,
      ReqBody = ReqBody r, BodyBroken = BodyBroken r\<rparr>"

definition Forward ::
    "'net transport \<Rightarrow> 'net \<Rightarrow> Caller \<Rightarrow> go_string \<Rightarrow> Request \<Rightarrow> 'net \<times> (call_error + Response \<times> bool)" where
  "Forward send net c nodeID r =
     (case addresses c nodeID of
        None \<Rightarrow> (net, Inl (UnknownNode nodeID))
      | Some base \<Rightarrow>
          (case send net base (outbound c r) of
             (net', Inl msg) \<Rightarrow> (net', Inl (CallFailed msg))
           | (net', Inr resp) \<Rightarrow> (net', Inr resp)))"

definition list_request :: "Caller \<Rightarrow> Request" where
  "list_request c =
     \<lparr>Method = ''GET'', EscapedPath = ''/kv'', RawQuery = [], PartitionHeader = Itoa (caller_partitionCount c),
      ContentType = [], ReqBody = [], BodyBroken = False\<rparr>"

definition LocalKeys ::
    "'net transport \<Rightarrow> 'net \<Rightarrow> Caller \<Rightarrow> go_string \<Rightarrow> 'net \<times> (call_error + go_string \<times> bool)" where
  "LocalKeys send net c nodeID =
     (case addresses c nodeID of
        None \<Rightarrow> (net, Inl (UnknownNode nodeID))
      | Some base \<Rightarrow>
          (case send net base (list_request c) of
             (net', Inl msg) \<Rightarrow> (net', Inl (CallFailed msg))
           | (net', Inr (resp, broken)) \<Rightarrow>
               if Status resp \<noteq> 200 then (net', Inl (NodeReturned nodeID (Status resp)))
               else (net', Inr (RespBody resp, broken))))"

section \<open>Single-key requests\<close>

record Handler =
  table :: Table
  caller :: Caller

definition NewHandler :: "Table \<Rightarrow> Caller \<Rightarrow> Handler" where
  [simp]: "NewHandler t c = \<lparr>table = t, caller = c\<rparr>"

definition writeJSON :: "nat \<Rightarrow> (go_string \<times> go_string) list \<Rightarrow> Response" where
  [simp]: "writeJSON status payload = json_response status (json_line payload)"

definition proxy_error :: "nat \<Rightarrow> go_string \<Rightarrow> go_string \<Rightarrow> Response" where
  "proxy_error status msg key = writeJSON status (errorBody msg key None)"

definition route ::
    "'net transport \<Rightarrow> 'net \<Rightarrow> Handler \<Rightarrow> Request \<Rightarrow> go_string \<Rightarrow> ('net \<times> Response) option" where
  "route send net h r key =
     (case NodeFor (table h) key of
        None \<Rightarrow> None
      | Some nodeID \<Rightarrow>
          Some (case Forward send net (caller h) nodeID r of
                  (net', Inl err) \<Rightarrow> (net', proxy_error 503 (''node '' @ nodeID @ '' unreachable'') key)
                | (net', Inr (resp, broken)) \<Rightarrow>
                    (net', \<lparr>Status = Status resp, RespContentType = RespContentType resp, Allow = [],
                            RespBody = RespBody resp\<rparr>)))"

section \<open>Listing the keys of all nodes\<close>

text \<open>
  \<open>bufio.Scanner\<close> with \<open>ScanLines\<close> and a buffer of at most \<open>2^20\<close> bytes: the lines without their
  terminators, and whether the scan ended with an error. A line that fills the buffer ends it; a
  stream that breaks off still yields what had arrived of its last line.
\<close>

definition maxTokenSize :: nat where
  "maxTokenSize = 1048576"

definition drop_cr :: "go_string \<Rightarrow> go_string" where
  "drop_cr line = (if line \<noteq> [] \<and> last line = CHR 0x0D then butlast line else line)"

fun scan_tokens :: "bool \<Rightarrow> go_string list \<Rightarrow> go_string list \<times> bool" where
  "scan_tokens broken [] = ([], broken)"
| "scan_tokens broken [line] =
     (if maxTokenSize \<le> length line then ([], True)
      else (if line = [] then [] else [drop_cr line], broken))"
| "scan_tokens broken (line # l2 # ls) =
     (if maxTokenSize \<le> length line then ([], True)
      else case scan_tokens broken (l2 # ls) of (ts, err) \<Rightarrow> (drop_cr line # ts, err))"

definition errorLine :: "go_string \<Rightarrow> go_string" where
  "errorLine msg = object_text [(''error'', quote msg)]"

text \<open>The lines one goroutine writes, in order.\<close>

definition streamNode ::
    "'net transport \<Rightarrow> 'net \<Rightarrow> Caller \<Rightarrow> go_string \<Rightarrow> 'net \<times> go_string list" where
  "streamNode send net c nodeID =
     (case LocalKeys send net c nodeID of
        (net', Inl err) \<Rightarrow> (net', [errorLine (''node '' @ nodeID @ '' unreachable'')])
      | (net', Inr (body, broken)) \<Rightarrow>
          (case scan_tokens broken (Split body CHR 0x0A) of
             (ts, err) \<Rightarrow> (net', filter (\<lambda>t. t \<noteq> []) ts @
               (if err then [errorLine (''node '' @ nodeID @ '' stream interrupted'')] else []))))"

text \<open>One step of the listing: some goroutine that has a line left writes it.\<close>

inductive merges :: "'a list list \<Rightarrow> 'a list \<Rightarrow> bool" where
  finished: "\<forall>q \<in> set qs. q = [] \<Longrightarrow> merges qs []"
| line: "i < length qs \<Longrightarrow> qs ! i = x # q \<Longrightarrow> merges (qs[i := q]) out \<Longrightarrow> merges qs (x # out)"

text \<open>The nodes are asked in the order of the table; what each answers does not depend on the others.\<close>

fun stream_all :: "'net transport \<Rightarrow> 'net \<Rightarrow> Caller \<Rightarrow> go_string list \<Rightarrow> 'net \<times> go_string list list" where
  "stream_all send net c [] = (net, [])"
| "stream_all send net c (nid # ids) =
     (case streamNode send net c nid of
        (net', ls) \<Rightarrow> (case stream_all send net' c ids of (net'', lss) \<Rightarrow> (net'', ls # lss)))"

text \<open>\<open>writeLine\<close> puts a newline behind every line.\<close>

definition lines_text :: "go_string list \<Rightarrow> go_string" where
  "lines_text ls = concat (map (\<lambda>l. l @ [CHR 0x0A]) ls)"

text \<open>A response of the listing: some interleaving of the goroutines' lines.\<close>

definition proxy_listing :: "'net transport \<Rightarrow> 'net \<Rightarrow> Handler \<Rightarrow> Response \<Rightarrow> bool" where
  "proxy_listing send net h resp \<longleftrightarrow>
     (\<exists>out. merges (snd (stream_all send net (caller h) (NodeIDs (table h)))) out \<and>
        resp = \<lparr>Status = 200, RespContentType = ''application/x-ndjson'', Allow = [], RespBody = lines_text out\<rparr>)"

section \<open>The other endpoints\<close>

definition array_text :: "go_string list \<Rightarrow> go_string" where
  "array_text ws = CHR ''['' # join '','' ws @ '']''"

definition nodeInfo :: "Handler \<Rightarrow> go_string \<Rightarrow> go_string" where
  "nodeInfo h nid =
     (let addr = (case Address (caller h) nid of None \<Rightarrow> [] | Some a \<Rightarrow> a);
          r = (case Ranges (table h) nid of None \<Rightarrow> \<lparr>Lo = 0, Hi = 0\<rparr> | Some r \<Rightarrow> r) in
      object_text [(''node'', quote nid), (''address'', quote addr), (''partitions'', quote (Range_String r)),
                   (''count'', format_uint (unat (Range_Count r)))])"

definition routingTable :: "Handler \<Rightarrow> Response" where
  "routingTable h = writeJSON 200
     [(''nodes'', array_text (map (nodeInfo h) (NodeIDs (table h)))),
      (''partitionCount'', Itoa (tbl_partitionCount (table h)))]"

definition proxy_methodNotAllowed :: "Request \<Rightarrow> go_string \<Rightarrow> Response" where
  "proxy_methodNotAllowed r key =
     (proxy_error 405 (Method r @ '' is not supported on this resource'') key)
       \<lparr>Allow := (if unescape False (EscapedPath r) = Some ''/kv'' then ''GET'' else ''GET, PUT, PATCH'')\<rparr>"

definition proxy_health :: "Handler \<Rightarrow> Response" where
  "proxy_health h = writeJSON 200
     [(''nodes'', array_text (map quote (NodeIDs (table h)))),
      (''partitionCount'', Itoa (tbl_partitionCount (table h))), (''role'', quote ''proxy'')]"

datatype proxy_route = R_route | R_listKeys | R_methodNotAllowed | R_routingTable | R_health

definition proxy_Routes :: "proxy_route pattern list" where
  "proxy_Routes =
     [(''GET'', [Lit ''kv'', Wild], R_route),
      (''PUT'', [Lit ''kv'', Wild], R_route),
      (''PATCH'', [Lit ''kv'', Wild], R_route),
      (''GET'', [Lit ''kv''], R_listKeys),
      ([], [Lit ''kv'', Wild], R_methodNotAllowed),
      ([], [Lit ''kv''], R_methodNotAllowed),
      (''GET'', [Lit ''routing''], R_routingTable),
      (''GET'', [Lit ''health''], R_health)]"

text \<open>
  Serving a request relates it to the responses it may get: only the listing has more than one,
  and its requests to the nodes leave the network in the state \<open>stream_all\<close> returns.
\<close>

inductive proxy_serves :: "'net transport \<Rightarrow> Handler \<Rightarrow> 'net \<Rightarrow> Request \<Rightarrow> 'net \<Rightarrow> Response \<Rightarrow> bool"
  for send :: "'net transport" and h :: Handler where
  single: "mux_find proxy_Routes (Method r) (EscapedPath r) = MuxHandler R_route key \<Longrightarrow>
     route send net h r key = Some (net', resp) \<Longrightarrow> proxy_serves send h net r net' resp"
| listing: "mux_find proxy_Routes (Method r) (EscapedPath r) = MuxHandler R_listKeys key \<Longrightarrow>
     net' = fst (stream_all send net (caller h) (NodeIDs (table h))) \<Longrightarrow>
     proxy_listing send net h resp \<Longrightarrow> proxy_serves send h net r net' resp"
| not_allowed: "mux_find proxy_Routes (Method r) (EscapedPath r) = MuxHandler R_methodNotAllowed key \<Longrightarrow>
     proxy_serves send h net r net (proxy_methodNotAllowed r key)"
| routing: "mux_find proxy_Routes (Method r) (EscapedPath r) = MuxHandler R_routingTable key \<Longrightarrow>
     proxy_serves send h net r net (routingTable h)"
| health: "mux_find proxy_Routes (Method r) (EscapedPath r) = MuxHandler R_health key \<Longrightarrow>
     proxy_serves send h net r net (proxy_health h)"
| mux: "mux_find proxy_Routes (Method r) (EscapedPath r) = m \<Longrightarrow> (\<And>g key. m \<noteq> MuxHandler g key) \<Longrightarrow>
     proxy_serves send h net r net (mux_error m)"

section \<open>Interleaving\<close>

lemma mset_concat_update:
  "i < length qs \<Longrightarrow> qs ! i = x # q \<Longrightarrow> mset (concat qs) = add_mset x (mset (concat (qs[i := q])))"
proof (induction qs arbitrary: i)
  case (Cons p qs)
  then show ?case by (cases i) auto
qed simp

lemma merges_mset: "merges qs out \<Longrightarrow> mset out = mset (concat qs)"
  by (induction rule: merges.induct) (simp_all add: mset_concat_update)

lemma merges_subseq: "merges qs out \<Longrightarrow> j < length qs \<Longrightarrow> subseq (qs ! j) out"
proof (induction arbitrary: j rule: merges.induct)
  case (line i qs x q out)
  then have "subseq (qs[i := q] ! j) out" by simp
  then show ?case using line by (cases "i = j") auto
qed auto

text \<open>However the goroutines have been scheduled so far, the rest of the lines can be written.\<close>

lemma merges_total: "\<exists>out. merges qs out"
proof (induction "length (concat qs)" arbitrary: qs rule: less_induct)
  case less
  show ?case
  proof (cases "\<forall>q \<in> set qs. q = []")
    case False
    then obtain p where "p \<in> set qs" "p \<noteq> []" by blast
    then obtain i x q where i: "i < length qs" "qs ! i = x # q"
      unfolding in_set_conv_nth by (metis list.exhaust)
    have "size (mset (concat qs)) = Suc (size (mset (concat (qs[i := q]))))"
      by (simp only: mset_concat_update[OF i] size_add_mset)
    then have "length (concat (qs[i := q])) < length (concat qs)" by (simp only: size_mset lessI)
    from less[OF this] obtain out where "merges (qs[i := q]) out" ..
    from merges.line[OF i this] show ?thesis ..
  qed (auto intro: merges.finished)
qed

section \<open>Key lines survive the scanner\<close>

definition one_line :: "go_string \<Rightarrow> bool" where
  "one_line s \<longleftrightarrow> CHR 0x0A \<notin> set s \<and> CHR 0x0D \<notin> set s"

lemma one_line_simps [simp]:
  "one_line []" "one_line (c # s) \<longleftrightarrow> c \<noteq> CHR 0x0A \<and> c \<noteq> CHR 0x0D \<and> one_line s"
  "one_line (s @ t) \<longleftrightarrow> one_line s \<and> one_line t"
  by (auto simp: one_line_def)

lemma tight_one_line: "tight_run limit cfg s = Some cfg' \<Longrightarrow> one_line s"
proof (induction s arbitrary: cfg)
  case (Cons x s)
  then obtain cfg1 where st: "\<not> elides cfg x" "step limit cfg x = Some cfg1" "tight_run limit cfg1 s = Some cfg'"
    by (auto split: if_splits option.splits)
  have "x \<noteq> CHR 0x0A \<and> x \<noteq> CHR 0x0D"
  proof (cases "fst cfg = InString")
    case True
    then show ?thesis using st(2) by (cases cfg) (auto simp: is_control_def split: if_splits)
  next
    case False
    then show ?thesis using st(1) by (auto simp: elides_def is_space_def)
  qed
  then show ?case using Cons.IH[OF st(3)] by simp
qed simp

lemma one_line_quote: "one_line (quote s)"
  by (rule tight_one_line[OF tight_run_quote_value])

lemma one_line_member: "tight_value (snd kw) \<Longrightarrow> one_line (member_text kw)"
  unfolding tight_value_def member_text_def using tight_one_line one_line_quote by auto

lemma one_line_join: "one_line sep \<Longrightarrow> \<forall>w \<in> set ws. one_line w \<Longrightarrow> one_line (join sep ws)"
  by (induction sep ws rule: join.induct) auto

lemma one_line_object:
  assumes "good_fields ms"
  shows "one_line (object_text ms)"
proof -
  have "\<forall>w \<in> set (map member_text ms). one_line w"
    using assms one_line_member by (auto simp: good_fields_def)
  then show ?thesis using one_line_join[of "'',''"] by (simp add: object_text_def)
qed

lemma quote_loop_length: "length (quote_loop s) \<le> 6 * length s"
proof (induction s rule: quote_loop.induct)
  case (2 c cs)
  have esc: "length (escape_byte c) \<le> 6" by (simp add: escape_byte_def u00_def)
  consider (ascii) "byte_in 0 0x7F c" | (bad) "\<not> byte_in 0 0x7F c" "utf8_len (c # cs) = 0"
    | (sep) "\<not> byte_in 0 0x7F c" "utf8_len (c # cs) \<noteq> 0" "line_sep (c # cs)"
    | (rune) "\<not> byte_in 0 0x7F c" "utf8_len (c # cs) \<noteq> 0" "\<not> line_sep (c # cs)" by blast
  then show ?case
  proof cases
    case ascii
    then show ?thesis using "2.IH"(1) esc by (simp add: quote_loop.simps(2))
  next
    case bad
    then show ?thesis using "2.IH"(2)[OF bad] by (simp add: quote_loop.simps(2) del: utf8_len.simps)
  next
    case sep
    then have "3 \<le> length (c # cs)" by (auto simp: line_sep_def take_eq_Nil dest: arg_cong[of _ _ length])
    then show ?thesis using sep "2.IH"(3)[OF sep] by (simp add: quote_loop.simps(2) u202_def del: utf8_len.simps)
  next
    case rune
    have "utf8_len (c # cs) \<le> length (c # cs)" by (rule utf8_len_le)
    then show ?thesis using rune "2.IH"(4)[OF rune]
      by (simp add: quote_loop.simps(2) min_absorb2 del: utf8_len.simps drop_Cons' take_Cons')
  qed
qed simp

lemma key_line_length: "length (object_text (keyLine k n)) \<le> 6 * (length k + length n) + 26"
  using quote_loop_length[of k] quote_loop_length[of n]
  by (simp add: object_text_def keyLine_def member_text_def quote_def quote_loop.simps html_safe_def byte_in_def html_unsafe_def)

text \<open>Keys short enough for the scanner's buffer.\<close>

definition fits :: "go_string \<Rightarrow> go_string \<Rightarrow> bool" where
  "fits node k \<longleftrightarrow> 6 * (length k + length node) + 26 < maxTokenSize"

text \<open>Whole lines, and what has arrived of one more.\<close>

lemma Split_key_lines:
  "one_line rest \<Longrightarrow> Split (key_lines n ks @ rest) CHR 0x0A = map (\<lambda>k. object_text (keyLine k n)) ks @ [rest]"
proof (induction ks)
  case Nil
  then show ?case using Split_no_sep[of "CHR 0x0A" rest] by (simp add: key_lines_def one_line_def)
next
  case (Cons k ks)
  have "CHR 0x0A \<notin> set (object_text (keyLine k n))" using one_line_object[OF good_keyLine] by (simp add: one_line_def)
  from Split_append[OF this, of "key_lines n ks @ rest"] Cons show ?case by (simp add: key_lines_def json_line_def)
qed

lemma drop_cr_one_line: "one_line s \<Longrightarrow> drop_cr s = s"
  using last_in_set[of s] by (metis drop_cr_def one_line_def)

lemma scan_key_lines:
  "\<forall>k \<in> set ks. fits n k \<Longrightarrow> one_line rest \<Longrightarrow> length rest < maxTokenSize \<Longrightarrow>
   scan_tokens broken (map (\<lambda>k. object_text (keyLine k n)) ks @ [rest]) =
     (map (\<lambda>k. object_text (keyLine k n)) ks @ (if rest = [] then [] else [rest]), broken)"
proof (induction ks)
  case (Cons k ks)
  let ?l = "object_text (keyLine k n)"
  have "\<not> maxTokenSize \<le> length ?l" using Cons.prems(1) key_line_length[of k n] by (simp add: fits_def)
  moreover have "drop_cr ?l = ?l" by (rule drop_cr_one_line[OF one_line_object[OF good_keyLine]])
  moreover have "\<exists>a as. map (\<lambda>k. object_text (keyLine k n)) ks @ [rest] = a # as" by (cases ks) auto
  ultimately show ?case using Cons by auto
qed (simp add: drop_cr_one_line)

lemma filter_key_lines: "filter (\<lambda>t. t \<noteq> []) (map (\<lambda>k. object_text (keyLine k n)) ks) = map (\<lambda>k. object_text (keyLine k n)) ks"
  by (rule filter_True) (auto simp: object_text_def)

lemma streamNode_lines:
  assumes "LocalKeys send net c nid = (net', Inr (key_lines n ks, False))" "\<forall>k \<in> set ks. fits n k"
  shows "streamNode send net c nid = (net', map (\<lambda>k. object_text (keyLine k n)) ks)"
  using assms scan_key_lines[OF assms(2), of "[]"] Split_key_lines[of "[]" n ks]
  by (simp add: streamNode_def filter_key_lines maxTokenSize_def)

lemma prefix_key_lines:
  "prefix body (key_lines n ks) \<Longrightarrow>
   \<exists>j rest. j \<le> length ks \<and> body = key_lines n (take j ks) @ rest \<and>
     (rest = [] \<or> j < length ks \<and> prefix rest (object_text (keyLine (ks ! j) n)))"
proof (induction ks arbitrary: body)
  case Nil
  then show ?case by (simp add: key_lines_def)
next
  case (Cons k ks)
  let ?l = "object_text (keyLine k n)"
  have kl: "key_lines n (k # ks) = (?l @ [CHR 0x0A]) @ key_lines n ks" by (simp add: key_lines_def json_line_def)
  have "prefix body (?l @ [CHR 0x0A]) \<or> (\<exists>b. body = (?l @ [CHR 0x0A]) @ b \<and> prefix b (key_lines n ks))"
    using Cons.prems unfolding kl by (subst (asm) prefix_append)
  moreover have "prefix body ?l \<or> body = (?l @ [CHR 0x0A]) @ []" if "prefix body (?l @ [CHR 0x0A])"
    using that unfolding prefix_snoc by auto
  moreover have "prefix [] (key_lines n ks)" by simp
  ultimately consider (whole) b where "body = (?l @ [CHR 0x0A]) @ b" "prefix b (key_lines n ks)" | (part) "prefix body ?l"
    by blast
  then show ?case
  proof cases
    case whole
    from Cons.IH[OF whole(2)] obtain j rest where "j \<le> length ks" "b = key_lines n (take j ks) @ rest"
      "rest = [] \<or> j < length ks \<and> prefix rest (object_text (keyLine (ks ! j) n))" by blast
    then show ?thesis using whole(1) by (intro exI[of _ "Suc j"] exI[of _ rest]) (simp add: key_lines_def json_line_def)
  next
    case part
    then show ?thesis by (intro exI[of _ 0] exI[of _ body]) (simp add: key_lines_def)
  qed
qed

text \<open>
  C40. A node's stream that breaks off: the goroutine writes the keys that arrived completely, in
  their order, then what had arrived of the next line, unless that is nothing, and last the line
  that says that the stream was interrupted. Every key line is complete but possibly the last.
\<close>

theorem stream_interrupted:
  assumes "LocalKeys send net c nid = (net', Inr (body, True))" "prefix body (key_lines n ks)" "\<forall>k \<in> set ks. fits n k"
  shows "\<exists>j rest. j \<le> length ks \<and> body = key_lines n (take j ks) @ rest \<and>
     (rest = [] \<or> j < length ks \<and> prefix rest (object_text (keyLine (ks ! j) n))) \<and>
     streamNode send net c nid =
       (net', map (\<lambda>k. object_text (keyLine k n)) (take j ks) @ (if rest = [] then [] else [rest]) @
              [errorLine (''node '' @ nid @ '' stream interrupted'')])"
proof -
  obtain j rest where j: "j \<le> length ks" "body = key_lines n (take j ks) @ rest"
    "rest = [] \<or> j < length ks \<and> prefix rest (object_text (keyLine (ks ! j) n))"
    using prefix_key_lines[OF assms(2)] by blast
  have one: "one_line rest \<and> length rest < maxTokenSize"
  proof (cases "rest = []")
    case False
    then have p: "prefix rest (object_text (keyLine (ks ! j) n))" and k: "ks ! j \<in> set ks" using j(3) by auto
    have "one_line rest" using p one_line_object[OF good_keyLine, of "ks ! j" n] by (auto simp: prefix_def)
    moreover have "length rest < maxTokenSize"
      using prefix_length_le[OF p] key_line_length[of "ks ! j" n] assms(3) k by (fastforce simp: fits_def)
    ultimately show ?thesis ..
  qed (simp add: maxTokenSize_def)
  have "\<forall>k \<in> set (take j ks). fits n k" using assms(3) by (meson in_set_takeD)
  from scan_key_lines[OF this] one have
    "scan_tokens True (map (\<lambda>k. object_text (keyLine k n)) (take j ks) @ [rest]) =
       (map (\<lambda>k. object_text (keyLine k n)) (take j ks) @ (if rest = [] then [] else [rest]), True)" by blast
  moreover have "Split body CHR 0x0A = map (\<lambda>k. object_text (keyLine k n)) (take j ks) @ [rest]"
    unfolding j(2) using Split_key_lines one by blast
  ultimately have "streamNode send net c nid =
       (net', map (\<lambda>k. object_text (keyLine k n)) (take j ks) @ (if rest = [] then [] else [rest]) @
              [errorLine (''node '' @ nid @ '' stream interrupted'')])"
    using assms(1) by (simp add: streamNode_def filter_key_lines)
  with j show ?thesis by blast
qed

text \<open>A connection that is cut within the line of the only key: the client receives half a line.\<close>

definition cut_send :: "unit transport" where
  "cut_send net base r = (net, Inr (\<lparr>Status = 200, RespContentType = ''application/x-ndjson'', Allow = [],
     RespBody = take 7 (object_text (keyLine ''k'' ''n''))\<rparr>, True))"

theorem stream_interrupted_witness:
  "\<exists>j rest. j \<le> length [''k''] \<and> take 7 (object_text (keyLine ''k'' ''n'')) = key_lines ''n'' (take j [''k'']) @ rest \<and>
     streamNode cut_send () (NewCaller [''n'' \<mapsto> ''http://n''] 4 0) ''n'' =
       ((), map (\<lambda>k. object_text (keyLine k ''n'')) (take j [''k'']) @ (if rest = [] then [] else [rest]) @
            [errorLine ''node n stream interrupted''])"
proof -
  let ?c = "NewCaller [''n'' \<mapsto> ''http://n''] 4 0" and ?body = "take 7 (object_text (keyLine ''k'' ''n''))"
  have "LocalKeys cut_send () ?c ''n'' = ((), Inr (?body, True))"
    by (simp add: LocalKeys_def NewCaller_def cut_send_def)
  moreover have "prefix ?body (key_lines ''n'' [''k''])"
    by (simp add: key_lines_def json_line_def prefix_append take_is_prefix prefix_order.trans[OF take_is_prefix])
  moreover have "\<forall>k \<in> set [''k'']. fits ''n'' k" by (simp add: fits_def maxTokenSize_def)
  ultimately show ?thesis using stream_interrupted[of cut_send "()" ?c "''n''" "()" ?body "''n''" "[''k'']"] by fastforce
qed

end
