(* ===== verification/Proxy_Concurrent.thy ===== *)
theory Proxy_Concurrent
  imports Proxy
begin

text \<open>
  The goroutines behind a listing (\<open>listKeys\<close> of \<open>internal/proxy/handler.go\<close>): the handler starts one
  goroutine per node and waits for all of them; a goroutine writes each of its lines, and the newline behind
  it, while it holds a mutex. Statement by statement, for any scheduling, the body is an
  interleaving of whole lines, as \<open>proxy_listing\<close> says; the handler never hangs.
\<close>

section \<open>Statements\<close>

text \<open>
  A goroutine, with the lines it still has to write: not started; at the loop; before \<open>mu.Lock\<close>,
  the two writes, \<open>Flush\<close> and the deferred \<open>mu.Unlock\<close> of \<open>writeLine\<close>; before \<open>wg.Done\<close>; ended.
\<close>

datatype worker =
    Unborn
  | Scan "go_string list"
  | Lock go_string "go_string list"
  | Write_line go_string "go_string list"
  | Write_newline go_string "go_string list"
  | Flush_line "go_string list"
  | Unlock_line "go_string list"
  | Finishing
  | Gone

text \<open>The handler: before \<open>wg.Add\<close> and \<open>go\<close> for the i-th node, at \<open>wg.Wait\<close>, returned.\<close>

datatype lister = Adding nat | Starting_worker nat | Waiting_workers | Listed

record stream_state =
  lister :: lister
  workers :: "worker list"
  line_mu :: "nat option"
  wg :: nat
  body :: go_string

definition list_start :: "go_string list list \<Rightarrow> stream_state" where
  "list_start qs = \<lparr>lister = Adding 0, workers = replicate (length qs) Unborn, line_mu = None, wg = 0, body = []\<rparr>"

definition lister_step :: "go_string list list \<Rightarrow> stream_state \<Rightarrow> stream_state option" where
  "lister_step qs s =
     (case lister s of
        Adding i \<Rightarrow> Some (if i < length qs then s\<lparr>wg := wg s + 1, lister := Starting_worker i\<rparr> else s\<lparr>lister := Waiting_workers\<rparr>)
      | Starting_worker i \<Rightarrow> Some (s\<lparr>workers := (workers s)[i := Scan (qs ! i)], lister := Adding (Suc i)\<rparr>)
      | Waiting_workers \<Rightarrow> if wg s = 0 then Some (s\<lparr>lister := Listed\<rparr>) else None
      | Listed \<Rightarrow> None)"

definition worker_step :: "stream_state \<Rightarrow> nat \<Rightarrow> stream_state option" where
  "worker_step s i =
     (if length (workers s) \<le> i then None else
      case workers s ! i of
        Unborn \<Rightarrow> None
      | Scan [] \<Rightarrow> Some (s\<lparr>workers := (workers s)[i := Finishing]\<rparr>)
      | Scan (l # ls) \<Rightarrow> Some (s\<lparr>workers := (workers s)[i := Lock l ls]\<rparr>)
      | Lock l ls \<Rightarrow> if line_mu s = None then Some (s\<lparr>line_mu := Some i, workers := (workers s)[i := Write_line l ls]\<rparr>) else None
      | Write_line l ls \<Rightarrow> Some (s\<lparr>body := body s @ l, workers := (workers s)[i := Write_newline l ls]\<rparr>)
      | Write_newline l ls \<Rightarrow> Some (s\<lparr>body := body s @ [CHR 0x0A], workers := (workers s)[i := Flush_line ls]\<rparr>)
      | Flush_line ls \<Rightarrow> Some (s\<lparr>workers := (workers s)[i := Unlock_line ls]\<rparr>)
      | Unlock_line ls \<Rightarrow> Some (s\<lparr>line_mu := None, workers := (workers s)[i := Scan ls]\<rparr>)
      | Finishing \<Rightarrow> Some (s\<lparr>wg := wg s - 1, workers := (workers s)[i := Gone]\<rparr>)
      | Gone \<Rightarrow> None)"

text \<open>A schedule names the goroutine of each step: \<open>None\<close> the handler's, \<open>Some i\<close> the i-th node's.\<close>

fun list_run :: "go_string list list \<Rightarrow> stream_state \<Rightarrow> nat option list \<Rightarrow> stream_state option" where
  "list_run qs s [] = Some s"
| "list_run qs s (who # sched) =
     (case (case who of None \<Rightarrow> lister_step qs s | Some i \<Rightarrow> worker_step s i) of
        None \<Rightarrow> None
      | Some s' \<Rightarrow> list_run qs s' sched)"

section \<open>Invariant\<close>

text \<open>What a goroutine still has to write; a line counts until its newline is written.\<close>

fun unwritten :: "go_string list \<Rightarrow> worker \<Rightarrow> go_string list" where
  "unwritten q Unborn = q"
| "unwritten q (Scan ls) = ls"
| "unwritten q (Lock l ls) = l # ls"
| "unwritten q (Write_line l ls) = l # ls"
| "unwritten q (Write_newline l ls) = l # ls"
| "unwritten q (Flush_line ls) = ls"
| "unwritten q (Unlock_line ls) = ls"
| "unwritten q Finishing = []"
| "unwritten q Gone = []"

fun holds_mu :: "worker \<Rightarrow> bool" where
  "holds_mu (Write_line l ls) = True"
| "holds_mu (Write_newline l ls) = True"
| "holds_mu (Flush_line ls) = True"
| "holds_mu (Unlock_line ls) = True"
| "holds_mu w = False"

text \<open>The line that has been written without its newline.\<close>

definition torn :: "stream_state \<Rightarrow> go_string" where
  "torn s = (case line_mu s of
     None \<Rightarrow> [] | Some i \<Rightarrow> (case workers s ! i of Write_newline l ls \<Rightarrow> l | _ \<Rightarrow> []))"

definition active :: "worker \<Rightarrow> bool" where
  "active w \<longleftrightarrow> w \<noteq> Unborn \<and> w \<noteq> Gone"

definition born :: "stream_state \<Rightarrow> nat" where
  "born s = (case lister s of Adding i \<Rightarrow> i | Starting_worker i \<Rightarrow> i | _ \<Rightarrow> length (workers s))"

text \<open>Who holds the mutex, which goroutines there are, and what the wait group counts.\<close>

definition workers_ok :: "go_string list list \<Rightarrow> stream_state \<Rightarrow> bool" where
  "workers_ok qs s \<longleftrightarrow> length (workers s) = length qs \<and>
     (\<forall>i. line_mu s = Some i \<longleftrightarrow> i < length qs \<and> holds_mu (workers s ! i)) \<and>
     (\<forall>i < length qs. workers s ! i = Unborn \<longleftrightarrow> born s \<le> i) \<and>
     (\<forall>i. lister s = Starting_worker i \<longrightarrow> i < length qs) \<and>
     wg s = length (filter active (workers s)) + (case lister s of Starting_worker i \<Rightarrow> 1 | _ \<Rightarrow> 0) \<and>
     (lister s = Listed \<longrightarrow> wg s = 0)"

text \<open>The body consists of whole lines, and every way to write the rest completes an interleaving.\<close>

definition body_ok :: "go_string list list \<Rightarrow> stream_state \<Rightarrow> bool" where
  "body_ok qs s \<longleftrightarrow> (\<exists>out. body s = lines_text out @ torn s \<and>
     (\<forall>rest. merges (map2 unwritten qs (workers s)) rest \<longrightarrow> merges qs (out @ rest)))"

lemma workers_okD:
  assumes "workers_ok qs s"
  shows "length (workers s) = length qs" "line_mu s = Some i \<longleftrightarrow> i < length qs \<and> holds_mu (workers s ! i)"
    "i < length qs \<Longrightarrow> workers s ! i = Unborn \<longleftrightarrow> born s \<le> i" "lister s = Starting_worker i \<Longrightarrow> i < length qs"
    "wg s = length (filter active (workers s)) + (case lister s of Starting_worker i \<Rightarrow> 1 | _ \<Rightarrow> 0)"
    "lister s = Listed \<Longrightarrow> wg s = 0"
  using assms unfolding workers_ok_def by blast+

lemma filter_update:
  "i < length ws \<Longrightarrow> length (filter P (ws[i := w])) + (if P (ws ! i) then 1 else 0) = length (filter P ws) + (if P w then 1 else (0::nat))"
proof (induction ws arbitrary: i)
  case (Cons v ws)
  then show ?case by (cases i) auto
qed simp

lemma unwritten_update:
  assumes "i < length qs" "length ws = length qs"
  shows "map2 unwritten qs (ws[i := w]) = (map2 unwritten qs ws)[i := unwritten (qs ! i) w]"
  using assms by (intro nth_equalityI) (auto simp: nth_list_update)

lemma unwritten_same:
  assumes "i < length qs" "length ws = length qs" "unwritten (qs ! i) w = unwritten (qs ! i) (ws ! i)"
  shows "map2 unwritten qs (ws[i := w]) = map2 unwritten qs ws"
  unfolding unwritten_update[OF assms(1,2)] assms(3) using assms(1,2) by (intro nth_equalityI) (auto simp: nth_list_update)

lemma lines_text_simps [simp]: "lines_text [] = []" "lines_text (ls @ ls') = lines_text ls @ lines_text ls'"
  "lines_text [l] = l @ [CHR 0x0A]"
  by (simp_all add: lines_text_def)

lemma torn_same: "workers s' = workers s \<Longrightarrow> line_mu s' = line_mu s \<Longrightarrow> torn s' = torn s"
  unfolding torn_def by presburger

lemma born_same: "lister s' = lister s \<Longrightarrow> length (workers s') = length (workers s) \<Longrightarrow> born s' = born s"
  unfolding born_def by presburger

lemma body_ok_same:
  "workers s' = workers s \<Longrightarrow> line_mu s' = line_mu s \<Longrightarrow> body s' = body s \<Longrightarrow> body_ok qs s \<Longrightarrow> body_ok qs s'"
  using torn_same[of s' s] by (simp add: body_ok_def)

lemma lister_ok:
  assumes "workers_ok qs s" "body_ok qs s" "lister_step qs s = Some s'"
  shows "workers_ok qs s' \<and> body_ok qs s'"
proof (cases "lister s")
  case (Adding i)
  then have "s' = (if i < length qs then s\<lparr>wg := wg s + 1, lister := Starting_worker i\<rparr> else s\<lparr>lister := Waiting_workers\<rparr>)"
    using assms(3) by (simp add: lister_step_def)
  then show ?thesis using Adding assms(1) body_ok_same[OF _ _ _ assms(2), of s']
    by (auto simp: workers_ok_def born_def split: if_splits)
next
  case (Starting_worker i)
  note W = workers_okD[OF assms(1)]
  have i: "i < length qs" using W(4)[OF Starting_worker] .
  have s': "s' = s\<lparr>workers := (workers s)[i := Scan (qs ! i)], lister := Adding (Suc i)\<rparr>"
    using Starting_worker assms(3) by (simp add: lister_step_def)
  have u: "workers s ! i = Unborn" using W(3)[OF i] Starting_worker by (simp add: born_def)
  have mu: "line_mu s = Some j \<longleftrightarrow> j < length qs \<and> holds_mu ((workers s)[i := Scan (qs ! i)] ! j)" for j
    using W(2)[of j] W(1) i u by (auto simp: nth_list_update)
  have "workers_ok qs s'"
    using W(1,5) mu W(3) i u Starting_worker filter_update[of i "workers s" active "Scan (qs ! i)"]
    by (auto simp: workers_ok_def s' born_def nth_list_update active_def)
  moreover have "torn s' = torn s"
    using W(2)[of i] u by (auto simp: torn_def s' nth_list_update split: option.split)
  then have "body_ok qs s'" using assms(2) unwritten_same[OF i W(1), of "Scan (qs ! i)"] u by (simp add: body_ok_def s')
  ultimately show ?thesis ..
next
  case Waiting_workers
  then have "wg s = 0" "s' = s\<lparr>lister := Listed\<rparr>" using assms(3) by (simp_all add: lister_step_def split: if_splits)
  then show ?thesis using Waiting_workers assms(1) body_ok_same[OF _ _ _ assms(2), of s'] by (auto simp: workers_ok_def born_def)
qed (use assms(3) in \<open>simp add: lister_step_def\<close>)

text \<open>A step of a goroutine changes its own entry, and the mutex only if it takes or releases it.\<close>

lemma worker_ok:
  assumes "workers_ok qs s" "i < length qs" "active (workers s ! i)" "w \<noteq> Unborn"
    "s' = s\<lparr>line_mu := mu, wg := (if w = Gone then wg s - 1 else wg s), body := b, workers := (workers s)[i := w]\<rparr>"
    "if holds_mu w then mu = Some i \<and> line_mu s \<in> {None, Some i} else mu = (if holds_mu (workers s ! i) then None else line_mu s)"
  shows "workers_ok qs s'"
proof -
  note W = workers_okD[OF assms(1)]
  have len: "i < length (workers s)" using W(1) assms(2) by simp
  have c: "length (filter active (workers s)) = length (filter active ((workers s)[i := w])) + (if w = Gone then 1 else 0)"
    using filter_update[OF len, of active w] assms(3,4) by (auto simp: active_def)
  have "wg s' = length (filter active (workers s')) + (case lister s' of Starting_worker i \<Rightarrow> 1 | _ \<Rightarrow> 0)"
    using W(5) c assms(5) by simp
  moreover have "lister s' = Listed \<longrightarrow> wg s' = 0" using W(6) assms(5) by simp
  moreover have "line_mu s' = Some j \<longleftrightarrow> j < length qs \<and> holds_mu (workers s' ! j)" for j
    using W(2)[of j] W(2)[of i] len assms(2,5,6) by (cases "j = i") (auto split: if_splits)
  moreover have "workers s' ! j = Unborn \<longleftrightarrow> born s' \<le> j" if "j < length qs" for j
  proof -
    have "born s' = born s" by (rule born_same) (simp_all add: assms(5))
    moreover have "workers s ! i \<noteq> Unborn" using assms(3) by (simp add: active_def)
    ultimately show ?thesis using W(3)[OF that] W(3)[OF assms(2)] len assms(4,5) by (cases "j = i") auto
  qed
  ultimately show ?thesis using W(1,4) assms(5) by (simp add: workers_ok_def)
qed

lemma body_ok_silent:
  assumes "body_ok qs s" "i < length qs" "length (workers s) = length qs" "workers s' = (workers s)[i := w]"
    "unwritten (qs ! i) w = unwritten (qs ! i) (workers s ! i)" "\<forall>out. body s = out @ torn s \<longrightarrow> body s' = out @ torn s'"
  shows "body_ok qs s'"
  using assms(1,6) unwritten_same[OF assms(2,3,5)] by (fastforce simp: body_ok_def assms(4))

lemma body_ok_line:
  assumes "body_ok qs s" "i < length qs" "length (workers s) = length qs" "workers s ! i = Write_newline l ls" "line_mu s = Some i"
    "s' = s\<lparr>body := body s @ [CHR 0x0A], workers := (workers s)[i := Flush_line ls]\<rparr>"
  shows "body_ok qs s'"
proof -
  obtain out where out: "body s = lines_text out @ torn s"
    "\<forall>rest. merges (map2 unwritten qs (workers s)) rest \<longrightarrow> merges qs (out @ rest)" using assms(1) by (auto simp: body_ok_def)
  have t: "torn s = l" "torn s' = []" using assms(2-6) by (simp_all add: torn_def)
  let ?R = "map2 unwritten qs (workers s)"
  have R: "?R ! i = l # ls" "i < length ?R" "map2 unwritten qs (workers s') = ?R[i := ls]"
    using assms(2-4) unwritten_update[OF assms(2,3), of "Flush_line ls"] by (simp_all add: assms(6))
  have "merges qs ((out @ [l]) @ rest)" if "merges (map2 unwritten qs (workers s')) rest" for rest
  proof -
    have "merges ?R (l # rest)" using merges.line[OF R(2,1)] that R(3) by simp
    then show ?thesis using out(2) by simp
  qed
  moreover have "body s' = lines_text (out @ [l]) @ torn s'" using out(1) t by (simp add: assms(6))
  ultimately show ?thesis unfolding body_ok_def by blast
qed

lemma worker_step_ok:
  assumes "workers_ok qs s" "body_ok qs s" "worker_step s i = Some s'"
  shows "workers_ok qs s' \<and> body_ok qs s'"
proof -
  note W = workers_okD[OF assms(1)]
  have i: "i < length qs" "i < length (workers s)" using assms(3) W(1) by (simp_all add: worker_step_def split: if_splits)
  have act: "active (workers s ! i)" using assms(3) i by (cases "workers s ! i") (auto simp: worker_step_def active_def)
  have mu: "line_mu s = Some i \<longleftrightarrow> holds_mu (workers s ! i)" using W(2) i(1) by blast
  have torn: "torn t = torn s" if "workers t = (workers s)[i := w]" "\<not> holds_mu (workers s ! i)" "line_mu t = line_mu s" for t w
    using that mu by (auto simp: torn_def nth_list_update split: option.split)
  note ok = worker_ok[OF assms(1) i(1) act] and silent = body_ok_silent[OF assms(2) i(1) W(1)]
  show ?thesis
  proof (cases "workers s ! i")
    case (Scan ls)
    show ?thesis
    proof (cases ls)
      case Nil
      then have s': "s' = s\<lparr>workers := (workers s)[i := Finishing]\<rparr>" using assms(3) Scan i by (simp add: worker_step_def)
      show ?thesis using ok[of Finishing s' "body s" "line_mu s"] silent[of s' Finishing] torn[of s' Finishing] Scan Nil
        by (simp add: s')
    next
      case (Cons l ls')
      then have s': "s' = s\<lparr>workers := (workers s)[i := Lock l ls']\<rparr>" using assms(3) Scan i by (simp add: worker_step_def)
      show ?thesis using ok[of "Lock l ls'" s' "body s" "line_mu s"] silent[of s' "Lock l ls'"] torn[of s' "Lock l ls'"] Scan Cons
        by (simp add: s')
    qed
  next
    case (Lock l ls)
    then have s': "line_mu s = None" "s' = s\<lparr>line_mu := Some i, workers := (workers s)[i := Write_line l ls]\<rparr>"
      using assms(3) i by (simp_all add: worker_step_def split: if_splits)
    show ?thesis using ok[of "Write_line l ls" s' "body s" "Some i"] silent[of s' "Write_line l ls"] Lock i s'(1)
      by (simp add: s'(2) torn_def)
  next
    case (Write_line l ls)
    then have s': "s' = s\<lparr>body := body s @ l, workers := (workers s)[i := Write_newline l ls]\<rparr>" using assms(3) i by (simp add: worker_step_def)
    show ?thesis using ok[of "Write_newline l ls" s' "body s @ l" "line_mu s"] silent[of s' "Write_newline l ls"] Write_line i mu
      by (simp add: s' torn_def)
  next
    case (Write_newline l ls)
    then have s': "s' = s\<lparr>body := body s @ [CHR 0x0A], workers := (workers s)[i := Flush_line ls]\<rparr>" using assms(3) i by (simp add: worker_step_def)
    show ?thesis using ok[of "Flush_line ls" s' "body s @ [CHR 0x0A]" "line_mu s"] body_ok_line[OF assms(2) i(1) W(1) Write_newline _ s'] Write_newline mu
      by (simp add: s')
  next
    case (Flush_line ls)
    then have s': "s' = s\<lparr>workers := (workers s)[i := Unlock_line ls]\<rparr>" using assms(3) i by (simp add: worker_step_def)
    show ?thesis using ok[of "Unlock_line ls" s' "body s" "line_mu s"] silent[of s' "Unlock_line ls"] Flush_line i mu
      by (simp add: s' torn_def)
  next
    case (Unlock_line ls)
    then have s': "s' = s\<lparr>line_mu := None, workers := (workers s)[i := Scan ls]\<rparr>" using assms(3) i by (simp add: worker_step_def)
    show ?thesis using ok[of "Scan ls" s' "body s" None] silent[of s' "Scan ls"] Unlock_line i mu
      by (simp add: s' torn_def)
  next
    case Finishing
    then have s': "s' = s\<lparr>wg := wg s - 1, workers := (workers s)[i := Gone]\<rparr>" using assms(3) i by (simp add: worker_step_def)
    show ?thesis using ok[of Gone s' "body s" "line_mu s"] silent[of s' Gone] torn[of s' Gone] Finishing
      by (simp add: s')
  qed (use act in \<open>simp_all add: active_def\<close>)
qed

lemma list_start_ok: "workers_ok qs (list_start qs) \<and> body_ok qs (list_start qs)"
proof -
  have "map2 unwritten qs (replicate (length qs) Unborn) = qs" by (intro nth_equalityI) auto
  then have "body_ok qs (list_start qs)" by (auto simp: body_ok_def list_start_def torn_def intro!: exI[of _ "[]"])
  moreover have "filter active (replicate n Unborn) = []" for n by (simp add: active_def)
  ultimately show ?thesis by (simp add: workers_ok_def list_start_def born_def)
qed

lemma list_run_ok:
  "list_run qs s sched = Some s' \<Longrightarrow> workers_ok qs s \<Longrightarrow> body_ok qs s \<Longrightarrow> workers_ok qs s' \<and> body_ok qs s'"
proof (induction sched arbitrary: s)
  case (Cons who sched)
  then obtain s1 where s1: "(case who of None \<Rightarrow> lister_step qs s | Some i \<Rightarrow> worker_step s i) = Some s1" "list_run qs s1 sched = Some s'"
    by (auto split: option.splits)
  then have "workers_ok qs s1 \<and> body_ok qs s1"
    using lister_ok[OF Cons.prems(2,3)] worker_step_ok[OF Cons.prems(2,3)] by (cases who) auto
  then show ?case using Cons.IH[OF s1(2)] by blast
qed simp

section \<open>Progress and termination\<close>

definition list_step :: "go_string list list \<Rightarrow> stream_state \<Rightarrow> nat option \<Rightarrow> stream_state option" where
  "list_step qs s who = (case who of None \<Rightarrow> lister_step qs s | Some i \<Rightarrow> worker_step s i)"

lemma worker_can:
  assumes "i < length (workers s)" "active (workers s ! i)" "line_mu s = None \<or> holds_mu (workers s ! i)"
  shows "list_step qs s (Some i) \<noteq> None"
  using assms by (cases "workers s ! i") (auto simp: list_step_def worker_step_def active_def split: list.split)

lemma list_progress:
  assumes "workers_ok qs s" "lister s \<noteq> Listed"
  shows "\<exists>who. list_step qs s who \<noteq> None"
proof -
  note W = workers_okD[OF assms(1)]
  consider (holder) i where "line_mu s = Some i" | (other) i where "line_mu s = None" "i < length qs" "active (workers s ! i)"
    | (none) "filter active (workers s) = []"
    unfolding filter_empty_conv W(1)[symmetric] by (metis in_set_conv_nth option.exhaust)
  then show ?thesis
  proof cases
    case holder
    then have "i < length qs" "holds_mu (workers s ! i)" using W(2) by blast+
    moreover from this have "active (workers s ! i)" by (cases "workers s ! i") (simp_all add: active_def)
    ultimately show ?thesis using worker_can[of i s qs] W(1) by auto
  next
    case other
    then show ?thesis using worker_can[of i s qs] W(1) by auto
  next
    case none
    then have "list_step qs s None \<noteq> None"
      using W(5) assms(2) by (cases "lister s") (simp_all add: list_step_def lister_step_def)
    then show ?thesis ..
  qed
qed

text \<open>How many steps are left at most.\<close>

fun worker_rank :: "go_string list \<Rightarrow> worker \<Rightarrow> nat" where
  "worker_rank q Unborn = 6 * length q + 3"
| "worker_rank q (Scan ls) = 6 * length ls + 2"
| "worker_rank q (Lock l ls) = 6 * length ls + 7"
| "worker_rank q (Write_line l ls) = 6 * length ls + 6"
| "worker_rank q (Write_newline l ls) = 6 * length ls + 5"
| "worker_rank q (Flush_line ls) = 6 * length ls + 4"
| "worker_rank q (Unlock_line ls) = 6 * length ls + 3"
| "worker_rank q Finishing = 1"
| "worker_rank q Gone = 0"

definition lister_rank :: "nat \<Rightarrow> lister \<Rightarrow> nat" where
  "lister_rank n l = (case l of Adding i \<Rightarrow> 2 * (n - i) + 2 | Starting_worker i \<Rightarrow> 2 * (n - i) + 1 | Waiting_workers \<Rightarrow> 1 | Listed \<Rightarrow> 0)"

definition list_rank :: "go_string list list \<Rightarrow> stream_state \<Rightarrow> nat" where
  "list_rank qs s = sum_list (map2 worker_rank qs (workers s)) + lister_rank (length qs) (lister s)"

lemma rank_update:
  assumes "i < length qs" "length ws = length qs"
  shows "sum_list (map2 worker_rank qs (ws[i := w])) + worker_rank (qs ! i) (ws ! i) =
    sum_list (map2 worker_rank qs ws) + worker_rank (qs ! i) w"
  using assms
proof (induction qs arbitrary: ws i)
  case (Cons q qs)
  then obtain v vs where "ws = v # vs" by (cases ws) auto
  then show ?case using Cons by (cases i) auto
qed simp

lemma list_step_rank:
  assumes "workers_ok qs s" "list_step qs s who = Some s'"
  shows "list_rank qs s' < list_rank qs s"
proof -
  note W = workers_okD[OF assms(1)]
  show ?thesis
  proof (cases who)
    case None
    then have step: "lister_step qs s = Some s'" using assms(2) by (simp add: list_step_def)
    show ?thesis
    proof (cases "lister s")
      case (Starting_worker i)
      then have i: "i < length qs" "workers s ! i = Unborn" using W(3)[of i] W(4) by (simp_all add: born_def)
      have "s' = s\<lparr>workers := (workers s)[i := Scan (qs ! i)], lister := Adding (Suc i)\<rparr>"
        using step Starting_worker by (simp add: lister_step_def)
      then show ?thesis using rank_update[OF i(1) W(1), of "Scan (qs ! i)"] i Starting_worker
        by (simp add: list_rank_def lister_rank_def)
    qed (use step in \<open>auto simp: lister_step_def list_rank_def lister_rank_def split: if_splits\<close>)
  next
    case (Some i)
    then have step: "worker_step s i = Some s'" using assms(2) by (simp add: list_step_def)
    then have i: "i < length qs" using W(1) by (simp add: worker_step_def split: if_splits)
    obtain w where w: "workers s' = (workers s)[i := w]" "lister s' = lister s"
      "worker_rank (qs ! i) w < worker_rank (qs ! i) (workers s ! i)"
      using step W(1) i by (cases "workers s ! i") (auto simp: worker_step_def split: if_splits list.splits)
    then show ?thesis using rank_update[OF i W(1), of w] by (simp add: list_rank_def)
  qed
qed

lemma list_run_rank:
  "list_run qs s sched = Some s' \<Longrightarrow> workers_ok qs s \<Longrightarrow> body_ok qs s \<Longrightarrow> length sched + list_rank qs s' \<le> list_rank qs s"
proof (induction sched arbitrary: s)
  case (Cons who sched)
  then obtain s1 where s1: "list_step qs s who = Some s1" "list_run qs s1 sched = Some s'"
    by (auto simp: list_step_def split: option.splits)
  have "list_run qs s [who] = Some s1" using s1(1) by (simp add: list_step_def)
  then have "workers_ok qs s1" "body_ok qs s1" using list_run_ok Cons.prems(2,3) by blast+
  from Cons.IH[OF s1(2) this] list_step_rank[OF Cons.prems(2) s1(1)] show ?case by simp
qed simp

text \<open>
  C18. The goroutines of a listing: however they are scheduled, the handler cannot hang, every schedule is
  bounded, and when it returns every goroutine has ended and the body is an interleaving of the nodes' lines,
  each line whole: a response that \<open>proxy_listing\<close> allows.
\<close>

theorem listing_goroutines:
  assumes "qs = snd (stream_all send net (caller h) (NodeIDs (table h)))" "list_run qs (list_start qs) sched = Some s"
  shows "(lister s = Listed \<longrightarrow> filter active (workers s) = [] \<and>
      proxy_listing send net h \<lparr>Status = 200, RespContentType = ''application/x-ndjson'', Allow = [], RespBody = body s\<rparr>) \<and>
    (lister s \<noteq> Listed \<longrightarrow> (\<exists>who. list_step qs s who \<noteq> None)) \<and>
    length sched \<le> list_rank qs (list_start qs)"
proof -
  note ok = list_run_ok[OF assms(2)] list_start_ok[of qs]
  then have W: "workers_ok qs s" "body_ok qs s" by blast+
  have "filter active (workers s) = [] \<and> (\<exists>out. merges qs out \<and> body s = lines_text out)" if l: "lister s = Listed"
  proof -
    note D = workers_okD[OF W(1)]
    have none: "filter active (workers s) = []" using D(5,6) l by simp
    have gone: "workers s ! i = Gone" if i: "i < length qs" for i
    proof -
      have "workers s ! i \<noteq> Unborn" using D(1) D(3)[OF i] l i by (simp add: born_def)
      moreover have "\<not> active (workers s ! i)" using none D(1) i by (simp add: filter_empty_conv)
      ultimately show ?thesis by (simp add: active_def)
    qed
    have "line_mu s \<noteq> Some i" for i using D(2)[of i] gone[of i] by auto
    then have "line_mu s = None" by (cases "line_mu s") auto
    then have t: "torn s = []" by (simp add: torn_def)
    have "\<forall>q \<in> set (map2 unwritten qs (workers s)). q = []" using gone D(1) by (auto simp: in_set_zip)
    then have "merges (map2 unwritten qs (workers s)) []" by (rule merges.finished)
    then show ?thesis using none W(2) t by (fastforce simp: body_ok_def)
  qed
  then show ?thesis using list_progress[OF W(1)] list_run_rank[OF assms(2)] ok(2)
    unfolding proxy_listing_def assms(1)[symmetric] by auto
qed

text \<open>Two nodes that list a key each; the goroutines compete for the mutex.\<close>

definition two_nodes :: Handler where
  "two_nodes = \<lparr>table = \<lparr>tbl_partitionCount = 4, tbl_owner = [], tbl_nodeIDs = [''n1'', ''n2'']\<rparr>,
     caller = \<lparr>addresses = [''n1'' \<mapsto> ''a'', ''n2'' \<mapsto> ''b''], caller_partitionCount = 4, caller_timeout = 1\<rparr>\<rparr>"

definition echo_send :: "unit transport" where
  "echo_send net base r = (net, Inr (\<lparr>Status = 200, RespContentType = ''application/x-ndjson'', Allow = [], RespBody = base @ [CHR 0x0A]\<rparr>, False))"

definition sample_listing :: "nat option list" where
  "sample_listing = replicate 5 None @ [Some 0] @ replicate 6 (Some 1) @ replicate 7 (Some 0) @ replicate 2 (Some 1) @ [None]"

theorem listing_goroutines_witness:
  "\<exists>s. list_run [[''a''], [''b'']] (list_start [[''a''], [''b'']]) sample_listing = Some s \<and> body s = ''b'' @ [CHR 0x0A] @ ''a'' @ [CHR 0x0A] \<and>
     proxy_listing echo_send () two_nodes
       \<lparr>Status = 200, RespContentType = ''application/x-ndjson'', Allow = [], RespBody = ''b'' @ [CHR 0x0A] @ ''a'' @ [CHR 0x0A]\<rparr>"
proof -
  let ?qs = "[[''a''], [''b'']]"
  have qs: "?qs = snd (stream_all echo_send () (caller two_nodes) (NodeIDs (table two_nodes)))" by (simp add: two_nodes_def NodeIDs_def streamNode_def LocalKeys_def echo_send_def maxTokenSize_def drop_cr_def)
  have "map_option (\<lambda>s. (lister s, body s)) (list_run ?qs (list_start ?qs) sample_listing) = Some (Listed, ''b'' @ [CHR 0x0A] @ ''a'' @ [CHR 0x0A])"
    by code_simp
  then obtain s where s: "list_run ?qs (list_start ?qs) sample_listing = Some s" "lister s = Listed"
    "body s = ''b'' @ [CHR 0x0A] @ ''a'' @ [CHR 0x0A]" by auto
  from listing_goroutines[OF qs s(1)] s show ?thesis by auto
qed

end
