(* ===== verification/Node_Concurrent.thy ===== *)
theory Node_Concurrent
  imports Node_Handler Store_Concurrent
begin

text \<open>
  A node that serves many requests at once. \<open>net/http\<close> runs every handler in a goroutine of its own;
  a handler for a key decodes the request, makes at most one call to the store and turns its result
  into a response. Everything but that call depends on the request and the configuration only
  (\<open>plan\<close>), so the linearizability of the store carries over to HTTP: the responses that concurrent
  clients get are those of the node serving their requests one after the other.
\<close>

section \<open>What a handler does for a request\<close>

datatype plan = Reply Response | Perform call "ret \<Rightarrow> Response" | Stream

fun answer :: "(nat \<Rightarrow> bool) \<Rightarrow> go_string \<Rightarrow> ret \<Rightarrow> Response" where
  "answer isPrint key (GetRet None) = respond isPrint key (Inl ErrNotFound)"
| "answer isPrint key (GetRet (Some e)) =
     respond isPrint key (Inr \<lparr>res_Key = key, res_Value = Value e, res_Version = Version e\<rparr>)"
| "answer isPrint key (WriteRet r) = respond isPrint key (as_result key r)"

definition plan_get :: "(nat \<Rightarrow> bool) \<Rightarrow> Service \<Rightarrow> Request \<Rightarrow> go_string \<Rightarrow> plan" where
  "plan_get isPrint s r key =
     (case checkPartitionCount s r of
        Some resp \<Rightarrow> Reply resp
      | None \<Rightarrow> (case checkKey s key of
                  Some err \<Rightarrow> Reply (respond isPrint key (Inl err))
                | None \<Rightarrow> Perform (GetCall key) (answer isPrint key)))"

definition plan_write :: "(nat \<Rightarrow> bool) \<Rightarrow> Mode \<Rightarrow> Service \<Rightarrow> Request \<Rightarrow> go_string \<Rightarrow> plan" where
  "plan_write isPrint mode s r key =
     (case write_decoded s r key of
        Inl resp \<Rightarrow> Reply resp
      | Inr (body, g) \<Rightarrow>
          (case checkKey s key of
             Some err \<Rightarrow> Reply (respond isPrint key (Inl err))
           | None \<Rightarrow>
               if sint (MaxValueBytes (svc_cfg s)) < int (length body) then Reply (respond isPrint key (Inl ErrValueTooLarge))
               else if \<not> Valid body then Reply (respond isPrint key (Inl ErrInvalidJSON))
               else Perform (WriteCall (store_op (write_request mode key body g))) (answer isPrint key)))"

definition plan_of :: "(nat \<Rightarrow> bool) \<Rightarrow> Service \<Rightarrow> Request \<Rightarrow> plan" where
  "plan_of isPrint s r =
     (case mux_find Routes (Method r) (EscapedPath r) of
        MuxHandler h key \<Rightarrow>
          (case h of
             H_get \<Rightarrow> plan_get isPrint s r key
           | H_put \<Rightarrow> plan_write isPrint ModeReplace s r key
           | H_patch \<Rightarrow> plan_write isPrint ModeMerge s r key
           | H_listKeys \<Rightarrow> Stream
           | H_methodNotAllowed \<Rightarrow> Reply (methodNotAllowed r key)
           | H_health \<Rightarrow> Reply (health s))
      | other \<Rightarrow> Reply (mux_error other))"

lemma plan_of_cfg:
  assumes "svc_cfg s' = svc_cfg s"
  shows "plan_of isPrint s' r = plan_of isPrint s r"
proof -
  have c: "checkPartitionCount s' r = checkPartitionCount s r"
    unfolding checkPartitionCount_def CheckPartitionCount_def assms ..
  have k: "checkKey s' key = checkKey s key" for key by (rule checkKey_cfg[OF assms])
  have w: "write_decoded s' r key = write_decoded s r key" for key
    unfolding write_decoded_def c assms ..
  have h: "health s' = health s" by (simp add: health_def NodeID_def Owned_def Service_PartitionCount_def assms)
  show ?thesis unfolding plan_of_def plan_get_def plan_write_def c k w h assms ..
qed

lemma plan_get_serves:
  assumes "plan_get isPrint s r key = Perform c k" "seq_call (svc_store s) c = Some (st, x)"
  shows "get_handler isPrint s r key = Some (s\<lparr>svc_store := st\<rparr>, k x)"
  using assms
  by (auto simp: plan_get_def get_handler_def Service_Get_def respond_def split: option.splits)

lemma plan_write_serves:
  assumes "plan_write isPrint mode s r key = Perform c k" "seq_call (svc_store s) c = Some (st, x)"
  shows "write_handler isPrint mode s r key = Some (s\<lparr>svc_store := st\<rparr>, k x)"
proof -
  obtain body g where d: "write_decoded s r key = Inr (body, g)"
    using assms(1) by (auto simp: plan_write_def split: sum.splits)
  let ?req = "write_request mode key body g"
  have p: "checkKey s key = None" "\<not> sint (MaxValueBytes (svc_cfg s)) < int (length body)" "Valid body"
    "c = WriteCall (store_op ?req)" "k = answer isPrint key"
    using assms(1) d by (auto simp: plan_write_def split: option.splits if_splits)
  obtain res where w: "Write (svc_store s) (store_op ?req) = Some (st, res)" "x = WriteRet res"
    using assms(2) p(4) by auto
  have "Service_Write s ?req = Some (s\<lparr>svc_store := st\<rparr>, as_result key res)"
    using p(1-3) w(1) by (cases res) (simp_all add: Service_Write_def as_result_def store_op_def)
  then show ?thesis using d w(2) p(5) by (simp add: write_handler_decoded)
qed

text \<open>Serving a request one at a time: its plan, with the store's sequential code for the call.\<close>

lemma plan_serves:
  assumes "plan_of isPrint s r = Perform c k" "seq_call (svc_store s) c = Some (st, x)"
  shows "ServeHTTP isPrint conn s r = Some (s\<lparr>svc_store := st\<rparr>, k x)"
  using assms plan_get_serves[of isPrint s r] plan_write_serves[of isPrint _ s r]
  by (auto simp: plan_of_def ServeHTTP_def dispatch_def split: mux_result.splits node_route.splits)

lemma plan_replies:
  assumes "plan_of isPrint s r = Reply resp"
  shows "ServeHTTP isPrint conn s r = Some (s, resp)"
proof (cases "mux_find Routes (Method r) (EscapedPath r)")
  case (MuxHandler h key)
  have g: "plan_get isPrint s r key = Reply resp \<Longrightarrow> get_handler isPrint s r key = Some (s, resp)"
    by (auto simp: plan_get_def get_handler_def Service_Get_def respond_def split: option.splits)
  have w: "plan_write isPrint mode s r key = Reply resp \<Longrightarrow> write_handler isPrint mode s r key = Some (s, resp)" for mode
    by (auto simp: plan_write_def write_handler_decoded Service_Write_def split: sum.splits option.splits if_splits)
  from g w assms MuxHandler show ?thesis by (cases h) (simp_all add: plan_of_def ServeHTTP_def dispatch_def)
qed (use assms in \<open>simp_all add: plan_of_def ServeHTTP_def\<close>)

section \<open>Concurrent requests\<close>

text \<open>The response a handler writes when its call has returned \<open>x\<close>.\<close>

definition response :: "(nat \<Rightarrow> bool) \<Rightarrow> Service \<Rightarrow> Request \<Rightarrow> ret \<Rightarrow> Response" where
  "response isPrint s r x = (case plan_of isPrint s r of Reply resp \<Rightarrow> resp | Perform c k \<Rightarrow> k x)"

definition makes :: "(nat \<Rightarrow> bool) \<Rightarrow> Service \<Rightarrow> Request \<Rightarrow> call \<Rightarrow> bool" where
  "makes isPrint s r c \<longleftrightarrow> (case plan_of isPrint s r of Perform c' k \<Rightarrow> c' = c | _ \<Rightarrow> False)"

lemma runs_plan:
  assumes "list_all2 (makes isPrint s) rs cs" "seq_run (svc_store s) cs = Some (st, xs)"
  shows "runs (\<lambda>s r s' p. ServeHTTP isPrint conn s r = Some (s', p)) s rs (s\<lparr>svc_store := st\<rparr>) (map2 (response isPrint s) rs xs)"
  using assms
proof (induction rs arbitrary: s cs xs)
  case Nil
  then have "s\<lparr>svc_store := st\<rparr> = s" by (cases s) simp
  then show ?case by (simp add: runs_Nil)
next
  case (Cons r rs)
  obtain c cs' where cs: "cs = c # cs'" "makes isPrint s r c" "list_all2 (makes isPrint s) rs cs'"
    using Cons.prems(1) by (auto simp: list_all2_Cons1)
  obtain st1 x xs' where q: "seq_call (svc_store s) c = Some (st1, x)" "seq_run st1 cs' = Some (st, xs')" "xs = x # xs'"
    using Cons.prems(2) cs(1) by (auto split: option.splits prod.splits)
  let ?s1 = "s\<lparr>svc_store := st1\<rparr>"
  obtain k where k: "plan_of isPrint s r = Perform c k" using cs(2) by (auto simp: makes_def split: plan.splits)
  have same: "makes isPrint ?s1 = makes isPrint s" "response isPrint ?s1 = response isPrint s"
    by (simp_all add: makes_def response_def fun_eq_iff plan_of_cfg[of ?s1 s])
  have "runs (\<lambda>s r s' p. ServeHTTP isPrint conn s r = Some (s', p)) ?s1 rs (?s1\<lparr>svc_store := st\<rparr>) (map2 (response isPrint ?s1) rs xs')"
    using Cons.IH[of ?s1 cs' xs'] cs(3) q(2) same(1) by simp
  with plan_serves[OF k q(1)] k q(3) same(2) show ?case by (auto simp: response_def intro: runs_Cons)
qed

text \<open>
  C4. Linearizability over HTTP: whatever the interleaving of the handlers of concurrent requests for
  single keys, there is an order of the requests in which a node that serves them one after the other
  gives exactly the responses the clients get; each request has its place in that order between its
  call to the store and the call's return, and when no call is in progress the memory holds
  what the sequential node holds at the end.
\<close>

theorem http_linearizable:
  assumes "New (cfg_PartitionCount cfg) = Inr st" "exec (initial (cfg_PartitionCount cfg)) tr s"
    "list_all2 (makes isPrint (NewService st cfg)) rs (map fst (lins tr))"
  shows "\<exists>sv. runs (\<lambda>s r s' p. ServeHTTP isPrint conn s r = Some (s', p)) (NewService st cfg) rs sv
      (map2 (response isPrint (NewService st cfg)) rs (map snd (lins tr))) \<and> (\<forall>t. phase t tr \<noteq> Wrong) \<and>
    ((\<forall>t. thr s t = Idle) \<longrightarrow> (\<forall>k. holds sv k = map_option (\<lambda>a. snapshot (cells (sh s) ! a)) (lookup (sh s) k)))"
proof -
  obtain st' m where x: "seq_run st (map fst (lins tr)) = Some (st', map snd (lins tr))" "contents st' = m" "inv s m"
    "\<forall>t. phase t tr \<noteq> Wrong" by (rule exec_sequential[OF assms(1,2)])
  let ?sv = "(NewService st cfg)\<lparr>svc_store := st'\<rparr>"
  have "runs (\<lambda>s r s' p. ServeHTTP isPrint conn s r = Some (s', p)) (NewService st cfg) rs ?sv
      (map2 (response isPrint (NewService st cfg)) rs (map snd (lins tr)))"
    using runs_plan[OF assms(3)] x(1) by (simp add: NewService_def)
  moreover have "holds ?sv = m" using x(2) by simp
  ultimately show ?thesis using x(4) quiet_memory[OF x(3)] by blast
qed

text \<open>Two clients create the same key at once; one gets 200, the other 409 with the version to retry with.\<close>

definition sample_put :: Request where
  "sample_put = \<lparr>Method = ''PUT'', EscapedPath = key_path ''k'', RawQuery = ''ifAbsent=true'', PartitionHeader = [],
     ContentType = [], ReqBody = ''1'', BodyBroken = False\<rparr>"

lemma sample_put_plan:
  assumes "svc_cfg sv = sample_cfg"
  shows "plan_of isPrint sv sample_put = Perform (WriteCall sample_op) (answer isPrint ''k'')"
proof -
  have "write_decoded sv sample_put ''k'' = Inr (''1'', None, True)"
    using assms by (simp add: sample_put_def write_decoded_def checkPartitionCount_def parseGuards_if_absent read_body_def sample_cfg_def)
  moreover have "Valid ''1''" by (simp add: json_eval)
  ultimately show ?thesis using assms sample_key[OF assms] mux_find_key_path[of "''k''" "''PUT''"]
    by (simp add: plan_of_def plan_write_def sample_op_def store_op_def sample_put_def sample_cfg_def)
qed

theorem http_linearizable_witness:
  "\<exists>st s tr sv created conflict. New 4 = Inr st \<and> exec (initial 4) tr s \<and>
     runs (\<lambda>s r s' p. ServeHTTP (\<lambda>_. True) (\<lambda>_. True) s r = Some (s', p)) (NewService st sample_cfg)
       [sample_put, sample_put] sv [created, conflict] \<and> Status created = 200 \<and> Status conflict = 409"
proof -
  let ?mm = "\<lparr>vm_Key = ''k'', Expected = 0, Current = 1, RequiredAbsent = True\<rparr>"
  obtain st where st: "New 4 = Inr st" using New_4 by blast
  obtain s tr where l: "lins tr = [(WriteCall sample_op, WriteRet (Inr \<lparr>Value = ''1'', Version = 1\<rparr>)),
      (WriteCall sample_op, WriteRet (Inl (VersionMismatch ?mm)))]"
    and e: "exec (initial 4) (Inv 0 (WriteCall sample_op) # Inv 1 (WriteCall sample_op) # tr) s"
    by (rule sample_run[OF sample_results]) auto
  have plan: "plan_of (\<lambda>_. True) (NewService st sample_cfg) sample_put = Perform (WriteCall sample_op) (answer (\<lambda>_. True) ''k'')"
    by (rule sample_put_plan) (simp add: NewService_def)
  have "cfg_PartitionCount sample_cfg = 4" by (simp add: sample_cfg_def)
  from http_linearizable[of sample_cfg, unfolded this, OF st e, of "\<lambda>_. True" "[sample_put, sample_put]" "\<lambda>_. True"] l plan
  obtain sv where "runs (\<lambda>s r s' p. ServeHTTP (\<lambda>_. True) (\<lambda>_. True) s r = Some (s', p)) (NewService st sample_cfg)
      [sample_put, sample_put] sv [respond (\<lambda>_. True) ''k'' (Inr \<lparr>res_Key = ''k'', res_Value = ''1'', res_Version = 1\<rparr>),
         respond (\<lambda>_. True) ''k'' (Inl (StoreFailed (VersionMismatch ?mm)))]"
    by (auto simp: makes_def response_def as_result_def)
  moreover have "Status (respond (\<lambda>_. True) ''k'' (Inr \<lparr>res_Key = ''k'', res_Value = ''1'', res_Version = 1\<rparr>)) = 200"
    using Status_respond by simp
  moreover have "Status (respond (\<lambda>_. True) ''k'' (Inl (StoreFailed (VersionMismatch ?mm)))) = 409"
    by (simp add: respond_def writeError_def)
  ultimately show ?thesis using st e by blast
qed

end
