(* ===== verification/Config.thy ===== *)
theory Config
  imports Routing
begin

text \<open>
  Package \<open>internal/config\<close>: the configuration of a node and of the proxy, read from the
  environment. \<open>getenv\<close> is \<open>os.Getenv\<close>, which returns the empty string for a variable that is
  not set. \<open>time.ParseDuration\<close>, which computes in floating point, is a parameter.
\<close>

section \<open>Reading variables\<close>

definition DefaultPartitionCount :: go_int where "DefaultPartitionCount = 1024"
definition DefaultMaxValueBytes :: go_int where "DefaultMaxValueBytes = 1048576"
definition DefaultMaxKeyBytes :: go_int where "DefaultMaxKeyBytes = 1024"
definition DefaultRequestTimeout :: go_int where "DefaultRequestTimeout = 5000000000"

datatype config_error =
    VariableNotInteger go_string num_error
  | BadPartitionCount go_int
  | BadOwnedPartitions routing_error
  | OwnedPartitionsExceed go_string go_int
  | BadNodeSlot routing_error
  | NodesRequired
  | BadNodesEntry go_string
  | NodesListsTwice go_string
  | NodesEmpty
  | BadRequestTimeout go_string

type_synonym environment = "go_string \<Rightarrow> go_string"

definition env :: "environment \<Rightarrow> go_string \<Rightarrow> go_string \<Rightarrow> go_string" where
  "env getenv key fallback = (let v = getenv key in if v \<noteq> [] then v else fallback)"

definition envInt :: "environment \<Rightarrow> go_string \<Rightarrow> go_int \<Rightarrow> config_error + go_int" where
  "envInt getenv key fallback =
     (let raw = getenv key in
      if raw = [] then Inr fallback
      else case Atoi raw of Inl err \<Rightarrow> Inl (VariableNotInteger key err) | Inr n \<Rightarrow> Inr n)"

section \<open>A node's configuration\<close>

record Node =
  n_NodeID :: go_string
  n_ListenAddr :: go_string
  n_PartitionCount :: go_int
  n_Owned :: Range
  n_MaxValueBytes :: go_int
  n_MaxKeyBytes :: go_int

text \<open>The slot of a node: an explicit range, or the one \<open>RangeFor\<close> deals to its index.\<close>

definition load_owned :: "environment \<Rightarrow> go_int \<Rightarrow> config_error + Range" where
  "load_owned getenv partitionCount =
     (let override = getenv ''OWNED_PARTITIONS'' in
      if override \<noteq> []
      then (case ParseRange override of
              Inl err \<Rightarrow> Inl (BadOwnedPartitions err)
            | Inr r \<Rightarrow> if partitionCount < Hi r then Inl (OwnedPartitionsExceed override partitionCount) else Inr r)
      else case envInt getenv ''NODE_INDEX'' 0 of
             Inl err \<Rightarrow> Inl err
           | Inr index \<Rightarrow>
               (case envInt getenv ''NODE_COUNT'' 1 of
                  Inl err \<Rightarrow> Inl err
                | Inr count \<Rightarrow>
                    (case RangeFor index count partitionCount of
                       Inl err \<Rightarrow> Inl (BadNodeSlot err)
                     | Inr r \<Rightarrow> Inr r)))"

definition LoadNode :: "environment \<Rightarrow> config_error + Node" where
  "LoadNode getenv =
     (case envInt getenv ''PARTITION_COUNT'' DefaultPartitionCount of
        Inl err \<Rightarrow> Inl err
      | Inr partitionCount \<Rightarrow>
          if \<not> ValidPartitionCount partitionCount then Inl (BadPartitionCount partitionCount)
          else case envInt getenv ''MAX_VALUE_BYTES'' DefaultMaxValueBytes of
                 Inl err \<Rightarrow> Inl err
               | Inr maxValue \<Rightarrow>
                   (case envInt getenv ''MAX_KEY_BYTES'' DefaultMaxKeyBytes of
                      Inl err \<Rightarrow> Inl err
                    | Inr maxKey \<Rightarrow>
                        (case load_owned getenv partitionCount of
                           Inl err \<Rightarrow> Inl err
                         | Inr owned \<Rightarrow>
                             Inr \<lparr>n_NodeID = env getenv ''NODE_ID'' ''node-1'',
                                  n_ListenAddr = env getenv ''LISTEN_ADDR'' '':8081'',
                                  n_PartitionCount = partitionCount, n_Owned = owned,
                                  n_MaxValueBytes = maxValue, n_MaxKeyBytes = maxKey\<rparr>)))"

section \<open>The proxy's configuration\<close>

record Proxy =
  p_ListenAddr :: go_string
  p_PartitionCount :: go_int
  p_NodeIDs :: "go_string list"
  p_Addresses :: "go_string \<rightharpoonup> go_string"
  p_RequestTimeout :: go_int

text \<open>The loop over the comma-separated entries of \<open>NODES\<close>.\<close>

fun nodes_loop ::
    "go_string list \<Rightarrow> go_string list \<Rightarrow> (go_string \<rightharpoonup> go_string)
       \<Rightarrow> config_error + go_string list \<times> (go_string \<rightharpoonup> go_string)" where
  "nodes_loop [] ids addrs = Inr (ids, addrs)"
| "nodes_loop (raw # pairs) ids addrs =
     (let pair = TrimSpace raw in
      if pair = [] then nodes_loop pairs ids addrs
      else case Cut pair CHR ''='' of
        (i, u, found) \<Rightarrow>
          let nid = TrimSpace i; url = TrimSpace u in
          if \<not> found \<or> nid = [] \<or> url = [] then Inl (BadNodesEntry pair)
          else if addrs nid \<noteq> None then Inl (NodesListsTwice nid)
          else nodes_loop pairs (ids @ [nid]) (addrs(nid \<mapsto> TrimRight url ''/'')))"

definition load_timeout :: "(go_string \<Rightarrow> go_string + go_int) \<Rightarrow> environment \<Rightarrow> config_error + go_int" where
  "load_timeout parseDuration getenv =
     (let raw = getenv ''REQUEST_TIMEOUT'' in
      if raw = [] then Inr DefaultRequestTimeout
      else case parseDuration raw of Inl msg \<Rightarrow> Inl (BadRequestTimeout msg) | Inr d \<Rightarrow> Inr d)"

definition LoadProxy :: "(go_string \<Rightarrow> go_string + go_int) \<Rightarrow> environment \<Rightarrow> config_error + Proxy" where
  "LoadProxy parseDuration getenv =
     (case envInt getenv ''PARTITION_COUNT'' DefaultPartitionCount of
        Inl err \<Rightarrow> Inl err
      | Inr partitionCount \<Rightarrow>
          if \<not> ValidPartitionCount partitionCount then Inl (BadPartitionCount partitionCount)
          else let raw = getenv ''NODES'' in
            if TrimSpace raw = [] then Inl NodesRequired
            else case nodes_loop (Split raw CHR '','') [] Map.empty of
                   Inl err \<Rightarrow> Inl err
                 | Inr (ids, addrs) \<Rightarrow>
                     if ids = [] then Inl NodesEmpty
                     else case load_timeout parseDuration getenv of
                            Inl err \<Rightarrow> Inl err
                          | Inr timeout \<Rightarrow>
                              Inr \<lparr>p_ListenAddr = env getenv ''LISTEN_ADDR'' '':8081'',
                                   p_PartitionCount = partitionCount, p_NodeIDs = ids, p_Addresses = addrs,
                                   p_RequestTimeout = timeout\<rparr>)"

section \<open>What a loaded configuration satisfies\<close>

lemma load_owned_Hi:
  assumes "load_owned getenv n = Inr r" "ValidPartitionCount n"
  shows "unat (Hi r) \<le> unat n"
proof (cases "getenv ''OWNED_PARTITIONS'' = []")
  case True
  then obtain i c where "RangeFor i c n = Inr r"
    using assms(1) by (auto simp: load_owned_def Let_def split: sum.splits)
  from RangeFor_bounds(1,5)[OF this] ranges.tile_below show ?thesis by metis
next
  case False
  then have "\<not> n < Hi r" using assms(1) by (auto simp: load_owned_def Let_def split: sum.splits if_splits)
  then show ?thesis by (simp add: word_less_nat_alt)
qed

text \<open>
  C30. A node that starts has a usable configuration: its partition count is a positive power of
  two, the range it owns ends within it, and unless the range was given explicitly it is the one
  \<open>RangeFor\<close> deals to some slot of that partition count.
\<close>

theorem LoadNode_valid:
  assumes "LoadNode getenv = Inr cfg"
  shows "ValidPartitionCount (n_PartitionCount cfg) \<and> unat (Hi (n_Owned cfg)) \<le> unat (n_PartitionCount cfg) \<and>
    (getenv ''OWNED_PARTITIONS'' = [] \<longrightarrow>
       (\<exists>index count. envInt getenv ''NODE_INDEX'' 0 = Inr index \<and> envInt getenv ''NODE_COUNT'' 1 = Inr count \<and>
          RangeFor index count (n_PartitionCount cfg) = Inr (n_Owned cfg)))"
proof -
  have v: "ValidPartitionCount (n_PartitionCount cfg)" and o: "load_owned getenv (n_PartitionCount cfg) = Inr (n_Owned cfg)"
    using assms by (auto simp: LoadNode_def split: sum.splits if_splits)
  have "\<exists>index count. envInt getenv ''NODE_INDEX'' 0 = Inr index \<and> envInt getenv ''NODE_COUNT'' 1 = Inr count \<and>
          RangeFor index count (n_PartitionCount cfg) = Inr (n_Owned cfg)" if "getenv ''OWNED_PARTITIONS'' = []"
    using o that by (auto simp: load_owned_def Let_def split: sum.splits)
  then show ?thesis using v load_owned_Hi[OF o v] by blast
qed

lemma ValidPartitionCount_1024: "ValidPartitionCount 1024"
  unfolding ValidPartitionCount_iff by (intro exI[of _ 10]) simp

lemma LoadNode_defaults:
  "LoadNode (\<lambda>_. []) = Inr \<lparr>n_NodeID = ''node-1'', n_ListenAddr = '':8081'', n_PartitionCount = 1024,
     n_Owned = \<lparr>Lo = 0, Hi = 1024\<rparr>, n_MaxValueBytes = 1048576, n_MaxKeyBytes = 1024\<rparr>"
proof -
  obtain r where r: "RangeFor (word_of_nat 0) (word_of_nat 1) 1024 = Inr r"
    "unat (Lo r) = range_start 1024 1 0" "unat (Hi r) = range_start 1024 1 (Suc 0)"
    using RangeFor_of_nat[of 0 1 1024] ValidPartitionCount_1024 by auto
  have "Lo r = 0" "Hi r = 1024"
    using r(2,3) by (simp_all add: range_start_def unsigned_word_eqI[where 'a = nat] flip: unat_eq_zero)
  then have "RangeFor 0 1 1024 = Inr \<lparr>Lo = 0, Hi = 1024\<rparr>" using r(1) by (cases r) simp
  then show ?thesis
    by (simp add: LoadNode_def envInt_def load_owned_def env_def ValidPartitionCount_1024 DefaultPartitionCount_def
        DefaultMaxValueBytes_def DefaultMaxKeyBytes_def)
qed

theorem LoadNode_valid_witness:
  "\<exists>cfg. LoadNode (\<lambda>_. []) = Inr cfg \<and> ValidPartitionCount (n_PartitionCount cfg) \<and> n_Owned cfg = \<lparr>Lo = 0, Hi = 1024\<rparr>"
  using LoadNode_valid[OF LoadNode_defaults] LoadNode_defaults by auto

text \<open>
  C33. The check of an explicit range has a hole: whatever the lower bound and the rest of the
  environment, an upper bound of \<open>2^64 - 1\<close> becomes 0 when \<open>ParseRange\<close> turns it into an exclusive bound,
  passes the comparison with the partition count, and the node starts with a range that
  contains no partition at all.
\<close>

theorem owned_partitions_wrap:
  fixes lo :: uint64
  assumes "getenv ''OWNED_PARTITIONS'' = format_uint (unat lo) @ ''-18446744073709551615''"
    "envInt getenv ''PARTITION_COUNT'' DefaultPartitionCount = Inr pc" "ValidPartitionCount pc"
    "envInt getenv ''MAX_VALUE_BYTES'' DefaultMaxValueBytes = Inr mv" "envInt getenv ''MAX_KEY_BYTES'' DefaultMaxKeyBytes = Inr mk"
  shows "\<exists>cfg. LoadNode getenv = Inr cfg \<and> n_Owned cfg = \<lparr>Lo = lo, Hi = 0\<rparr> \<and> (\<forall>p. \<not> Contains (n_Owned cfg) p)"
proof -
  let ?hi = "''18446744073709551615''" and ?lo = "format_uint (unat lo)"
  let ?s = "?lo @ CHR ''-'' # ?hi"
  have dash: "CHR ''-'' \<notin> set ?lo" by (rule digits_no_char) (simp add: is_digit_def)
  have ends: "graphic CHR ''1''" "graphic CHR ''5''" by (simp_all add: graphic_def)
  have trim: "TrimSpace ?s = ?s" "TrimSpace ?hi = ?hi"
    by (rule TrimSpace_id; simp add: graphic_digit hd_format_uint_digit ends)+
  have "ParseUint ?hi = Inr (- 1)" by (simp add: ParseUint_def is_digit_def digit_val_def)
  moreover have "\<not> - 1 < lo" by (simp add: not_less)
  ultimately have "ParseRange ?s = Inr \<lparr>Lo = lo, Hi = 0\<rparr>"
    unfolding ParseRange_def Let_def trim by (simp add: Cut_found[OF dash] trim)
  then have "load_owned getenv pc = Inr \<lparr>Lo = lo, Hi = 0\<rparr>" using assms(1) by (simp add: load_owned_def)
  then show ?thesis using assms(2-5) by (simp add: LoadNode_def Contains_def)
qed

theorem owned_partitions_wrap_witness:
  "\<exists>cfg. LoadNode ((\<lambda>_. [])(''OWNED_PARTITIONS'' := format_uint 0 @ ''-18446744073709551615'')) = Inr cfg \<and>
     (\<forall>p. \<not> Contains (n_Owned cfg) p)"
proof -
  let ?e = "(\<lambda>_. [])(''OWNED_PARTITIONS'' := format_uint 0 @ ''-18446744073709551615'')"
  have "envInt ?e ''PARTITION_COUNT'' DefaultPartitionCount = Inr 1024" "envInt ?e ''MAX_VALUE_BYTES'' DefaultMaxValueBytes = Inr 1048576"
    "envInt ?e ''MAX_KEY_BYTES'' DefaultMaxKeyBytes = Inr 1024"
    by (simp_all add: envInt_def DefaultPartitionCount_def DefaultMaxValueBytes_def DefaultMaxKeyBytes_def)
  from owned_partitions_wrap[OF _ this(1) ValidPartitionCount_1024 this(2,3), of 0] show ?thesis by auto
qed

section \<open>The node list of the proxy\<close>

definition nodes_ok :: "go_string list \<Rightarrow> (go_string \<rightharpoonup> go_string) \<Rightarrow> bool" where
  "nodes_ok ids addrs \<longleftrightarrow> distinct ids \<and> [] \<notin> set ids \<and> dom addrs = set ids"

lemma nodes_loop_ok:
  "nodes_loop pairs ids addrs = Inr (ids', addrs') \<Longrightarrow> nodes_ok ids addrs \<Longrightarrow> nodes_ok ids' addrs'"
proof (induction pairs arbitrary: ids addrs)
  case (Cons raw pairs)
  obtain i u found where cut: "Cut (TrimSpace raw) CHR ''='' = (i, u, found)" by (cases "Cut (TrimSpace raw) CHR ''=''")
  show ?case
  proof (cases "TrimSpace raw = []")
    case True
    then show ?thesis using Cons by simp
  next
    case False
    with Cons.prems(1) cut have new: "TrimSpace i \<noteq> []" "addrs (TrimSpace i) = None"
      "nodes_loop pairs (ids @ [TrimSpace i]) (addrs(TrimSpace i \<mapsto> TrimRight (TrimSpace u) ''/'')) = Inr (ids', addrs')"
      by (auto simp: Let_def split: if_splits)
    then have "nodes_ok (ids @ [TrimSpace i]) (addrs(TrimSpace i \<mapsto> TrimRight (TrimSpace u) ''/''))"
      using Cons.prems(2) by (auto simp: nodes_ok_def)
    with Cons.IH new(3) show ?thesis by blast
  qed
qed simp

lemma LoadProxy_nodes:
  assumes "LoadProxy parseDuration getenv = Inr cfg"
  shows "nodes_ok (p_NodeIDs cfg) (p_Addresses cfg)" "ValidPartitionCount (p_PartitionCount cfg)" "p_NodeIDs cfg \<noteq> []"
    "envInt getenv ''PARTITION_COUNT'' DefaultPartitionCount = Inr (p_PartitionCount cfg)"
proof -
  show "ValidPartitionCount (p_PartitionCount cfg)" "p_NodeIDs cfg \<noteq> []"
    "envInt getenv ''PARTITION_COUNT'' DefaultPartitionCount = Inr (p_PartitionCount cfg)"
    using assms by (auto simp: LoadProxy_def Let_def split: sum.splits if_splits)
  have l: "nodes_loop (Split (getenv ''NODES'') CHR '','') [] Map.empty = Inr (p_NodeIDs cfg, p_Addresses cfg)"
    using assms by (auto simp: LoadProxy_def Let_def split: sum.splits if_splits)
  have "nodes_ok [] Map.empty" by (simp add: nodes_ok_def)
  from nodes_loop_ok[OF l this] show "nodes_ok (p_NodeIDs cfg) (p_Addresses cfg)" .
qed


text \<open>Names and addresses that survive trimming and splitting.\<close>

definition plain_text :: "go_string \<Rightarrow> bool" where
  "plain_text s \<longleftrightarrow> s \<noteq> [] \<and> (\<forall>c \<in> set s. graphic c \<and> c \<noteq> CHR '','')"

definition plain_entry :: "go_string \<times> go_string \<Rightarrow> bool" where
  "plain_entry e \<longleftrightarrow> plain_text (fst e) \<and> plain_text (snd e) \<and> CHR ''='' \<notin> set (fst e) \<and> last (snd e) \<noteq> CHR ''/''"

definition entry_text :: "go_string \<times> go_string \<Rightarrow> go_string" where
  "entry_text e = fst e @ CHR ''='' # snd e"

lemma TrimSpace_plain: "plain_text s \<Longrightarrow> TrimSpace s = s"
  by (rule TrimSpace_id) (auto simp: plain_text_def)

lemma TrimRight_slash: "s \<noteq> [] \<Longrightarrow> last s \<noteq> CHR ''/'' \<Longrightarrow> TrimRight s ''/'' = s"
  by (cases s rule: rev_cases) (simp_all add: TrimRight_def)

lemma plain_entry_text: "plain_entry e \<Longrightarrow> plain_text (entry_text e)"
  by (auto simp: plain_entry_def plain_text_def entry_text_def graphic_def)

lemma nodes_loop_entries:
  assumes "\<forall>e \<in> set es. plain_entry e" "distinct (map fst es)" "\<forall>e \<in> set es. addrs (fst e) = None"
  shows "nodes_loop (map entry_text es) ids addrs = Inr (ids @ map fst es, addrs ++ map_of es)"
  using assms
proof (induction es arbitrary: ids addrs)
  case (Cons e es)
  have e: "plain_entry e" using Cons.prems(1) by simp
  have "Cut (entry_text e) CHR ''='' = (fst e, snd e, True)"
    using e Cut_found[of "CHR ''=''" "fst e" "snd e"] by (simp add: plain_entry_def entry_text_def)
  moreover have "TrimSpace (entry_text e) = entry_text e" "entry_text e \<noteq> []"
    using TrimSpace_plain[OF plain_entry_text[OF e]] by (simp_all add: entry_text_def)
  moreover have "TrimSpace (fst e) = fst e" "TrimSpace (snd e) = snd e" "fst e \<noteq> []" "snd e \<noteq> []"
    using e TrimSpace_plain by (auto simp: plain_entry_def plain_text_def)
  moreover have "TrimRight (snd e) ''/'' = snd e" using e TrimRight_slash by (auto simp: plain_entry_def plain_text_def)
  moreover have "nodes_loop (map entry_text es) (ids @ [fst e]) (addrs(fst e \<mapsto> snd e)) =
      Inr ((ids @ [fst e]) @ map fst es, addrs(fst e \<mapsto> snd e) ++ map_of es)"
    using Cons.prems by (intro Cons.IH) (auto simp: image_iff)
  moreover have "(addrs ++ map_of es)(fst e \<mapsto> snd e) = addrs ++ map_of (e # es)"
  proof -
    have "map_of es (fst e) = None" using Cons.prems(2) by (simp add: map_of_eq_None_iff)
    then show ?thesis by (auto simp: map_add_def fun_eq_iff split: option.splits)
  qed
  moreover have "addrs(fst e \<mapsto> snd e) ++ map_of es = (addrs ++ map_of es)(fst e \<mapsto> snd e)"
    using Cons.prems(2) by (intro map_add_upd_left) (simp add: dom_map_of_conv_image_fst)
  ultimately show ?case using Cons.prems(3) by (simp add: Let_def del: map_of.simps)
qed simp

lemma join_ends:
  "ws \<noteq> [] \<Longrightarrow> \<forall>w \<in> set ws. plain_text w \<Longrightarrow> join sep ws \<noteq> [] \<and> graphic (hd (join sep ws)) \<and> graphic (last (join sep ws))"
  by (induction sep ws rule: join.induct) (auto simp: plain_text_def)

lemma nodes_loop_text:
  assumes "es \<noteq> []" "\<forall>e \<in> set es. plain_entry e" "distinct (map fst es)"
  shows "nodes_loop (Split (join '','' (map entry_text es)) CHR '','') [] Map.empty = Inr (map fst es, map_of es)"
proof -
  have "\<forall>w \<in> set (map entry_text es). CHR '','' \<notin> set w"
    using assms(2) plain_entry_text by (auto simp: plain_text_def)
  then have "Split (join '','' (map entry_text es)) CHR '','' = map entry_text es"
    using assms(1) by (intro Split_join) simp_all
  then show ?thesis using nodes_loop_entries[OF assms(2,3), of Map.empty "[]"] by simp
qed

text \<open>
  C32. The documented form of \<open>NODES\<close> is read back exactly: when the variable is a comma-separated list
  of \<open>id=url\<close> pairs, with distinct names and printable names and addresses that hold no comma and
  no blank, names no equals sign, and addresses no slash at the end, and the other variables are
  valid, the proxy loads the ids in the order of the list, which fixes the nodes' ranges, and for each id its url.
\<close>

theorem NODES_round_trip:
  assumes "es \<noteq> []" "\<forall>e \<in> set es. plain_entry e" "distinct (map fst es)"
    "getenv ''NODES'' = join '','' (map entry_text es)"
    "envInt getenv ''PARTITION_COUNT'' DefaultPartitionCount = Inr pc" "ValidPartitionCount pc"
    "load_timeout parseDuration getenv = Inr timeout"
  shows "\<exists>cfg. LoadProxy parseDuration getenv = Inr cfg \<and> p_NodeIDs cfg = map fst es \<and> p_Addresses cfg = map_of es \<and>
     p_PartitionCount cfg = pc \<and> p_RequestTimeout cfg = timeout"
proof -
  have "TrimSpace (join '','' (map entry_text es)) \<noteq> []"
    using join_ends[of "map entry_text es" "'',''"] TrimSpace_id assms(1,2) plain_entry_text by auto
  then show ?thesis
    using nodes_loop_text[OF assms(1-3)] assms(1,4-7) by (simp add: LoadProxy_def)
qed

theorem NODES_round_trip_witness:
  "\<exists>cfg. LoadProxy (\<lambda>_. Inl []) ((\<lambda>_. [])(''NODES'' := ''n1=http://n1:8081,n2=http://n2:8081'')) = Inr cfg \<and>
     p_NodeIDs cfg = [''n1'', ''n2''] \<and> p_Addresses cfg = [''n1'' \<mapsto> ''http://n1:8081'', ''n2'' \<mapsto> ''http://n2:8081'']"
proof -
  let ?es = "[(''n1'', ''http://n1:8081''), (''n2'', ''http://n2:8081'')]"
  let ?e = "(\<lambda>_. [])(''NODES'' := ''n1=http://n1:8081,n2=http://n2:8081'')"
  have plain: "\<forall>e \<in> set ?es. plain_entry e" by (simp add: plain_entry_def plain_text_def graphic_def)
  have "?e ''NODES'' = join '','' (map entry_text ?es)" by (simp add: entry_text_def)
  moreover have "envInt ?e ''PARTITION_COUNT'' DefaultPartitionCount = Inr 1024" by (simp add: envInt_def DefaultPartitionCount_def)
  moreover have "load_timeout (\<lambda>_. Inl []) ?e = Inr DefaultRequestTimeout" by (simp add: load_timeout_def)
  ultimately show ?thesis
    using NODES_round_trip[OF _ plain _ _ _ ValidPartitionCount_1024, of ?e "\<lambda>_. Inl []"] by (auto simp: fun_upd_twist)
qed


end
