(* ===== verification/Cluster.thy ===== *)
theory Cluster
  imports Proxy Config
begin

text \<open>
  The whole system: the start of both binaries (\<open>cmd/node/main.go\<close>, \<open>cmd/proxy/main.go\<close>) up to
  the point where they listen, and a cluster of nodes behind a proxy. The network \<open>deliver\<close>
  brings a request to the node at its address and the node's response back; a node that does not
  run is an address without a service.

  The main result is that a cluster answers single-key requests exactly as one node that owns
  every partition would (\<open>cluster_transparent\<close>).
\<close>

section \<open>Starting the binaries\<close>

datatype start_error = ConfigFailed config_error | StoreFailedToStart ConfigError | TableFailed routing_error

definition node_run :: "environment \<Rightarrow> start_error + Service" where
  "node_run getenv =
     (case LoadNode getenv of
        Inl err \<Rightarrow> Inl (ConfigFailed err)
      | Inr cfg \<Rightarrow>
          (case New (n_PartitionCount cfg) of
             Inl err \<Rightarrow> Inl (StoreFailedToStart err)
           | Inr kv \<Rightarrow>
               Inr (NewService kv \<lparr>cfg_NodeID = n_NodeID cfg, cfg_PartitionCount = n_PartitionCount cfg,
                      cfg_Owned = n_Owned cfg, MaxValueBytes = n_MaxValueBytes cfg, MaxKeyBytes = n_MaxKeyBytes cfg\<rparr>)))"

definition proxy_run ::
    "(go_string \<Rightarrow> go_string + go_int) \<Rightarrow> environment \<Rightarrow> (start_error + Handler) option" where
  "proxy_run parseDuration getenv =
     (case LoadProxy parseDuration getenv of
        Inl err \<Rightarrow> Some (Inl (ConfigFailed err))
      | Inr cfg \<Rightarrow>
          (case NewTable (p_NodeIDs cfg) (p_PartitionCount cfg) of
             None \<Rightarrow> None
           | Some (Inl err) \<Rightarrow> Some (Inl (TableFailed err))
           | Some (Inr t) \<Rightarrow>
               Some (Inr (NewHandler t (NewCaller (p_Addresses cfg) (p_PartitionCount cfg) (p_RequestTimeout cfg))))))"

section \<open>Nodes behind a proxy\<close>

type_synonym network = "go_string \<rightharpoonup> Service"

text \<open>
  A request whose body cannot be read to its end fails in the client: \<open>client.Do\<close> returns the error of
  the reader, even if the node gets what could be read, for a node changes nothing then
  (\<open>broken_body_changes_nothing\<close>). The answer to any other request reaches the proxy, also
  one that a node gives before it has read all of the body.
\<close>

definition deliver :: "(nat \<Rightarrow> bool) \<Rightarrow> (nat \<Rightarrow> bool) \<Rightarrow> network transport" where
  "deliver isPrint conn net base r =
     (case net base of
        None \<Rightarrow> (net, Inl ''connection refused'')
      | Some s \<Rightarrow>
          if BodyBroken r then (net, Inl ''unexpected EOF'')
          else (case ServeHTTP isPrint conn s r of
             None \<Rightarrow> (net, Inl ''EOF'')
           | Some (s', resp) \<Rightarrow> (net(base \<mapsto> s'), Inr (resp, False))))"

lemma broken_body_changes_nothing:
  assumes "BodyBroken r" "ServeHTTP isPrint conn s r = Some (s', resp)"
  shows "s' = s"
proof -
  have "read_body limit r \<noteq> Inr body" for limit body using assms(1) by (simp add: read_body_def)
  then have "write_decoded s r key \<noteq> Inr bg" for key bg
    by (auto simp: write_decoded_def split: option.splits sum.splits body_error.splits)
  then have "write_handler isPrint mode s r key = Some (t, x) \<Longrightarrow> t = s" for mode key t x
    by (auto simp: write_handler_decoded split: sum.splits)
  moreover have "get_handler isPrint s r key = Some (t, x) \<Longrightarrow> t = s" for key t x
    by (auto simp: get_handler_def split: option.splits sum.splits)
  moreover have "fst (listKeys conn s r) = s" by (simp add: listKeys_def split: option.split)
  ultimately show ?thesis
    using assms(2) by (auto simp: ServeHTTP_def dispatch_def split: mux_result.splits node_route.splits dest: arg_cong[of _ _ fst])
qed

definition node_at :: "Handler \<Rightarrow> network \<Rightarrow> go_string \<Rightarrow> Service option" where
  "node_at h net nid = Option.bind (addresses (caller h) nid) net"

text \<open>
  A consistent cluster: the proxy's table, and behind the address of the i-th node of the table a
  node of that name that holds the i-th range. All nodes have the limits \<open>mv\<close> and \<open>mk\<close>.
\<close>

definition slot_ok :: "go_int \<Rightarrow> go_int \<Rightarrow> Handler \<Rightarrow> network \<Rightarrow> nat \<Rightarrow> bool" where
  "slot_ok mv mk h net i \<longleftrightarrow>
     (\<exists>s r. node_at h net (NodeIDs (table h) ! i) = Some s \<and> node_ok s \<and>
        RangeFor (word_of_nat i) (word_of_nat (length (NodeIDs (table h)))) (tbl_partitionCount (table h)) = Inr r \<and>
        svc_cfg s = \<lparr>cfg_NodeID = NodeIDs (table h) ! i, cfg_PartitionCount = tbl_partitionCount (table h),
                     cfg_Owned = r, MaxValueBytes = mv, MaxKeyBytes = mk\<rparr>)"

definition cluster_ok :: "go_int \<Rightarrow> go_int \<Rightarrow> Handler \<Rightarrow> network \<Rightarrow> bool" where
  "cluster_ok mv mk h net \<longleftrightarrow>
     NewTable (NodeIDs (table h)) (tbl_partitionCount (table h)) = Some (Inr (table h)) \<and>
     distinct (NodeIDs (table h)) \<and> caller_partitionCount (caller h) = tbl_partitionCount (table h) \<and>
     (\<forall>i < length (NodeIDs (table h)). slot_ok mv mk h net i)"

text \<open>What the cluster holds: for each key, what the node responsible for it holds.\<close>

definition cluster_holds :: "Handler \<Rightarrow> network \<Rightarrow> kv" where
  "cluster_holds h net k =
     (case NodeFor (table h) k of
        None \<Rightarrow> None
      | Some nid \<Rightarrow> (case node_at h net nid of None \<Rightarrow> None | Some s \<Rightarrow> holds s k))"

text \<open>One node that owns everything and holds what the cluster holds.\<close>

definition stands_for :: "go_int \<Rightarrow> go_int \<Rightarrow> Handler \<Rightarrow> network \<Rightarrow> Service \<Rightarrow> bool" where
  "stands_for mv mk h net s1 \<longleftrightarrow> node_ok s1 \<and>
     cfg_PartitionCount (svc_cfg s1) = tbl_partitionCount (table h) \<and>
     cfg_Owned (svc_cfg s1) = \<lparr>Lo = 0, Hi = tbl_partitionCount (table h)\<rparr> \<and>
     MaxValueBytes (svc_cfg s1) = mv \<and> MaxKeyBytes (svc_cfg s1) = mk \<and> holds s1 = cluster_holds h net"

section \<open>The node responsible for a key\<close>

lemma responsible_node:
  assumes "cluster_ok mv mk h net"
  obtains i base s where "i < length (NodeIDs (table h))" "NodeFor (table h) key = Some (NodeIDs (table h) ! i)"
    "addresses (caller h) (NodeIDs (table h) ! i) = Some base" "net base = Some s" "node_ok s"
    "cfg_PartitionCount (svc_cfg s) = tbl_partitionCount (table h)"
    "Contains (cfg_Owned (svc_cfg s)) (Partition key (tbl_partitionCount (table h)))"
    "MaxValueBytes (svc_cfg s) = mv" "MaxKeyBytes (svc_cfg s) = mk"
proof -
  let ?ids = "NodeIDs (table h)" and ?pc = "tbl_partitionCount (table h)"
  have t: "NewTable ?ids ?pc = Some (Inr (table h))" and d: "distinct ?ids" using assms by (simp_all add: cluster_ok_def)
  have p: "unat (Partition key ?pc) < unat ?pc" using Partition_less NewTable_table(5)[OF t] by blast
  from NodeForPartition_owner[OF t p] obtain i where
    i: "i < length ?ids" "NodeForPartition (table h) (Partition key ?pc) = Some (?ids ! i)" .
  then have "slot_ok mv mk h net i" using assms by (simp add: cluster_ok_def)
  then obtain base s r where s: "addresses (caller h) (?ids ! i) = Some base" "net base = Some s" "node_ok s"
    "RangeFor (word_of_nat i) (word_of_nat (length ?ids)) ?pc = Inr r"
    "svc_cfg s = \<lparr>cfg_NodeID = ?ids ! i, cfg_PartitionCount = ?pc, cfg_Owned = r, MaxValueBytes = mv, MaxKeyBytes = mk\<rparr>"
    by (auto simp: slot_ok_def node_at_def bind_eq_Some_conv)
  have "Contains r (Partition key ?pc)" using NodeForPartition_iff_Contains[OF t d i(1) s(4) p] i(2) by simp
  with that i s NodeFor_is_NodeForPartition[OF t] show thesis by simp
qed

lemma single_owns:
  assumes "cluster_ok mv mk h net"
  shows "Contains \<lparr>Lo = 0, Hi = tbl_partitionCount (table h)\<rparr> (Partition key (tbl_partitionCount (table h)))"
proof -
  have "ValidPartitionCount (tbl_partitionCount (table h))" using assms NewTable_table(5) unfolding cluster_ok_def by blast
  then show ?thesis using Partition_less by (simp add: Contains_def word_less_nat_alt)
qed

lemma checkKey_owned:
  assumes "Contains (cfg_Owned (svc_cfg s)) (Partition key (cfg_PartitionCount (svc_cfg s)))"
    "Contains (cfg_Owned (svc_cfg t)) (Partition key (cfg_PartitionCount (svc_cfg t)))"
    "MaxKeyBytes (svc_cfg s) = MaxKeyBytes (svc_cfg t)"
  shows "checkKey s key = checkKey t key"
  using assms by (simp add: checkKey_def Let_def)

section \<open>Handlers that see the same\<close>

text \<open>What a request asks of a key depends on the node only through the limits and the key's own entry.\<close>

lemma spec_service_write_local:
  assumes "checkKey s (wr_Key req) = checkKey t (wr_Key req)" "MaxValueBytes (svc_cfg s) = MaxValueBytes (svc_cfg t)"
    "holds s (wr_Key req) = holds t (wr_Key req)"
  shows "snd (spec_service_write s req) = snd (spec_service_write t req)"
    "fst (spec_service_write s req) (wr_Key req) = fst (spec_service_write t req) (wr_Key req)"
  using assms by (auto simp: spec_service_write_def spec_write_def split: option.splits)

lemma spec_service_write_other: "k \<noteq> wr_Key req \<Longrightarrow> fst (spec_service_write s req) k = holds s k"
  by (auto simp: spec_service_write_def spec_write_def split: option.splits)

text \<open>The handlers of the three methods on a key, by the method.\<close>

definition key_handler :: "(nat \<Rightarrow> bool) \<Rightarrow> Service \<Rightarrow> Request \<Rightarrow> go_string \<Rightarrow> (Service \<times> Response) option" where
  "key_handler isPrint s r key =
     (if Method r = ''PUT'' then write_handler isPrint ModeReplace s r key
      else if Method r = ''PATCH'' then write_handler isPrint ModeMerge s r key
      else get_handler isPrint s r key)"

definition key_method :: "go_string \<Rightarrow> bool" where
  "key_method m \<longleftrightarrow> m = ''GET'' \<or> m = ''HEAD'' \<or> m = ''PUT'' \<or> m = ''PATCH''"

lemma ServeHTTP_key:
  "key \<noteq> [] \<Longrightarrow> key \<noteq> ''/'' \<Longrightarrow> EscapedPath r = key_path key \<Longrightarrow> key_method (Method r) \<Longrightarrow>
   ServeHTTP isPrint conn s r = key_handler isPrint s r key"
  using mux_find_key_path[of key "Method r"]
  by (auto simp: ServeHTTP_def dispatch_def key_handler_def key_method_def)

lemma Allow_empty [simp]: "Allow (writeStatus status msg key version) = []" "Allow (respond isPrint key res) = []"
proof -
  show st: "Allow (writeStatus status msg key version) = []" for status msg key version
    by (simp add: writeStatus_def json_response_def)
  have "Allow (writeError isPrint key err) = []" for err
    by (cases err) (simp_all add: writeError_def st split: store_error.splits)
  then show "Allow (respond isPrint key res) = []"
    by (simp add: respond_def writeResult_def json_response_def split: sum.splits)
qed

text \<open>Two requests that ask for the same thing, and two nodes that agree on what they are asked about.\<close>

definition same_request :: "Request \<Rightarrow> Request \<Rightarrow> bool" where
  "same_request r r' \<longleftrightarrow> Method r = Method r' \<and> RawQuery r = RawQuery r' \<and> ReqBody r = ReqBody r' \<and> BodyBroken r = BodyBroken r'"

definition agree_on :: "go_string \<Rightarrow> Service \<Rightarrow> Service \<Rightarrow> bool" where
  "agree_on key s t \<longleftrightarrow> checkKey s key = checkKey t key \<and> MaxValueBytes (svc_cfg s) = MaxValueBytes (svc_cfg t) \<and>
     holds s key = holds t key"

text \<open>What handling a request for a key leaves of a node.\<close>

definition evolves :: "go_string \<Rightarrow> Service \<Rightarrow> Service \<Rightarrow> bool" where
  "evolves key s s' \<longleftrightarrow> node_ok s' \<and> svc_cfg s' = svc_cfg s \<and> (\<forall>k. k \<noteq> key \<longrightarrow> holds s' k = holds s k)"

lemma write_decoded_same:
  assumes "checkPartitionCount s r = None" "checkPartitionCount t r' = None" "same_request r r'"
    "MaxValueBytes (svc_cfg s) = MaxValueBytes (svc_cfg t)"
  shows "write_decoded s r key = write_decoded t r' key"
proof -
  have q: "RawQuery r = RawQuery r'" using assms(3) by (simp add: same_request_def)
  have guards: "parseGuards r = parseGuards r'" unfolding parseGuards_def q ..
  have body: "read_body n r = read_body n r'" for n using assms(3) by (simp add: read_body_def same_request_def)
  show ?thesis unfolding write_decoded_def assms(1,2,4) guards body ..
qed

lemma write_decoded_Allow:
  "write_decoded s r key = Inl resp \<Longrightarrow> checkPartitionCount s r = None \<Longrightarrow> Allow resp = []"
  by (auto simp: write_decoded_def split: sum.splits body_error.splits)

lemma write_handler_local:
  assumes "node_ok s" "node_ok t" "checkPartitionCount s r = None" "checkPartitionCount t r' = None"
    "same_request r r'" "agree_on key s t"
  shows "\<exists>s' t' resp. write_handler isPrint mode s r key = Some (s', resp) \<and> write_handler isPrint mode t r' key = Some (t', resp) \<and>
     evolves key s s' \<and> evolves key t t' \<and> holds s' key = holds t' key \<and> Allow resp = []"
proof -
  have mv: "MaxValueBytes (svc_cfg s) = MaxValueBytes (svc_cfg t)" using assms(6) by (simp add: agree_on_def)
  note d = write_decoded_same[OF assms(3,4,5) mv, of key]
  show ?thesis
  proof (cases "write_decoded s r key")
    case (Inl resp)
    then show ?thesis using d assms write_decoded_Allow[OF Inl assms(3)]
      by (simp add: write_handler_decoded evolves_def agree_on_def)
  next
    case (Inr bg)
    let ?req = "write_request mode key (fst bg) (snd bg)"
    obtain s' where s': "Service_Write s ?req = Some (s', snd (spec_service_write s ?req))" "node_ok s'"
      "holds s' = fst (spec_service_write s ?req)" "svc_cfg s' = svc_cfg s" using Service_Write_spec[OF assms(1)] by blast
    obtain t' where t': "Service_Write t ?req = Some (t', snd (spec_service_write t ?req))" "node_ok t'"
      "holds t' = fst (spec_service_write t ?req)" "svc_cfg t' = svc_cfg t" using Service_Write_spec[OF assms(2)] by blast
    have "snd (spec_service_write s ?req) = snd (spec_service_write t ?req)"
      "fst (spec_service_write s ?req) key = fst (spec_service_write t ?req) key"
      using spec_service_write_local[of s ?req t] assms(6) by (simp_all add: agree_on_def)
    moreover have "evolves key s s'" "evolves key t t'"
      using s' t' spec_service_write_other[of _ ?req] by (simp_all add: evolves_def)
    ultimately show ?thesis using Inr d s' t' by (cases bg) (simp add: write_handler_decoded)
  qed
qed

lemma get_handler_local:
  assumes "node_ok s" "node_ok t" "checkPartitionCount s r = None" "checkPartitionCount t r' = None" "agree_on key s t"
  shows "\<exists>resp. get_handler isPrint s r key = Some (s, resp) \<and> get_handler isPrint t r' key = Some (t, resp) \<and> Allow resp = []"
proof -
  have same: "checkKey s key = checkKey t key" "holds s key = holds t key" using assms(5) by (simp_all add: agree_on_def)
  have "Service_Get s key = Service_Get t key"
    unfolding Service_Get_spec[OF assms(1)] Service_Get_spec[OF assms(2)] same ..
  moreover obtain res where "Service_Get s key = Some res" using Service_Get_spec[OF assms(1), of key] by blast
  ultimately show ?thesis
    using get_handler_respond[OF _ assms(3)] get_handler_respond[OF _ assms(4)] by (intro exI[of _ "respond isPrint key res"]) simp
qed

lemma key_handler_local:
  assumes "node_ok s" "node_ok t" "checkPartitionCount s r = None" "checkPartitionCount t r' = None"
    "same_request r r'" "agree_on key s t"
  obtains s' t' resp where "key_handler isPrint s r key = Some (s', resp)" "key_handler isPrint t r' key = Some (t', resp)"
    "evolves key s s'" "evolves key t t'" "holds s' key = holds t' key" "Allow resp = []"
proof -
  have "Method r' = Method r" using assms(5) by (simp add: same_request_def)
  moreover have "evolves key s s" "evolves key t t" using assms by (simp_all add: evolves_def)
  moreover have "holds s key = holds t key" using assms(6) by (simp add: agree_on_def)
  ultimately show thesis
    using that write_handler_local[OF assms, of isPrint ModeReplace] write_handler_local[OF assms, of isPrint ModeMerge]
      get_handler_local[OF assms(1-4,6), of isPrint] unfolding key_handler_def
    by (cases "Method r = ''PUT''"; cases "Method r = ''PATCH''") (simp_all, blast+)
qed

section \<open>The cluster behaves like one node\<close>

lemma proxy_find_key_path:
  assumes "key \<noteq> []" "key \<noteq> ''/''" "key_method m"
  shows "mux_find proxy_Routes m (key_path key) = MuxHandler R_route key"
  unfolding mux_find_def Let_def key_path_taken[OF assms(1)] key_path_segments[OF assms(1)]
  using assms by (auto simp: proxy_Routes_def key_method_def)

lemma proxy_serves_key:
  assumes "key \<noteq> []" "key \<noteq> ''/''" "key_method (Method r)" "EscapedPath r = key_path key"
  shows "proxy_serves send h net r net' resp \<longleftrightarrow> route send net h r key = Some (net', resp)"
  using proxy_find_key_path[OF assms(1-3)] assms(4)
  by (auto simp: proxy_serves.simps)

lemma slot_ok_update:
  assumes "cluster_ok mv mk h net" "i < length (NodeIDs (table h))" "addresses (caller h) (NodeIDs (table h) ! i) = Some base"
    "net base = Some s" "evolves key s s'"
  shows "cluster_ok mv mk h (net(base \<mapsto> s'))"
proof -
  have "slot_ok mv mk h (net(base \<mapsto> s')) j" if j: "j < length (NodeIDs (table h))" for j
  proof (cases "node_at h net (NodeIDs (table h) ! j) = node_at h (net(base \<mapsto> s')) (NodeIDs (table h) ! j)")
    case True
    have "slot_ok mv mk h net j" using assms(1) j by (simp add: cluster_ok_def)
    then show ?thesis unfolding slot_ok_def True .
  next
    case False
    then have "addresses (caller h) (NodeIDs (table h) ! j) = Some base"
      by (auto simp: node_at_def fun_upd_def bind_eq_Some_conv split: if_splits Option.bind_splits)
    moreover have "slot_ok mv mk h net j" using assms(1) j by (simp add: cluster_ok_def)
    ultimately show ?thesis using assms(4,5) by (auto simp: slot_ok_def node_at_def evolves_def)
  qed
  then show ?thesis using assms(1) by (simp add: cluster_ok_def)
qed

lemma cluster_holds_update:
  assumes "cluster_ok mv mk h net" "NodeFor (table h) key = Some nid" "addresses (caller h) nid = Some base"
    "net base = Some s" "evolves key s s'"
  shows "cluster_holds h (net(base \<mapsto> s')) = (cluster_holds h net)(key := holds s' key)"
proof
  fix k
  show "cluster_holds h (net(base \<mapsto> s')) k = ((cluster_holds h net)(key := holds s' key)) k"
  proof (cases "k = key")
    case True
    then show ?thesis using assms(2,3) by (simp add: cluster_holds_def node_at_def)
  next
    case False
    then have "holds s' k = holds s k" using assms(5) by (simp add: evolves_def)
    then show ?thesis using False assms(4)
      by (auto simp: cluster_holds_def node_at_def split: option.splits Option.bind_splits if_splits)
  qed
qed

lemma checkPartitionCount_own:
  "PartitionHeader r = Itoa (cfg_PartitionCount (svc_cfg s)) \<Longrightarrow> checkPartitionCount s r = None"
  by (simp add: checkPartitionCount_def Let_def Atoi_Itoa CheckPartitionCount_def)

lemma cluster_step_aux:
  assumes "cluster_ok mv mk h net" "stands_for mv mk h net s1" "key \<noteq> []" "key \<noteq> ''/''"
    "key_method (Method r)" "EscapedPath r = key_path key" "PartitionHeader r = []" "\<not> BodyBroken r"
  obtains net' s1' resp where "route (deliver isPrint conn) net h r key = Some (net', resp)"
    "ServeHTTP isPrint conn s1 r = Some (s1', resp)" "cluster_ok mv mk h net'" "stands_for mv mk h net' s1'"
proof -
  let ?r = "outbound (caller h) r" and ?pc = "tbl_partitionCount (table h)"
  obtain i base s where s: "i < length (NodeIDs (table h))" "NodeFor (table h) key = Some (NodeIDs (table h) ! i)"
    "addresses (caller h) (NodeIDs (table h) ! i) = Some base" "net base = Some s" "node_ok s"
    "cfg_PartitionCount (svc_cfg s) = ?pc" "Contains (cfg_Owned (svc_cfg s)) (Partition key ?pc)"
    "MaxValueBytes (svc_cfg s) = mv" "MaxKeyBytes (svc_cfg s) = mk" by (rule responsible_node[OF assms(1)])
  have s1: "node_ok s1" "cfg_PartitionCount (svc_cfg s1) = ?pc" "cfg_Owned (svc_cfg s1) = \<lparr>Lo = 0, Hi = ?pc\<rparr>"
    "MaxValueBytes (svc_cfg s1) = mv" "MaxKeyBytes (svc_cfg s1) = mk" "holds s1 = cluster_holds h net"
    using assms(2) by (simp_all add: stands_for_def)
  have "checkKey s key = checkKey s1 key"
    using s s1 single_owns[OF assms(1), of key] by (intro checkKey_owned) simp_all
  moreover have "holds s key = holds s1 key" using s s1(6) by (simp add: cluster_holds_def node_at_def)
  ultimately have agree: "agree_on key s s1" using s s1 by (simp add: agree_on_def)
  have "caller_partitionCount (caller h) = ?pc" using assms(1) by (simp add: cluster_ok_def)
  then have chk: "checkPartitionCount s ?r = None" using s(6) by (intro checkPartitionCount_own) (simp add: outbound_def)
  have chk1: "checkPartitionCount s1 r = None" using assms(7) by (simp add: checkPartitionCount_def)
  have same: "same_request ?r r" by (simp add: same_request_def outbound_def)
  obtain s' s1' resp where k: "key_handler isPrint s ?r key = Some (s', resp)" "key_handler isPrint s1 r key = Some (s1', resp)"
    "evolves key s s'" "evolves key s1 s1'" "holds s' key = holds s1' key" "Allow resp = []"
    by (rule key_handler_local[OF s(5) s1(1) chk chk1 same agree])
  have serve: "ServeHTTP isPrint conn s ?r = Some (s', resp)" "ServeHTTP isPrint conn s1 r = Some (s1', resp)"
    using k(1,2) ServeHTTP_key[of key ?r] ServeHTTP_key[of key r] assms(3-6) by (simp_all add: outbound_def)
  let ?net = "net(base \<mapsto> s')"
  have "route (deliver isPrint conn) net h r key = Some (?net, resp)"
    using s serve(1) k(6) assms(8) by (simp add: route_def Forward_def deliver_def outbound_def)
  moreover have "cluster_ok mv mk h ?net" by (rule slot_ok_update[OF assms(1) s(1,3,4) k(3)])
  moreover have "holds s1' = cluster_holds h ?net"
    using cluster_holds_update[OF assms(1) s(2,3,4) k(3)] k(4,5) s1(6) by (auto simp: evolves_def fun_eq_iff)
  ultimately show thesis using that serve(2) s1 k(4) by (simp add: stands_for_def evolves_def)
qed

text \<open>
  Two servers in lockstep: the first may be nondeterministic. For related states and admissible
  requests the first has exactly one answer, the second gives it too, and the states stay related.
\<close>

locale lockstep =
  fixes step1 :: "'a \<Rightarrow> 'r \<Rightarrow> 'a \<Rightarrow> 'p \<Rightarrow> bool"
    and step2 :: "'b \<Rightarrow> 'r \<Rightarrow> ('b \<times> 'p) option"
    and related :: "'a \<Rightarrow> 'b \<Rightarrow> bool"
    and admissible :: "'r \<Rightarrow> bool"
  assumes together: "related a b \<Longrightarrow> admissible r \<Longrightarrow>
    \<exists>a' p b'. (\<forall>n x. step1 a r n x \<longleftrightarrow> n = a' \<and> x = p) \<and> step2 b r = Some (b', p) \<and> related a' b'"
begin

lemma together_runs:
  assumes "related a b" "\<forall>r \<in> set rs. admissible r"
  shows "\<exists>a' ps b'. (\<forall>n xs. runs step1 a rs n xs \<longleftrightarrow> n = a' \<and> xs = ps) \<and>
    runs (\<lambda>s r s' p. step2 s r = Some (s', p)) b rs b' ps \<and> related a' b'"
  using assms
proof (induction rs arbitrary: a b)
  case Nil
  then show ?case by (intro exI[of _ a] exI[of _ "[]"] exI[of _ b]) (auto intro: runs_Nil elim: runs_NilE)
next
  case (Cons r rs)
  from Cons.prems(2) have "admissible r" by simp
  from together[OF Cons.prems(1) this] obtain a1 p b1
    where s: "\<forall>n x. step1 a r n x \<longleftrightarrow> n = a1 \<and> x = p" "step2 b r = Some (b1, p)" "related a1 b1" by blast
  from Cons.IH[OF s(3)] Cons.prems(2) obtain a' ps b'
    where t: "\<forall>n xs. runs step1 a1 rs n xs \<longleftrightarrow> n = a' \<and> xs = ps"
      "runs (\<lambda>s r s' p. step2 s r = Some (s', p)) b1 rs b' ps" "related a' b'" by auto
  have "runs step1 a (r # rs) n xs \<longleftrightarrow> n = a' \<and> xs = p # ps" for n xs
    using s(1) t(1) by (auto intro: runs_Cons elim!: runs_ConsE)
  moreover have "runs (\<lambda>s r s' p. step2 s r = Some (s', p)) b (r # rs) b' (p # ps)" using s(2) t(2) by (rule runs_Cons)
  ultimately show ?case using t(3) by blast
qed

end

definition key_request :: "Request \<Rightarrow> bool" where
  "key_request r \<longleftrightarrow> key_method (Method r) \<and> PartitionHeader r = [] \<and> \<not> BodyBroken r \<and>
     (\<exists>key. key \<noteq> [] \<and> key \<noteq> ''/'' \<and> EscapedPath r = key_path key)"

interpretation transparent: lockstep "proxy_serves (deliver isPrint conn) h" "ServeHTTP isPrint conn"
  "\<lambda>net s1. cluster_ok mv mk h net \<and> stands_for mv mk h net s1" key_request
  for isPrint conn h mv mk
proof
  fix net s1 r
  assume rel: "cluster_ok mv mk h net \<and> stands_for mv mk h net s1" and "key_request r"
  then obtain key where key: "key \<noteq> []" "key \<noteq> ''/''" "key_method (Method r)" "EscapedPath r = key_path key" "PartitionHeader r = []" "\<not> BodyBroken r"
    by (auto simp: key_request_def)
  obtain net' s1' resp where "route (deliver isPrint conn) net h r key = Some (net', resp)"
    "ServeHTTP isPrint conn s1 r = Some (s1', resp)" "cluster_ok mv mk h net'" "stands_for mv mk h net' s1'"
    using cluster_step_aux[of mv mk h net s1 key r isPrint conn] rel key by blast
  then show "\<exists>net' resp s1'. (\<forall>n x. proxy_serves (deliver isPrint conn) h net r n x \<longleftrightarrow> n = net' \<and> x = resp) \<and>
      ServeHTTP isPrint conn s1 r = Some (s1', resp) \<and> cluster_ok mv mk h net' \<and> stands_for mv mk h net' s1'"
    unfolding proxy_serves_key[OF key(1-4)] by (intro exI[of _ net'] exI[of _ resp] exI[of _ s1']) auto
qed


section \<open>A cluster that starts is consistent\<close>

text \<open>
  The environment of the node in slot \<open>i\<close>: its name and slot in the proxy's list, no explicit
  range, the proxy's partition count, and the limits \<open>mv\<close> and \<open>mk\<close>.
\<close>

definition slot_env :: "go_string list \<Rightarrow> environment \<Rightarrow> go_int \<Rightarrow> go_int \<Rightarrow> nat \<Rightarrow> environment \<Rightarrow> bool" where
  "slot_env ids penv mv mk i e \<longleftrightarrow>
     e ''NODE_ID'' = ids ! i \<and> e ''NODE_INDEX'' = Itoa (word_of_nat i) \<and> e ''NODE_COUNT'' = Itoa (word_of_nat (length ids)) \<and>
     e ''OWNED_PARTITIONS'' = [] \<and> e ''PARTITION_COUNT'' = penv ''PARTITION_COUNT'' \<and>
     envInt e ''MAX_VALUE_BYTES'' DefaultMaxValueBytes = Inr mv \<and> envInt e ''MAX_KEY_BYTES'' DefaultMaxKeyBytes = Inr mk"

lemma Itoa_nonempty [simp]: "Itoa n \<noteq> []"
  by (simp add: Itoa_def)

lemma proxy_runD:
  assumes "proxy_run parseDuration penv = Some (Inr h)"
  shows "NewTable (NodeIDs (table h)) (tbl_partitionCount (table h)) = Some (Inr (table h))"
    "distinct (NodeIDs (table h))" "[] \<notin> set (NodeIDs (table h))"
    "caller_partitionCount (caller h) = tbl_partitionCount (table h)"
    "dom (addresses (caller h)) = set (NodeIDs (table h))"
    "envInt penv ''PARTITION_COUNT'' DefaultPartitionCount = Inr (tbl_partitionCount (table h))"
proof -
  obtain cfg t where cfg: "LoadProxy parseDuration penv = Inr cfg"
    and t: "NewTable (p_NodeIDs cfg) (p_PartitionCount cfg) = Some (Inr t)"
    and h: "h = \<lparr>table = t, caller = NewCaller (p_Addresses cfg) (p_PartitionCount cfg) (p_RequestTimeout cfg)\<rparr>"
    using assms by (auto simp: proxy_run_def split: sum.splits option.splits)
  show "NewTable (NodeIDs (table h)) (tbl_partitionCount (table h)) = Some (Inr (table h))"
    "distinct (NodeIDs (table h))" "[] \<notin> set (NodeIDs (table h))"
    "caller_partitionCount (caller h) = tbl_partitionCount (table h)"
    "dom (addresses (caller h)) = set (NodeIDs (table h))"
    "envInt penv ''PARTITION_COUNT'' DefaultPartitionCount = Inr (tbl_partitionCount (table h))"
    using LoadProxy_nodes[OF cfg] t h NewTable_table(1,2)[OF t] by (simp_all add: NodeIDs_def NewCaller_def nodes_ok_def)
qed

lemma slot_starts:
  assumes "ValidPartitionCount pc" "envInt penv ''PARTITION_COUNT'' DefaultPartitionCount = Inr pc"
    "i < length ids" "length ids < 2 ^ 63" "[] \<notin> set ids" "slot_env ids penv mv mk i e"
  obtains s r where "node_run e = Inr s" "node_ok s" "holds s = Map.empty"
    "RangeFor (word_of_nat i) (word_of_nat (length ids)) pc = Inr r"
    "svc_cfg s = \<lparr>cfg_NodeID = ids ! i, cfg_PartitionCount = pc, cfg_Owned = r, MaxValueBytes = mv, MaxKeyBytes = mk\<rparr>"
proof -
  obtain r where r: "RangeFor (word_of_nat i) (word_of_nat (length ids)) pc = Inr r"
    using RangeFor_of_nat[OF assms(3,4,1)] by blast
  have "ids ! i \<noteq> []" using assms(3,5) nth_mem by metis
  moreover have "envInt e ''PARTITION_COUNT'' DefaultPartitionCount = Inr pc"
    using assms(2,6) by (simp add: envInt_def slot_env_def)
  moreover have "load_owned e pc = Inr r"
    using assms(6) r by (simp add: load_owned_def envInt_def slot_env_def Atoi_Itoa)
  ultimately obtain cfg where cfg: "LoadNode e = Inr cfg" "n_NodeID cfg = ids ! i" "n_PartitionCount cfg = pc"
    "n_Owned cfg = r" "n_MaxValueBytes cfg = mv" "n_MaxKeyBytes cfg = mk"
    using assms(1,6) by (simp add: LoadNode_def slot_env_def env_def)
  let ?c = "\<lparr>cfg_NodeID = ids ! i, cfg_PartitionCount = pc, cfg_Owned = r, MaxValueBytes = mv, MaxKeyBytes = mk\<rparr>"
  obtain kv where kv: "New pc = Inr kv" using assms(1) by (auto simp: New_def)
  then have "node_run e = Inr (NewService kv ?c)" using cfg by (simp add: node_run_def)
  moreover have "node_ok (NewService kv ?c)" "holds (NewService kv ?c) = Map.empty"
    using node_ok_New[of ?c kv] kv by simp_all
  ultimately show thesis using that r by (simp add: NewService_def)
qed

lemma startup_aux:
  assumes "proxy_run parseDuration penv = Some (Inr h)"
    "\<forall>i < length (NodeIDs (table h)). slot_env (NodeIDs (table h)) penv mv mk i (nenv i)"
  shows "(\<forall>i < length (NodeIDs (table h)). \<exists>s. node_run (nenv i) = Inr s) \<and>
    (\<forall>net. (\<forall>i < length (NodeIDs (table h)). \<exists>s. node_run (nenv i) = Inr s \<and> node_at h net (NodeIDs (table h) ! i) = Some s) \<longrightarrow>
       cluster_ok mv mk h net \<and> cluster_holds h net = Map.empty)"
proof -
  let ?ids = "NodeIDs (table h)" and ?pc = "tbl_partitionCount (table h)"
  note p = proxy_runD[OF assms(1)]
  have v: "ValidPartitionCount ?pc" "length ?ids < 2 ^ 63" using NewTable_table(5,6)[OF p(1)] by auto
  have start: "\<exists>s r. node_run (nenv i) = Inr s \<and> node_ok s \<and> holds s = Map.empty \<and>
      RangeFor (word_of_nat i) (word_of_nat (length ?ids)) ?pc = Inr r \<and>
      svc_cfg s = \<lparr>cfg_NodeID = ?ids ! i, cfg_PartitionCount = ?pc, cfg_Owned = r, MaxValueBytes = mv, MaxKeyBytes = mk\<rparr>"
    if "i < length ?ids" for i
    using slot_starts[OF v(1) p(6) that v(2) p(3), of mv mk "nenv i"] assms(2) that by metis
  have "cluster_ok mv mk h net \<and> cluster_holds h net = Map.empty"
    if net: "\<forall>i < length ?ids. \<exists>s. node_run (nenv i) = Inr s \<and> node_at h net (?ids ! i) = Some s" for net
  proof -
    have "slot_ok mv mk h net i" if "i < length ?ids" for i
      using net start[OF that] that by (fastforce simp: slot_ok_def)
    then have ok: "cluster_ok mv mk h net" using p by (simp add: cluster_ok_def)
    have "cluster_holds h net k = None" for k
    proof -
      obtain i where i: "i < length ?ids" "NodeFor (table h) k = Some (?ids ! i)" using responsible_node[OF ok, of k] by metis
      from start[OF i(1)] net i(1) obtain s where "node_at h net (?ids ! i) = Some s" "holds s = Map.empty" by force
      with i(2) show ?thesis by (simp add: cluster_holds_def)
    qed
    with ok show ?thesis by blast
  qed
  with start show ?thesis by blast
qed

text \<open>
  C15. Configuration is enough for consistency: when the proxy starts, every node whose environment
  names it, its slot and the proxy's partition count starts too, and such nodes, each reachable at
  the address the proxy was given for it, form a consistent, empty cluster. The two sides compute
  the ranges separately and cannot disagree.
\<close>

theorem startup_consistent:
  assumes "proxy_run parseDuration penv = Some (Inr h)"
    "\<forall>i < length (NodeIDs (table h)). slot_env (NodeIDs (table h)) penv mv mk i (nenv i)"
  shows "(\<forall>i < length (NodeIDs (table h)). \<exists>s. node_run (nenv i) = Inr s) \<and>
    (\<forall>net. (\<forall>i < length (NodeIDs (table h)). \<exists>s. node_run (nenv i) = Inr s \<and> node_at h net (NodeIDs (table h) ! i) = Some s) \<longrightarrow>
       cluster_ok mv mk h net \<and> cluster_holds h net = Map.empty)"
  by (rule startup_aux[OF assms])

definition sample_penv :: environment where
  "sample_penv = (\<lambda>_. [])(''NODES'' := ''n1=http://n1,n2=http://n2'')"

definition sample_nenv :: "nat \<Rightarrow> environment" where
  "sample_nenv i = (\<lambda>_. [])(''NODE_ID'' := [''n1'', ''n2''] ! i, ''NODE_INDEX'' := Itoa (word_of_nat i),
     ''NODE_COUNT'' := Itoa (word_of_nat 2))"

lemma sample_proxy:
  obtains h where "proxy_run (\<lambda>_. Inl []) sample_penv = Some (Inr h)" "NodeIDs (table h) = [''n1'', ''n2'']"
    "addresses (caller h) = [''n1'' \<mapsto> ''http://n1'', ''n2'' \<mapsto> ''http://n2'']"
proof -
  let ?es = "[(''n1'', ''http://n1''), (''n2'', ''http://n2'')]"
  have plain: "\<forall>e \<in> set ?es. plain_entry e" by (simp add: plain_entry_def plain_text_def graphic_def)
  have sp: "Split ''n1=http://n1,n2=http://n2'' CHR '','' = map entry_text ?es" by (simp add: entry_text_def)
  have ts: "TrimSpace ''n1=http://n1,n2=http://n2'' \<noteq> []"
    by (subst TrimSpace_id) (simp_all add: graphic_def)
  have "nodes_loop (map entry_text ?es) [] Map.empty = Inr ([] @ map fst ?es, Map.empty ++ map_of ?es)"
    using plain by (intro nodes_loop_entries) simp_all
  then have nl: "nodes_loop (Split ''n1=http://n1,n2=http://n2'' CHR '','') [] Map.empty =
      Inr ([''n1'', ''n2''], [''n1'' \<mapsto> ''http://n1'', ''n2'' \<mapsto> ''http://n2''])"
    unfolding sp by (simp add: fun_upd_twist)
  obtain cfg where cfg: "LoadProxy (\<lambda>_. Inl []) sample_penv = Inr cfg" "p_NodeIDs cfg = [''n1'', ''n2'']"
    "p_Addresses cfg = [''n1'' \<mapsto> ''http://n1'', ''n2'' \<mapsto> ''http://n2'']" "p_PartitionCount cfg = 1024"
    using nl ts by (simp add: LoadProxy_def sample_penv_def envInt_def load_timeout_def DefaultPartitionCount_def
        ValidPartitionCount_1024 del: Split.simps)
  obtain t where t: "NewTable [''n1'', ''n2''] 1024 = Some (Inr t)"
    using NewTable_Inr_iff[of "[''n1'', ''n2'']" 1024] ValidPartitionCount_1024 by auto
  from that cfg t NewTable_table(2)[OF t] show thesis by (simp add: proxy_run_def NodeIDs_def NewCaller_def)
qed

lemma sample_slots:
  assumes "i < length [''n1'', ''n2'']"
  shows "slot_env [''n1'', ''n2''] sample_penv 1048576 1024 i (sample_nenv i)"
  by (simp add: slot_env_def sample_nenv_def sample_penv_def envInt_def DefaultMaxValueBytes_def DefaultMaxKeyBytes_def)

theorem startup_consistent_witness:
  "\<exists>h. proxy_run (\<lambda>_. Inl []) sample_penv = Some (Inr h) \<and> NodeIDs (table h) = [''n1'', ''n2''] \<and>
     (\<forall>i < 2. \<exists>s. node_run (sample_nenv i) = Inr s)"
proof -
  obtain h where h: "proxy_run (\<lambda>_. Inl []) sample_penv = Some (Inr h)" "NodeIDs (table h) = [''n1'', ''n2'']"
    by (rule sample_proxy)
  have "\<forall>i < length (NodeIDs (table h)). slot_env (NodeIDs (table h)) sample_penv 1048576 1024 i (sample_nenv i)"
    unfolding h(2) using sample_slots by blast
  from startup_consistent[OF h(1) this] h show ?thesis by simp
qed

lemma node_run_New: "node_run getenv = Inr s \<Longrightarrow> New (cfg_PartitionCount (svc_cfg s)) = Inr (svc_store s)"
  by (auto simp: node_run_def NewService_def split: sum.splits)

lemma sample_cluster:
  obtains h net s1 where "cluster_ok 1048576 1024 h net" "stands_for 1048576 1024 h net s1"
    "cluster_holds h net = Map.empty" "NodeIDs (table h) = [''n1'', ''n2'']"
    "addresses (caller h) = [''n1'' \<mapsto> ''http://n1'', ''n2'' \<mapsto> ''http://n2'']"
    "tbl_partitionCount (table h) = 1024" "\<forall>base s. net base = Some s \<longrightarrow> New (cfg_PartitionCount (svc_cfg s)) = Inr (svc_store s)"
proof -
  obtain h where h: "proxy_run (\<lambda>_. Inl []) sample_penv = Some (Inr h)" "NodeIDs (table h) = [''n1'', ''n2'']"
    "addresses (caller h) = [''n1'' \<mapsto> ''http://n1'', ''n2'' \<mapsto> ''http://n2'']" by (rule sample_proxy)
  have slots: "\<forall>i < length (NodeIDs (table h)). slot_env (NodeIDs (table h)) sample_penv 1048576 1024 i (sample_nenv i)"
    unfolding h(2) using sample_slots by blast
  note st = startup_aux[OF h(1) slots]
  obtain a b where ab: "node_run (sample_nenv 0) = Inr a" "node_run (sample_nenv 1) = Inr b"
    using st h(2) by (metis length_Cons list.size(3) lessI zero_less_Suc One_nat_def)
  let ?net = "[''http://n1'' \<mapsto> a, ''http://n2'' \<mapsto> b]"
  have "\<exists>s. node_run (sample_nenv i) = Inr s \<and> node_at h ?net (NodeIDs (table h) ! i) = Some s"
    if "i < length (NodeIDs (table h))" for i
  proof -
    have "i = 0 \<or> i = 1" using that h(2) by auto
    then show ?thesis using ab h(2,3) by (auto simp: node_at_def)
  qed
  with st have ok: "cluster_ok 1048576 1024 h ?net" "cluster_holds h ?net = Map.empty" by blast+
  let ?pc = "tbl_partitionCount (table h)"
  have "ValidPartitionCount ?pc" using ok(1) NewTable_table(5) unfolding cluster_ok_def by blast
  then obtain kv where kv: "New ?pc = Inr kv" by (auto simp: New_def)
  let ?c = "\<lparr>cfg_NodeID = ''n'', cfg_PartitionCount = ?pc, cfg_Owned = \<lparr>Lo = 0, Hi = ?pc\<rparr>, MaxValueBytes = 1048576, MaxKeyBytes = 1024\<rparr>"
  have "node_ok (NewService kv ?c)" "holds (NewService kv ?c) = Map.empty" using node_ok_New[of ?c kv] kv by simp_all
  then have "stands_for 1048576 1024 h ?net (NewService kv ?c)" using ok(2) by (simp add: stands_for_def NewService_def)
  moreover have "tbl_partitionCount (table h) = 1024"
    using proxy_runD(6)[OF h(1)] by (simp add: envInt_def sample_penv_def DefaultPartitionCount_def)
  moreover have "\<forall>base s. ?net base = Some s \<longrightarrow> New (cfg_PartitionCount (svc_cfg s)) = Inr (svc_store s)"
    using ab[THEN node_run_New] by (simp split: if_splits)
  ultimately show thesis using that ok h(2,3) by blast
qed


section \<open>Listing the keys of a cluster\<close>

lemma list_route: "mux_find Routes ''GET'' ''/kv'' = MuxHandler H_listKeys []"
  by (simp add: mux_find_def Let_def cleanPath_def rooted_def mux_segments_def unescape_segment_def Routes_def)

lemma list_keys_lines:
  assumes "node_ok s"
  shows "l_out (list_keys (\<lambda>_. True) s) = key_lines (NodeID s) (all_keys (svc_store s))"
  using yield_list_line[of "NodeID s" "[]" 0 "all_keys (svc_store s)"]
  by (simp add: list_keys_def Service_Keys_def Keys_all_keys)

lemma node_listing:
  assumes "node_ok s" "addresses c nid = Some base" "net base = Some s" "caller_partitionCount c = cfg_PartitionCount (svc_cfg s)"
    "\<forall>k \<in> dom (holds s). fits (NodeID s) k"
  shows "streamNode (deliver isPrint (\<lambda>_. True)) net c nid =
     (net, map (\<lambda>k. object_text (keyLine k (NodeID s))) (all_keys (svc_store s)))"
proof -
  have chk: "checkPartitionCount s (list_request c) = None"
    using assms(4) by (intro checkPartitionCount_own) (simp add: list_request_def)
  have m: "Method (list_request c) = ''GET''" "EscapedPath (list_request c) = ''/kv''" "\<not> BodyBroken (list_request c)"
    by (simp_all add: list_request_def)
  have "ServeHTTP isPrint (\<lambda>_. True) s (list_request c) = Some (s, \<lparr>Status = 200, RespContentType = ''application/x-ndjson'',
      Allow = [], RespBody = key_lines (NodeID s) (all_keys (svc_store s))\<rparr>)"
    unfolding ServeHTTP_def m list_route by (simp add: dispatch_def listKeys_def chk list_keys_lines[OF assms(1)])
  moreover have "net(base \<mapsto> s) = net" using assms(3) by auto
  ultimately have "LocalKeys (deliver isPrint (\<lambda>_. True)) net c nid = (net, Inr (key_lines (NodeID s) (all_keys (svc_store s)), False))"
    using assms(2,3) m(3) by (simp add: LocalKeys_def deliver_def)
  then show ?thesis
    using assms(1,5) all_keys_set[of "svc_store s"] by (intro streamNode_lines) (simp_all add: node_ok_def)
qed

lemma stream_all_map:
  "\<forall>nid \<in> set ids. streamNode send net c nid = (net, L nid) \<Longrightarrow> stream_all send net c ids = (net, map L ids)"
  by (induction ids) simp_all

lemma held_key_is_routed:
  assumes "cluster_ok mv mk h net" "i < length (NodeIDs (table h))" "node_at h net (NodeIDs (table h) ! i) = Some s"
    "k \<in> dom (holds s)"
  shows "NodeFor (table h) k = Some (NodeIDs (table h) ! i)" "k \<in> dom (cluster_holds h net)"
proof -
  let ?ids = "NodeIDs (table h)" and ?pc = "tbl_partitionCount (table h)"
  have t: "NewTable ?ids ?pc = Some (Inr (table h))" and d: "distinct ?ids" using assms(1) by (simp_all add: cluster_ok_def)
  have "slot_ok mv mk h net i" using assms(1,2) by (simp add: cluster_ok_def)
  then obtain r where s: "node_ok s" "RangeFor (word_of_nat i) (word_of_nat (length ?ids)) ?pc = Inr r"
    "cfg_Owned (svc_cfg s) = r" "cfg_PartitionCount (svc_cfg s) = ?pc" using assms(3) by (auto simp: slot_ok_def)
  have "checkKey s k = None" using s(1) assms(4) by (simp add: node_ok_def accepts_def)
  then have "Contains r (Partition k ?pc)" using s by (auto simp: checkKey_def Let_def split: if_splits)
  moreover have "unat (Partition k ?pc) < unat ?pc" using Partition_less NewTable_table(5)[OF t] by blast
  ultimately show n: "NodeFor (table h) k = Some (?ids ! i)"
    using NodeForPartition_iff_Contains[OF t d assms(2) s(2)] NodeFor_is_NodeForPartition[OF t] by simp
  show "k \<in> dom (cluster_holds h net)" using n assms(3,4) by (auto simp: cluster_holds_def)
qed

text \<open>All keys of all nodes, node by node: every key the cluster holds, once.\<close>

definition cluster_keys :: "Handler \<Rightarrow> network \<Rightarrow> go_string list" where
  "cluster_keys h net = concat (map (\<lambda>nid. all_keys (svc_store (the (node_at h net nid)))) (NodeIDs (table h)))"

lemma slot_node:
  assumes "cluster_ok mv mk h net" "i < length (NodeIDs (table h))"
  obtains s where "node_at h net (NodeIDs (table h) ! i) = Some s" "node_ok s" "NodeID s = NodeIDs (table h) ! i"
    "cfg_PartitionCount (svc_cfg s) = tbl_partitionCount (table h)" "MaxKeyBytes (svc_cfg s) = mk"
    "set (all_keys (svc_store s)) = dom (holds s)" "distinct (all_keys (svc_store s))"
proof -
  have "slot_ok mv mk h net i" using assms by (simp add: cluster_ok_def)
  then obtain s r where s: "node_at h net (NodeIDs (table h) ! i) = Some s" "node_ok s"
    "svc_cfg s = \<lparr>cfg_NodeID = NodeIDs (table h) ! i, cfg_PartitionCount = tbl_partitionCount (table h),
                     cfg_Owned = r, MaxValueBytes = mv, MaxKeyBytes = mk\<rparr>" by (auto simp: slot_ok_def)
  then have "store_ok (svc_store s)" by (simp add: node_ok_def)
  from that s all_keys_set[OF this] all_keys_distinct[OF this] show thesis by (simp add: NodeID_def)
qed

lemma cluster_keys_complete:
  assumes "cluster_ok mv mk h net"
  shows "set (cluster_keys h net) = dom (cluster_holds h net)" "distinct (cluster_keys h net)"
proof -
  let ?ids = "NodeIDs (table h)"
  let ?kss = "map (\<lambda>nid. all_keys (svc_store (the (node_at h net nid)))) ?ids"
  have d: "distinct ?ids" using assms by (simp add: cluster_ok_def)
  have ks: "distinct (?kss ! i) \<and> (\<forall>k \<in> set (?kss ! i). NodeFor (table h) k = Some (?ids ! i) \<and> k \<in> dom (cluster_holds h net))"
    if i: "i < length ?ids" for i
  proof -
    obtain s where s: "node_at h net (?ids ! i) = Some s" "set (all_keys (svc_store s)) = dom (holds s)"
      "distinct (all_keys (svc_store s))" by (rule slot_node[OF assms i])
    then show ?thesis using held_key_is_routed[OF assms i s(1)] i by simp
  qed
  have "distinct (concat ?kss)"
  proof (rule distinct_concat_owned[OF d, where owner = "\<lambda>k. the (NodeFor (table h) k)"])
    show "\<forall>nid \<in> set ?ids. distinct (all_keys (svc_store (the (node_at h net nid)))) \<and>
        (\<forall>k \<in> set (all_keys (svc_store (the (node_at h net nid)))). the (NodeFor (table h) k) = nid)"
      using ks by (auto simp: in_set_conv_nth[of _ ?ids])
  qed
  then show "distinct (cluster_keys h net)" by (simp add: cluster_keys_def)
  show "set (cluster_keys h net) = dom (cluster_holds h net)"
  proof (intro set_eqI iffI)
    fix k assume "k \<in> set (cluster_keys h net)"
    then obtain ks' where "ks' \<in> set ?kss" "k \<in> set ks'" by (auto simp: cluster_keys_def)
    moreover obtain i where "i < length ?kss" "?kss ! i = ks'" using calculation(1) unfolding in_set_conv_nth by blast
    ultimately have "i < length ?ids" "k \<in> set (?kss ! i)" by (simp_all only: length_map)
    then show "k \<in> dom (cluster_holds h net)" using ks by blast
  next
    fix k assume k: "k \<in> dom (cluster_holds h net)"
    obtain i where i: "i < length ?ids" "NodeFor (table h) k = Some (?ids ! i)" using responsible_node[OF assms, of k] by metis
    obtain s where s: "node_at h net (?ids ! i) = Some s" "set (all_keys (svc_store s)) = dom (holds s)" by (rule slot_node[OF assms i(1)])
    have "k \<in> set (?kss ! i)" using k i s by (auto simp: cluster_holds_def)
    moreover have "?kss ! i \<in> set ?kss" using i(1) by (metis length_map nth_mem)
    ultimately show "k \<in> set (cluster_keys h net)" unfolding cluster_keys_def set_concat by blast
  qed
qed

text \<open>What the goroutine of one node of a consistent cluster writes.\<close>

lemma cluster_node_lines:
  assumes "cluster_ok mv mk h net" "\<forall>nid \<in> set (NodeIDs (table h)). \<forall>k \<in> dom (cluster_holds h net). fits nid k"
    "nid \<in> set (NodeIDs (table h))"
  shows "streamNode (deliver isPrint (\<lambda>_. True)) net (caller h) nid =
     (net, map (\<lambda>k. object_text (keyLine k (the (NodeFor (table h) k)))) (all_keys (svc_store (the (node_at h net nid)))))"
proof -
  let ?ids = "NodeIDs (table h)"
  obtain i where i: "i < length ?ids" "nid = ?ids ! i" using assms(3) by (metis in_set_conv_nth)
  obtain s where s: "node_at h net (?ids ! i) = Some s" "node_ok s" "NodeID s = ?ids ! i"
    "cfg_PartitionCount (svc_cfg s) = tbl_partitionCount (table h)" "set (all_keys (svc_store s)) = dom (holds s)"
    by (rule slot_node[OF assms(1) i(1)])
  then obtain base where b: "addresses (caller h) nid = Some base" "net base = Some s"
    unfolding i(2) by (auto simp: node_at_def bind_eq_Some_conv)
  note routed = held_key_is_routed[OF assms(1) i(1) s(1)]
  have "\<forall>k \<in> dom (holds s). fits (NodeID s) k" using routed(2) assms(2,3) s(3) i(2) by simp
  moreover have "caller_partitionCount (caller h) = cfg_PartitionCount (svc_cfg s)"
    using assms(1) s(4) by (simp add: cluster_ok_def)
  ultimately have "streamNode (deliver isPrint (\<lambda>_. True)) net (caller h) nid =
      (net, map (\<lambda>k. object_text (keyLine k nid)) (all_keys (svc_store s)))"
    using node_listing[of s "caller h" nid base net isPrint] s b i(2) by simp
  moreover have "map (\<lambda>k. object_text (keyLine k nid)) (all_keys (svc_store s)) =
      map (\<lambda>k. object_text (keyLine k (the (NodeFor (table h) k)))) (all_keys (svc_store s))"
    using routed(1) s(5) i(2) by (intro map_cong) simp_all
  ultimately show ?thesis using s(1) i(2) by simp
qed

lemma proxy_listing_lines:
  assumes "proxy_listing send net h resp" "snd (stream_all send net (caller h) (NodeIDs (table h))) = qs" "concat qs = map line ks"
  shows "Status resp = 200 \<and> (\<exists>ls. RespBody resp = lines_text ls \<and> mset ls = image_mset line (mset ks))"
proof -
  obtain ls where m: "merges qs ls"
    and r: "resp = \<lparr>Status = 200, RespContentType = ''application/x-ndjson'', Allow = [], RespBody = lines_text ls\<rparr>"
    using assms(1,2) by (auto simp: proxy_listing_def)
  from merges_mset[OF m] have "mset ls = image_mset line (mset ks)" unfolding assms(3) mset_map .
  with r show ?thesis by auto
qed

lemma proxy_listing_total: "\<exists>resp. proxy_listing send net h resp"
  unfolding proxy_listing_def using merges_total by blast

text \<open>
  C22. The listing of a consistent cluster: a request is always answered, with status 200, and
  whatever the order in which the goroutines write, the body is one whole line per key the cluster
  holds, each key once, naming the node responsible for it. Listing changes nothing. The bound says
  that a line of the longest key still fits the scanner's buffer of one megabyte.
\<close>

theorem cluster_listing:
  assumes "cluster_ok mv mk h net" "\<forall>nid \<in> set (NodeIDs (table h)). \<forall>k \<in> dom (cluster_holds h net). fits nid k"
  shows "\<exists>ks. distinct ks \<and> set ks = dom (cluster_holds h net) \<and>
     fst (stream_all (deliver isPrint (\<lambda>_. True)) net (caller h) (NodeIDs (table h))) = net \<and>
     (\<exists>resp. proxy_listing (deliver isPrint (\<lambda>_. True)) net h resp) \<and>
     (\<forall>resp. proxy_listing (deliver isPrint (\<lambda>_. True)) net h resp \<longrightarrow> Status resp = 200 \<and>
        (\<exists>ls. RespBody resp = lines_text ls \<and>
              mset ls = image_mset (\<lambda>k. object_text (keyLine k (the (NodeFor (table h) k)))) (mset ks)))"
proof -
  let ?send = "deliver isPrint (\<lambda>_. True)" and ?ids = "NodeIDs (table h)"
  let ?line = "\<lambda>k. object_text (keyLine k (the (NodeFor (table h) k)))"
  let ?keys = "\<lambda>nid. all_keys (svc_store (the (node_at h net nid)))"
  have "streamNode ?send net (caller h) nid = (net, map ?line (?keys nid))" if "nid \<in> set ?ids" for nid
    by (rule cluster_node_lines[OF assms that])
  then have all: "stream_all ?send net (caller h) ?ids = (net, map (\<lambda>nid. map ?line (?keys nid)) ?ids)"
    by (intro stream_all_map) simp
  have keys: "concat (map (\<lambda>nid. map ?line (?keys nid)) ?ids) = map ?line (cluster_keys h net)"
    by (simp add: cluster_keys_def map_concat comp_def)
  have "Status resp = 200 \<and> (\<exists>ls. RespBody resp = lines_text ls \<and> mset ls = image_mset ?line (mset (cluster_keys h net)))"
    if "proxy_listing ?send net h resp" for resp
    using proxy_listing_lines[OF that _ keys] all by simp
  with cluster_keys_complete[OF assms(1)] proxy_listing_total[of ?send net h] show ?thesis unfolding all fst_conv by blast
qed

lemma sample_cluster_k:
  obtains h net where "cluster_ok 1048576 1024 h net" "cluster_holds h net = [''k'' \<mapsto> \<lparr>Value = ''1'', Version = 1\<rparr>]"
    "NodeIDs (table h) = [''n1'', ''n2'']" "addresses (caller h) = [''n1'' \<mapsto> ''http://n1'', ''n2'' \<mapsto> ''http://n2'']"
proof -
  obtain h net s1 where c: "cluster_ok 1048576 1024 h net" "cluster_holds h net = Map.empty"
    "NodeIDs (table h) = [''n1'', ''n2'']" "addresses (caller h) = [''n1'' \<mapsto> ''http://n1'', ''n2'' \<mapsto> ''http://n2'']"
    by (rule sample_cluster)
  obtain i base s where s: "i < length (NodeIDs (table h))" "NodeFor (table h) ''k'' = Some (NodeIDs (table h) ! i)"
    "addresses (caller h) (NodeIDs (table h) ! i) = Some base" "net base = Some s" "node_ok s"
    "cfg_PartitionCount (svc_cfg s) = tbl_partitionCount (table h)"
    "Contains (cfg_Owned (svc_cfg s)) (Partition ''k'' (tbl_partitionCount (table h)))"
    "MaxValueBytes (svc_cfg s) = 1048576" "MaxKeyBytes (svc_cfg s) = 1024" by (rule responsible_node[OF c(1)])
  let ?req = "write_request ModeReplace ''k'' ''1'' (None, False)"
  have "holds s ''k'' = cluster_holds h net ''k''" using s(2-4) by (simp add: cluster_holds_def node_at_def)
  moreover have "checkKey s ''k'' = None" using s by (simp add: checkKey_def Let_def)
  moreover have "Valid ''1''" by (simp add: json_eval)
  ultimately have w: "fst (spec_service_write s ?req) ''k'' = Some \<lparr>Value = ''1'', Version = 1\<rparr>"
    using s(8) c(2) by (simp add: spec_service_write_def spec_write_def guard_ok_def apply_write_def store_op_def)
  obtain s' where s': "node_ok s'" "holds s' = fst (spec_service_write s ?req)" "svc_cfg s' = svc_cfg s"
    using Service_Write_spec[OF s(5), of ?req] by blast
  then have ev: "evolves ''k'' s s'" using spec_service_write_other[of _ ?req s] by (simp add: evolves_def)
  show thesis using that slot_ok_update[OF c(1) s(1,3,4) ev] cluster_holds_update[OF c(1) s(2,3,4) ev] s'(2) w c by simp
qed

theorem cluster_listing_witness:
  "\<exists>h net resp. cluster_ok 1048576 1024 h net \<and>
     cluster_holds h net = [''k'' \<mapsto> \<lparr>Value = ''1'', Version = 1\<rparr>] \<and>
     proxy_listing (deliver (\<lambda>_. True) (\<lambda>_. True)) net h resp \<and> Status resp = 200 \<and>
     RespBody resp = object_text (keyLine ''k'' (the (NodeFor (table h) ''k''))) @ [CHR 0x0A]"
proof -
  obtain h net where s: "cluster_ok 1048576 1024 h net" "cluster_holds h net = [''k'' \<mapsto> \<lparr>Value = ''1'', Version = 1\<rparr>]"
    "NodeIDs (table h) = [''n1'', ''n2'']" by (rule sample_cluster_k)
  have "\<forall>nid \<in> set (NodeIDs (table h)). \<forall>k \<in> dom (cluster_holds h net). fits nid k"
    by (simp add: s fits_def maxTokenSize_def)
  from cluster_listing[OF s(1) this, of "\<lambda>_. True"] s(2)
  obtain ks resp ls where ks: "distinct ks" "set ks = {''k''}"
    and resp: "proxy_listing (deliver (\<lambda>_. True) (\<lambda>_. True)) net h resp" "Status resp = 200" "RespBody resp = lines_text ls"
      "mset ls = image_mset (\<lambda>k. object_text (keyLine k (the (NodeFor (table h) k)))) (mset ks)" by auto
  from ks have "ks = [''k'']" by (cases ks; cases "tl ks") auto
  with resp(4) have "ls = [object_text (keyLine ''k'' (the (NodeFor (table h) ''k'')))]" by simp
  with resp s show ?thesis by (auto simp: lines_text_def)
qed

section \<open>Nodes that do not answer\<close>

text \<open>The network when the addresses in \<open>D\<close> do not answer, and the nodes this concerns.\<close>

definition outage :: "network \<Rightarrow> go_string set \<Rightarrow> network" where
  "outage net D = net |` (- D)"

definition node_down :: "Handler \<Rightarrow> go_string set \<Rightarrow> go_string \<Rightarrow> bool" where
  "node_down h D nid \<longleftrightarrow> (case addresses (caller h) nid of None \<Rightarrow> True | Some base \<Rightarrow> base \<in> D)"

lemma deliver_outage:
  "base \<in> D \<Longrightarrow> deliver isPrint conn (outage net D) base r = (outage net D, Inl ''connection refused'')"
  "base \<notin> D \<Longrightarrow> deliver isPrint conn (outage net D) base r =
     (case deliver isPrint conn net base r of (net', res) \<Rightarrow> (outage net' D, res))"
  by (auto simp: deliver_def outage_def split: option.splits prod.splits)

lemma route_outage:
  assumes "NodeFor (table h) key = Some nid"
  shows "node_down h D nid \<Longrightarrow> route (deliver isPrint conn) (outage net D) h r key =
      Some (outage net D, proxy_error 503 (''node '' @ nid @ '' unreachable'') key)"
    "\<not> node_down h D nid \<Longrightarrow> route (deliver isPrint conn) (outage net D) h r key =
      map_option (\<lambda>(net', resp). (outage net' D, resp)) (route (deliver isPrint conn) net h r key)"
  using assms
  by (auto simp: route_def Forward_def node_down_def deliver_outage split: option.splits prod.splits sum.splits)

lemma route_broken:
  assumes "NodeFor (table h) key = Some nid" "BodyBroken r"
  shows "route (deliver isPrint conn) net h r key = Some (net, proxy_error 503 (''node '' @ nid @ '' unreachable'') key)"
  using assms by (auto simp: route_def Forward_def deliver_def outbound_def split: option.splits)


lemma streamNode_outage:
  "node_down h D nid \<Longrightarrow> streamNode (deliver isPrint conn) (outage net D) (caller h) nid =
     (outage net D, [errorLine (''node '' @ nid @ '' unreachable'')])"
  "\<not> node_down h D nid \<Longrightarrow> streamNode (deliver isPrint conn) net (caller h) nid = (net, ls) \<Longrightarrow>
     streamNode (deliver isPrint conn) (outage net D) (caller h) nid = (outage net D, ls)"
  by (auto simp: streamNode_def LocalKeys_def node_down_def deliver_outage split: option.splits prod.splits sum.splits if_splits)

lemma mset_concat_down:
  "\<forall>n \<in> set ids. \<forall>k \<in> set (keys n). owner k = n \<Longrightarrow>
   mset (concat (map (\<lambda>n. if dn n then [err n] else map line (keys n)) ids)) =
   image_mset err (mset (filter dn ids)) + image_mset line (mset (filter (\<lambda>k. \<not> dn (owner k)) (concat (map keys ids))))"
proof (induction ids)
  case (Cons n ids)
  then have "filter (\<lambda>k. \<not> dn (owner k)) (keys n) = (if dn n then [] else keys n)"
    by (auto simp: filter_empty_conv intro: filter_True)
  then show ?case using Cons by simp
qed simp

lemma cluster_key_owner:
  assumes "cluster_ok mv mk h net"
  shows "\<forall>nid \<in> set (NodeIDs (table h)). \<forall>k \<in> set (all_keys (svc_store (the (node_at h net nid)))). the (NodeFor (table h) k) = nid"
proof (intro ballI)
  fix nid k assume "nid \<in> set (NodeIDs (table h))" and k: "k \<in> set (all_keys (svc_store (the (node_at h net nid))))"
  then obtain i where i: "i < length (NodeIDs (table h))" "nid = NodeIDs (table h) ! i" by (metis in_set_conv_nth)
  obtain s where "node_at h net (NodeIDs (table h) ! i) = Some s" "set (all_keys (svc_store s)) = dom (holds s)"
    by (rule slot_node[OF assms i(1)])
  then show "the (NodeFor (table h) k) = nid" using held_key_is_routed(1)[OF assms i(1), of s k] k i(2) by simp
qed

text \<open>
  C24. A partial listing says so: while some nodes are down, every response lists each key of the live
  nodes once and holds, for every node that is down, the line that names it as unreachable; a
  client can tell the list is incomplete.
\<close>

theorem listing_reports_outage:
  assumes "cluster_ok mv mk h net" "\<forall>nid \<in> set (NodeIDs (table h)). \<forall>k \<in> dom (cluster_holds h net). fits nid k"
    "proxy_listing (deliver isPrint (\<lambda>_. True)) (outage net D) h resp"
  shows "\<exists>ls ks. RespBody resp = lines_text ls \<and> distinct ks \<and>
     set ks = {k \<in> dom (cluster_holds h net). \<not> node_down h D (the (NodeFor (table h) k))} \<and>
     mset ls = image_mset (\<lambda>nid. errorLine (''node '' @ nid @ '' unreachable'')) (mset (filter (node_down h D) (NodeIDs (table h)))) +
               image_mset (\<lambda>k. object_text (keyLine k (the (NodeFor (table h) k)))) (mset ks)"
proof -
  let ?send = "deliver isPrint (\<lambda>_. True)" and ?ids = "NodeIDs (table h)"
  let ?err = "\<lambda>nid. errorLine (''node '' @ nid @ '' unreachable'')" and ?owner = "\<lambda>k. the (NodeFor (table h) k)"
  let ?line = "\<lambda>k. object_text (keyLine k (?owner k))"
  let ?keys = "\<lambda>nid. all_keys (svc_store (the (node_at h net nid)))"
  let ?out = "\<lambda>nid. if node_down h D nid then [?err nid] else map ?line (?keys nid)"
  have "\<forall>nid \<in> set ?ids. streamNode ?send (outage net D) (caller h) nid = (outage net D, ?out nid)"
    using streamNode_outage cluster_node_lines[OF assms(1,2)] by simp
  from stream_all_map[OF this] obtain ls where m: "merges (map ?out ?ids) ls"
    and r: "resp = \<lparr>Status = 200, RespContentType = ''application/x-ndjson'', Allow = [], RespBody = lines_text ls\<rparr>"
    using assms(3) unfolding proxy_listing_def by auto
  have "\<forall>nid \<in> set ?ids. \<forall>k \<in> set (?keys nid). ?owner k = nid" by (rule cluster_key_owner[OF assms(1)])
  from mset_concat_down[OF this, of "node_down h D" ?err ?line] merges_mset[OF m]
  have "mset ls = image_mset ?err (mset (filter (node_down h D) ?ids)) +
      image_mset ?line (mset (filter (\<lambda>k. \<not> node_down h D (?owner k)) (cluster_keys h net)))" by (simp only: cluster_keys_def)
  then show ?thesis using r cluster_keys_complete[OF assms(1)]
    by (intro exI[of _ ls] exI[of _ "filter (\<lambda>k. \<not> node_down h D (?owner k)) (cluster_keys h net)"]) auto
qed


theorem listing_reports_outage_witness:
  "\<exists>h net resp. cluster_ok 1048576 1024 h net \<and>
     proxy_listing (deliver (\<lambda>_. True) (\<lambda>_. True)) (outage net {''http://n2''}) h resp \<and>
     (\<exists>ls. RespBody resp = lines_text ls \<and> errorLine ''node n2 unreachable'' \<in> set ls)"
proof -
  let ?D = "{''http://n2''}"
  obtain h net where s: "cluster_ok 1048576 1024 h net" "cluster_holds h net = [''k'' \<mapsto> \<lparr>Value = ''1'', Version = 1\<rparr>]"
    "NodeIDs (table h) = [''n1'', ''n2'']" "addresses (caller h) = [''n1'' \<mapsto> ''http://n1'', ''n2'' \<mapsto> ''http://n2'']"
    by (rule sample_cluster_k)
  have fits: "\<forall>nid \<in> set (NodeIDs (table h)). \<forall>k \<in> dom (cluster_holds h net). fits nid k"
    by (simp add: s fits_def maxTokenSize_def)
  obtain resp where resp: "proxy_listing (deliver (\<lambda>_. True) (\<lambda>_. True)) (outage net ?D) h resp"
    using proxy_listing_total[of "deliver (\<lambda>_. True) (\<lambda>_. True)" "outage net ?D" h] by blast
  have dn: "filter (node_down h ?D) (NodeIDs (table h)) = [''n2'']" by (simp add: s node_down_def)
  from listing_reports_outage[OF s(1) fits resp] obtain ls ks where ls: "RespBody resp = lines_text ls"
    "mset ls = image_mset (\<lambda>nid. errorLine (''node '' @ nid @ '' unreachable'')) (mset [''n2'']) +
               image_mset (\<lambda>k. object_text (keyLine k (the (NodeFor (table h) k)))) (mset ks)"
    unfolding dn by blast
  have "errorLine ''node n2 unreachable'' \<in># mset ls" unfolding ls(2) by simp
  with ls(1) resp s(1) show ?thesis by (auto simp: set_mset_mset)
qed

end
