(* ===== verification/Cluster_Retry.thy ===== *)
theory Cluster_Retry
  imports Node_Concurrent Cluster
begin

text \<open>
  Requests whose answer is lost: the node served the request, but the proxy's client gave up waiting
  (\<open>Caller.Forward\<close> in \<open>src/internal/proxy/nodecaller.go\<close> with its timeout) and the proxy answers 503.
  The client cannot know whether its write was done. With a guard it may send the request again
  (\<open>guarded_retry_idempotent\<close>).
\<close>

section \<open>Answers that are lost\<close>

text \<open>The network brings the request to the node, but the answer does not come back in time.\<close>

definition lose :: "(nat \<Rightarrow> bool) \<Rightarrow> (nat \<Rightarrow> bool) \<Rightarrow> network transport" where
  "lose isPrint conn net base r = (fst (deliver isPrint conn net base r), Inl ''timeout'')"

lemma route_lose:
  assumes "NodeFor (table h) key = Some nid" "route (deliver isPrint conn) net h r key = Some (net1, resp)"
  shows "route (lose isPrint conn) net h r key = Some (net1, proxy_error 503 (''node '' @ nid @ '' unreachable'') key)"
  using assms by (auto simp: route_def Forward_def lose_def split: option.splits prod.splits sum.splits)

section \<open>A guarded write, twice\<close>

lemma guarded_spec_write_twice:
  assumes "IfVersion opn \<noteq> None \<or> IfAbsent opn" "snd (spec_write m opn) = Inr e"
  obtains mm where "spec_write (fst (spec_write m opn)) opn = (fst (spec_write m opn), Inl (VersionMismatch mm))"
  using assms
  by (auto simp: spec_write_def guard_ok_def apply_write_def version_of_def split: if_splits)

lemma guarded_service_write_twice:
  assumes "wr_IfVersion req \<noteq> None \<or> wr_IfAbsent req" "snd (spec_service_write s req) = Inr res"
    "svc_cfg s1 = svc_cfg s" "holds s1 = fst (spec_service_write s req)"
  obtains mm where "spec_service_write s1 req = (holds s1, Inl (StoreFailed (VersionMismatch mm)))"
proof -
  let ?opn = "store_op req"
  have ok: "checkKey s (wr_Key req) = None" "\<not> sint (MaxValueBytes (svc_cfg s)) < int (length (wr_Body req))" "Valid (wr_Body req)"
    "is_ok (as_result (wr_Key req) (snd (spec_write (holds s) ?opn)))"
    using assms(2) by (auto simp: spec_service_write_def split: option.splits if_splits)
  from ok(4) obtain e where "snd (spec_write (holds s) ?opn) = Inr e" by (auto simp: as_result_def split: sum.splits)
  moreover have "IfVersion ?opn \<noteq> None \<or> IfAbsent ?opn" using assms(1) by (simp add: store_op_def)
  ultimately obtain mm where "spec_write (fst (spec_write (holds s) ?opn)) ?opn = (fst (spec_write (holds s) ?opn), Inl (VersionMismatch mm))"
    using guarded_spec_write_twice by blast
  moreover have "holds s1 = fst (spec_write (holds s) ?opn)" using assms(4) ok(1-3) by (simp add: spec_service_write_def)
  ultimately show thesis
    using that ok(1-3) assms(3) checkKey_cfg[OF assms(3), of "wr_Key req"] by (simp add: spec_service_write_def as_result_def)
qed

lemma spec_service_write_same:
  "svc_cfg t = svc_cfg s \<Longrightarrow> holds t = holds s \<Longrightarrow> spec_service_write t req = spec_service_write s req"
  unfolding spec_service_write_def using checkKey_cfg[of t s "wr_Key req"] by presburger

lemma guarded_write_twice:
  assumes "node_ok s" "checkPartitionCount s r = None" "parseGuards r = Inr g" "fst g \<noteq> None \<or> snd g"
    "write_handler isPrint mode s r key = Some (s1, resp)"
  obtains s2 resp2 where "write_handler isPrint mode s1 r key = Some (s2, resp2)" "holds s2 = holds s1"
    "if Status resp = 200 then Status resp2 = 409 else resp2 = resp \<and> holds s1 = holds s"
proof (cases "write_decoded s r key")
  case (Inl rej)
  then have "s1 = s" "resp = rej" "Status resp \<noteq> 200"
    using assms(5) write_decoded_Status[OF Inl] by (auto simp: write_handler_decoded)
  with that assms(5) show thesis by simp
next
  case (Inr bg)
  obtain body where bg: "bg = (body, g)"
    using Inr assms(3) by (auto simp: write_decoded_def split: option.splits sum.splits body_error.splits)
  let ?req = "write_request mode key body g"
  have g: "wr_IfVersion ?req \<noteq> None \<or> wr_IfAbsent ?req" using assms(4) by (simp add: write_request_def)
  obtain s' where s': "Service_Write s ?req = Some (s', snd (spec_service_write s ?req))" "node_ok s'"
    "holds s' = fst (spec_service_write s ?req)" "svc_cfg s' = svc_cfg s" using Service_Write_spec[OF assms(1)] by blast
  with assms(5) Inr bg have s1: "s1 = s'" and resp: "resp = respond isPrint key (snd (spec_service_write s ?req))"
    by (simp_all add: write_handler_decoded)
  obtain s2 where s2: "Service_Write s1 ?req = Some (s2, snd (spec_service_write s1 ?req))"
    "holds s2 = fst (spec_service_write s1 ?req)" using Service_Write_spec[OF s'(2)] s1 by blast
  have w2: "write_handler isPrint mode s1 r key = Some (s2, respond isPrint key (snd (spec_service_write s1 ?req)))"
    using s2(1) Inr bg s1 write_decoded_cfg[OF s'(4)] by (simp add: write_handler_decoded)
  show thesis
  proof (cases "snd (spec_service_write s ?req)")
    case Inl': (Inl err)
    then have same: "holds s1 = holds s" using s'(3) s1 spec_service_write_error by simp
    have "spec_service_write s1 ?req = spec_service_write s ?req"
      using spec_service_write_same[OF s'(4)] same s1 by simp
    then show thesis using that[OF w2] s2(2) s'(3) s1 same Inl' resp Status_respond[of isPrint key "Inl err"] by simp
  next
    case Inr': (Inr res)
    from guarded_service_write_twice[OF g Inr', of s1] s' s1 obtain mm
      where "spec_service_write s1 ?req = (holds s1, Inl (StoreFailed (VersionMismatch mm)))" by auto
    then show thesis
      using that[OF w2] s2(2) Inr' resp Status_respond[of isPrint key "Inr res"] by (simp add: respond_def writeError_def)
  qed
qed

section \<open>Sending it again\<close>

text \<open>A guarded write of the key, as a client sends it to the proxy.\<close>

definition guarded_write :: "go_string \<Rightarrow> Request \<Rightarrow> bool" where
  "guarded_write key r \<longleftrightarrow> key \<noteq> [] \<and> key \<noteq> ''/'' \<and> EscapedPath r = key_path key \<and> \<not> BodyBroken r \<and>
     (Method r = ''PUT'' \<or> Method r = ''PATCH'') \<and>
     (\<exists>v a. parseGuards r = Inr (v, a) \<and> (v \<noteq> None \<or> a))"

lemma guarded_write_key_request: "guarded_write key r \<Longrightarrow> key_method (Method r)"
  by (auto simp: guarded_write_def key_method_def)

lemma guarded_key_handler_twice:
  assumes "node_ok s" "checkPartitionCount s r = None" "guarded_write key r" "key_handler isPrint s r key = Some (s1, resp)"
  obtains s2 resp2 where "key_handler isPrint s1 r key = Some (s2, resp2)" "holds s2 = holds s1"
    "if Status resp = 200 then Status resp2 = 409 else resp2 = resp \<and> holds s1 = holds s"
proof -
  obtain g where g: "parseGuards r = Inr g" "fst g \<noteq> None \<or> snd g" using assms(3) by (auto simp: guarded_write_def)
  obtain mode where mode: "\<And>t. key_handler isPrint t r key = write_handler isPrint mode t r key"
    using assms(3) by (auto simp: key_handler_def guarded_write_def)
  from guarded_write_twice[OF assms(1,2) g, of isPrint mode key s1 resp] that assms(4) show thesis
    unfolding mode by metis
qed

lemma guarded_write_outbound: "guarded_write key r \<Longrightarrow> guarded_write key (outbound c r)"
proof -
  have q: "RawQuery (outbound c r) = RawQuery r" by (simp add: outbound_def)
  have "parseGuards (outbound c r) = parseGuards r" unfolding parseGuards_def q ..
  then show "guarded_write key r \<Longrightarrow> guarded_write key (outbound c r)" by (simp add: guarded_write_def) (simp add: outbound_def)
qed

text \<open>One request for a key, at the node responsible for it.\<close>

lemma route_at_node:
  assumes "cluster_ok mv mk h net" "guarded_write key r" "i < length (NodeIDs (table h))"
    "NodeFor (table h) key = Some (NodeIDs (table h) ! i)" "addresses (caller h) (NodeIDs (table h) ! i) = Some base"
    "net base = Some s" "node_ok s" "cfg_PartitionCount (svc_cfg s) = tbl_partitionCount (table h)"
  obtains s' resp where "checkPartitionCount s (outbound (caller h) r) = None"
    "key_handler isPrint s (outbound (caller h) r) key = Some (s', resp)" "evolves key s s'"
    "route (deliver isPrint conn) net h r key = Some (net(base \<mapsto> s'), resp)" "cluster_ok mv mk h (net(base \<mapsto> s'))"
    "cluster_holds h (net(base \<mapsto> s')) = (cluster_holds h net)(key := holds s' key)"
proof -
  let ?r = "outbound (caller h) r"
  have key: "key \<noteq> []" "key \<noteq> ''/''" "EscapedPath r = key_path key" using assms(2) by (simp_all add: guarded_write_def)
  have "caller_partitionCount (caller h) = tbl_partitionCount (table h)" using assms(1) by (simp add: cluster_ok_def)
  then have chk: "checkPartitionCount s ?r = None" using assms(8) by (intro checkPartitionCount_own) (simp add: outbound_def)
  have "same_request ?r ?r" "agree_on key s s" by (simp_all add: same_request_def agree_on_def)
  from key_handler_local[OF assms(7,7) chk chk this] obtain s' resp where
    k: "key_handler isPrint s ?r key = Some (s', resp)" "evolves key s s'" "Allow resp = []" by metis
  have "ServeHTTP isPrint conn s ?r = Some (s', resp)"
    using k(1) ServeHTTP_key[of key ?r] key guarded_write_key_request[OF assms(2)] by (simp add: outbound_def)
  then have "route (deliver isPrint conn) net h r key = Some (net(base \<mapsto> s'), resp)"
    using assms(2,4-6) k(3) by (simp add: route_def Forward_def deliver_def outbound_def guarded_write_def)
  with that chk k(1,2) slot_ok_update[OF assms(1,3,5,6) k(2)] cluster_holds_update[OF assms(1,4,5,6) k(2)]
  show thesis by blast
qed


lemma sample_created:
  assumes "cluster_ok 1048576 1024 h net" "cluster_holds h net = Map.empty" "guarded_write ''k'' sample_put"
  obtains net1 resp where "proxy_serves (deliver isPrint conn) h net sample_put net1 resp" "Status resp = 200"
proof -
  let ?r = "outbound (caller h) sample_put"
  let ?req = "write_request ModeReplace ''k'' ''1'' (None, True)"
  obtain i base s where s: "i < length (NodeIDs (table h))" "NodeFor (table h) ''k'' = Some (NodeIDs (table h) ! i)"
    "addresses (caller h) (NodeIDs (table h) ! i) = Some base" "net base = Some s" "node_ok s"
    "cfg_PartitionCount (svc_cfg s) = tbl_partitionCount (table h)"
    and o: "Contains (cfg_Owned (svc_cfg s)) (Partition ''k'' (tbl_partitionCount (table h)))"
    "MaxValueBytes (svc_cfg s) = 1048576" "MaxKeyBytes (svc_cfg s) = 1024" by (rule responsible_node[OF assms(1)])
  obtain s' resp where r: "checkPartitionCount s ?r = None" "key_handler isPrint s ?r ''k'' = Some (s', resp)"
    "route (deliver isPrint conn) net h sample_put ''k'' = Some (net(base \<mapsto> s'), resp)"
    by (rule route_at_node[OF assms(1,3) s, of isPrint conn])
  have "write_decoded s ?r ''k'' = Inr (''1'', None, True)"
    using o(2) r(1) by (simp add: write_decoded_def outbound_def sample_put_def parseGuards_if_absent read_body_def)
  then have "resp = respond isPrint ''k'' (snd (spec_service_write s ?req))"
    using r(2) Service_Write_spec[OF s(5), of ?req]
    by (auto simp: key_handler_def outbound_def sample_put_def write_handler_decoded)
  moreover have "checkKey s ''k'' = None" using s o by (simp add: checkKey_def Let_def)
  moreover have "holds s ''k'' = None" using assms(2) s(2-4) by (auto simp: cluster_holds_def node_at_def fun_eq_iff dest: spec[of _ "''k''"])
  moreover have "Valid ''1''" by (simp add: json_eval)
  ultimately have "Status resp = 200"
    using o(2) Status_respond by (simp add: spec_service_write_def spec_write_def guard_ok_def as_result_def store_op_def write_request_def)
  moreover have "proxy_serves (deliver isPrint conn) h net sample_put (net(base \<mapsto> s')) resp"
    using r(3) by (subst proxy_serves_key[of "''k''"]) (simp_all add: sample_put_def key_method_def)
  ultimately show thesis using that by blast
qed


end
