(* ===== verification/Cluster_Concurrent.thy ===== *)
theory Cluster_Concurrent
  imports Cluster Node_Concurrent
begin

text \<open>
  Everything at once: any number of clients send requests for keys through the proxy, the nodes run their
  handlers concurrently, and the statements of all of them interleave. The proxy keeps no state: it
  computes the node of a key, forwards the request and copies the response. What the clients
  get is what one node that owns every partition answers when it serves the requests one after the other.
\<close>

section \<open>A trace of the cluster\<close>

text \<open>The events of all nodes in the order in which they happen, each with the address of its node.\<close>

type_synonym cluster_trace = "(go_string \<times> event) list"

definition trace_at :: "go_string \<Rightarrow> cluster_trace \<Rightarrow> event list" where
  "trace_at base tr = map snd (filter (\<lambda>(b, e). b = base) tr)"

fun cluster_lins :: "cluster_trace \<Rightarrow> (go_string \<times> call \<times> ret) list" where
  "cluster_lins [] = []"
| "cluster_lins ((b, Lin t c x) # tr) = (b, c, x) # cluster_lins tr"
| "cluster_lins (e # tr) = cluster_lins tr"

definition lins_at :: "go_string \<Rightarrow> (go_string \<times> call \<times> ret) list \<Rightarrow> (call \<times> ret) list" where
  "lins_at base ls = map snd (filter (\<lambda>(b, cx). b = base) ls)"

lemma lins_trace_at: "lins (trace_at base tr) = lins_at base (cluster_lins tr)"
  by (induction tr rule: cluster_lins.induct) (auto simp: trace_at_def lins_at_def)

lemma lins_at_simps [simp]:
  "lins_at base [] = []"
  "lins_at base ((b, cx) # ls) = (if b = base then cx # lins_at base ls else lins_at base ls)"
  by (auto simp: lins_at_def)

section \<open>Requests through the proxy\<close>

text \<open>The proxy sends the request to this address, and the handler there makes this call to its store.\<close>

definition sent :: "(nat \<Rightarrow> bool) \<Rightarrow> Handler \<Rightarrow> network \<Rightarrow> Request \<Rightarrow> go_string \<times> call \<times> ret \<Rightarrow> bool" where
  "sent isPrint h net r = (\<lambda>(base, c, x). key_method (Method r) \<and> PartitionHeader r = [] \<and>
     \<not> BodyBroken r \<and> (\<exists>key nid s. key \<noteq> [] \<and> key \<noteq> ''/'' \<and> EscapedPath r = key_path key \<and> NodeFor (table h) key = Some nid \<and>
        addresses (caller h) nid = Some base \<and> net base = Some s \<and> makes isPrint s (outbound (caller h) r) c))"

text \<open>What the client gets when that call returns \<open>x\<close>.\<close>

definition reply :: "(nat \<Rightarrow> bool) \<Rightarrow> Handler \<Rightarrow> network \<Rightarrow> Request \<Rightarrow> go_string \<times> call \<times> ret \<Rightarrow> Response" where
  "reply isPrint h net r = (\<lambda>(base, c, x). (response isPrint (the (net base)) (outbound (caller h) r) x)\<lparr>Allow := []\<rparr>)"

lemma makes_cfg: "svc_cfg s' = svc_cfg s \<Longrightarrow> makes isPrint s' = makes isPrint s"
  by (simp add: makes_def fun_eq_iff plan_of_cfg[of s' s])

lemma response_cfg: "svc_cfg s' = svc_cfg s \<Longrightarrow> response isPrint s' = response isPrint s"
  by (simp add: response_def fun_eq_iff plan_of_cfg[of s' s])

lemma sent_update:
  assumes "net base = Some s" "svc_cfg s' = svc_cfg s"
  shows "sent isPrint h (net(base \<mapsto> s')) = sent isPrint h net"
    "sent isPrint h net r (b, cx) \<Longrightarrow> reply isPrint h (net(base \<mapsto> s')) r (b, cx) = reply isPrint h net r (b, cx)"
  using assms makes_cfg[OF assms(2)] response_cfg[OF assms(2)]
  by (auto simp: sent_def reply_def fun_eq_iff)

lemma sent_key_request: "sent isPrint h net r l \<Longrightarrow> key_request r"
  by (auto simp: sent_def key_request_def split: prod.splits)

lemma proxy_step:
  assumes "sent isPrint h net r (base, c, x)" "net base = Some s" "seq_call (svc_store s) c = Some (st, x)"
  shows "proxy_serves (deliver isPrint conn) h net r (net(base \<mapsto> s\<lparr>svc_store := st\<rparr>)) (reply isPrint h net r (base, c, x))"
proof -
  obtain key nid where k: "key \<noteq> []" "key \<noteq> ''/''" "key_method (Method r)" "EscapedPath r = key_path key"
    "NodeFor (table h) key = Some nid" "addresses (caller h) nid = Some base" "makes isPrint s (outbound (caller h) r) c"
    "\<not> BodyBroken r" using assms(1,2) by (auto simp: sent_def)
  obtain f where f: "plan_of isPrint s (outbound (caller h) r) = Perform c f" using k(7) by (auto simp: makes_def split: plan.splits)
  have "ServeHTTP isPrint conn s (outbound (caller h) r) = Some (s\<lparr>svc_store := st\<rparr>, f x)" by (rule plan_serves[OF f assms(3)])
  then have "route (deliver isPrint conn) net h r key = Some (net(base \<mapsto> s\<lparr>svc_store := st\<rparr>), (f x)\<lparr>Allow := []\<rparr>)"
    using k(5,6,8) assms(2) by (cases "f x") (simp add: route_def Forward_def deliver_def outbound_def)
  moreover have "reply isPrint h net r (base, c, x) = (f x)\<lparr>Allow := []\<rparr>" using f assms(2) by (simp add: reply_def response_def)
  ultimately show ?thesis unfolding proxy_serves_key[OF k(1-4)] by simp
qed

text \<open>The nodes run their calls one after the other; the proxy serves the requests in the common order.\<close>

lemma runs_cluster:
  assumes "list_all2 (sent isPrint h net) rs ls"
    "\<forall>base s. net base = Some s \<longrightarrow> seq_run (svc_store s) (map fst (lins_at base ls)) = Some (fin base, map snd (lins_at base ls))"
  shows "runs (proxy_serves (deliver isPrint conn) h) net rs (\<lambda>base. map_option (\<lambda>s. s\<lparr>svc_store := fin base\<rparr>) (net base))
    (map2 (reply isPrint h net) rs ls)"
  using assms
proof (induction rs arbitrary: net ls)
  case Nil
  then have "map_option (\<lambda>s. s\<lparr>svc_store := fin base\<rparr>) (net base) = net base" for base by (cases "net base") auto
  then show ?case using runs_Nil[of _ net] by simp
next
  case (Cons r rs)
  obtain base c x ls' where ls: "ls = (base, c, x) # ls'" "sent isPrint h net r (base, c, x)" "list_all2 (sent isPrint h net) rs ls'"
    using Cons.prems(1) by (auto simp: list_all2_Cons1)
  obtain s where s: "net base = Some s" using ls(2) by (auto simp: sent_def)
  obtain st where st: "seq_call (svc_store s) c = Some (st, x)"
    "seq_run st (map fst (lins_at base ls')) = Some (fin base, map snd (lins_at base ls'))"
    using Cons.prems(2) s ls(1) by (fastforce split: option.splits prod.splits)
  let ?s = "s\<lparr>svc_store := st\<rparr>"
  let ?net = "net(base \<mapsto> ?s)"
  have cfg: "svc_cfg ?s = svc_cfg s" by simp
  note same = sent_update[of net base s ?s, OF s cfg]
  have nodes: "\<forall>b t. ?net b = Some t \<longrightarrow> seq_run (svc_store t) (map fst (lins_at b ls')) = Some (fin b, map snd (lins_at b ls'))"
    using Cons.prems(2) st(2) ls(1) by (auto split: if_splits)
  have "runs (proxy_serves (deliver isPrint conn) h) ?net rs (\<lambda>b. map_option (\<lambda>s. s\<lparr>svc_store := fin b\<rparr>) (?net b))
      (map2 (reply isPrint h ?net) rs ls')"
    by (rule Cons.IH[OF _ nodes]) (unfold same(1), rule ls(3))
  moreover have "map_option (\<lambda>s. s\<lparr>svc_store := fin b\<rparr>) (?net b) = map_option (\<lambda>s. s\<lparr>svc_store := fin b\<rparr>) (net b)" for b
    using s by simp
  moreover have "map2 (reply isPrint h ?net) rs ls' = map2 (reply isPrint h net) rs ls'"
    using ls(3) same(2) by (induction rs ls' rule: list_all2_induct) auto
  ultimately have rest: "runs (proxy_serves (deliver isPrint conn) h) ?net rs (\<lambda>b. map_option (\<lambda>s. s\<lparr>svc_store := fin b\<rparr>) (net b))
      (map2 (reply isPrint h net) rs ls')" by (simp only:)
  from runs_Cons[where srv = "proxy_serves (deliver isPrint conn) h", OF proxy_step[OF ls(2) s st(1)] rest] ls(1)
  show ?case by simp
qed

section \<open>The cluster is one atomic node\<close>

text \<open>What is in memory for a key at the node with this address.\<close>

definition memory_at :: "(go_string \<Rightarrow> cstate) \<Rightarrow> go_string \<Rightarrow> kv" where
  "memory_at ms base k = map_option (\<lambda>a. snapshot (cells (sh (ms base)) ! a)) (lookup (sh (ms base)) k)"

text \<open>Nodes that have just started, and an execution of each of them that the trace shows.\<close>

definition cluster_exec :: "network \<Rightarrow> cluster_trace \<Rightarrow> (go_string \<Rightarrow> cstate) \<Rightarrow> bool" where
  "cluster_exec net tr ms \<longleftrightarrow> (\<forall>base s. net base = Some s \<longrightarrow>
     New (cfg_PartitionCount (svc_cfg s)) = Inr (svc_store s) \<and>
     exec (initial (cfg_PartitionCount (svc_cfg s))) (trace_at base tr) (ms base))"

lemma cluster_exec_sequential:
  assumes "cluster_exec net tr ms"
  obtains fin where
    "\<forall>base s. net base = Some s \<longrightarrow>
       seq_run (svc_store s) (map fst (lins_at base (cluster_lins tr))) = Some (fin base, map snd (lins_at base (cluster_lins tr))) \<and>
       (\<forall>t. phase t (trace_at base tr) \<noteq> Wrong) \<and> ((\<forall>t. thr (ms base) t = Idle) \<longrightarrow> contents (fin base) = memory_at ms base)"
proof -
  have node: "\<exists>st'. seq_run (svc_store s) (map fst (lins_at base (cluster_lins tr))) = Some (st', map snd (lins_at base (cluster_lins tr))) \<and>
      (\<forall>t. phase t (trace_at base tr) \<noteq> Wrong) \<and> ((\<forall>t. thr (ms base) t = Idle) \<longrightarrow> contents st' = memory_at ms base)"
    if s: "net base = Some s" for base s
  proof -
    have x: "New (cfg_PartitionCount (svc_cfg s)) = Inr (svc_store s)"
      "exec (initial (cfg_PartitionCount (svc_cfg s))) (trace_at base tr) (ms base)" using assms s by (auto simp: cluster_exec_def)
    obtain st' m where y: "seq_run (svc_store s) (map fst (lins (trace_at base tr))) = Some (st', map snd (lins (trace_at base tr)))"
      "contents st' = m" "inv (ms base) m" "\<forall>t. phase t (trace_at base tr) \<noteq> Wrong" by (rule exec_sequential[OF x])
    have "contents st' = memory_at ms base" if "\<forall>t. thr (ms base) t = Idle"
      using y(2) quiet_memory[OF y(3) that] by (simp add: memory_at_def fun_eq_iff)
    with y(1,4) show ?thesis unfolding lins_trace_at by blast
  qed
  have "\<forall>base. \<exists>st'. \<forall>s. net base = Some s \<longrightarrow>
      seq_run (svc_store s) (map fst (lins_at base (cluster_lins tr))) = Some (st', map snd (lins_at base (cluster_lins tr))) \<and>
      (\<forall>t. phase t (trace_at base tr) \<noteq> Wrong) \<and> ((\<forall>t. thr (ms base) t = Idle) \<longrightarrow> contents st' = memory_at ms base)"
    (is "\<forall>base. ?P base")
  proof
    fix base
    show "?P base" using node[of base] by (cases "net base") simp_all
  qed
  from choice[OF this] that show thesis by blast
qed


section \<open>An execution of a cluster\<close>

text \<open>Two clients create the same key through the proxy at once.\<close>

definition sample_start_at :: "go_int \<Rightarrow> cstate" where
  "sample_start_at n = (initial n)\<lparr>thr := (\<lambda>_. Idle)(0 := enter (WriteCall sample_op), 1 := enter (WriteCall sample_op))\<rparr>"

lemma sample_exec_1024:
  obtains s tr where "exec (initial 1024) tr s" "\<forall>t. thr s t = Idle" "lookup (sh s) ''k'' \<noteq> None"
    "lins tr = [(WriteCall sample_op, WriteRet (Inr \<lparr>Value = ''1'', Version = 1\<rparr>)),
       (WriteCall sample_op, WriteRet (Inl (VersionMismatch \<lparr>vm_Key = ''k'', Expected = 0, Current = 1, RequiredAbsent = True\<rparr>)))]"
proof -
  have "exec (initial 1024) ([] @ [Inv 0 (WriteCall sample_op)]) ((initial 1024)\<lparr>thr := (thr (initial 1024))(0 := enter (WriteCall sample_op))\<rparr>)"
    by (intro exec_call exec_start) (simp add: initial_def)
  from exec_call[OF this, of 1 "WriteCall sample_op"]
  have start: "exec (initial 1024) [Inv 0 (WriteCall sample_op), Inv 1 (WriteCall sample_op)] (sample_start_at 1024)"
    by (simp add: sample_start_at_def initial_def)
  let ?ls = "[(WriteCall sample_op, WriteRet (Inr \<lparr>Value = ''1'', Version = 1\<rparr>)),
       (WriteCall sample_op, WriteRet (Inl (VersionMismatch \<lparr>vm_Key = ''k'', Expected = 0, Current = 1, RequiredAbsent = True\<rparr>)))]"
  have "map_option (\<lambda>(s, tr). (lins tr, lookup (sh s) ''k'', thr s 0, thr s 1)) (run_sched (sample_start_at 1024) sample_sched) =
      Some (?ls, Some 0, Idle, Idle)" by code_simp
  then obtain s tr where r: "run_sched (sample_start_at 1024) sample_sched = Some (s, tr)" and l: "lins tr = ?ls"
    and s: "lookup (sh s) ''k'' = Some 0" "thr s 0 = Idle" "thr s 1 = Idle" by auto
  have "thr s t = Idle" for t
  proof (cases "t \<in> {0, 1}")
    case False
    then show ?thesis using run_sched_others[OF r, of t] by (simp add: sample_sched_def sample_start_at_def)
  qed (use s in auto)
  with that[OF run_sched_exec[OF start r]] s(1) l show thesis by simp
qed

lemma sample_put_sent:
  assumes "cluster_ok 1048576 1024 h net"
  obtains base s where "net base = Some s" "cfg_PartitionCount (svc_cfg s) = tbl_partitionCount (table h)"
    "plan_of isPrint s (outbound (caller h) sample_put) = Perform (WriteCall sample_op) (answer isPrint ''k'')"
    "\<forall>x. sent isPrint h net sample_put (base, WriteCall sample_op, x)"
proof -
  obtain i base s where s: "i < length (NodeIDs (table h))" "NodeFor (table h) ''k'' = Some (NodeIDs (table h) ! i)"
    "addresses (caller h) (NodeIDs (table h) ! i) = Some base" "net base = Some s" "node_ok s"
    "cfg_PartitionCount (svc_cfg s) = tbl_partitionCount (table h)"
    "Contains (cfg_Owned (svc_cfg s)) (Partition ''k'' (tbl_partitionCount (table h)))"
    "MaxValueBytes (svc_cfg s) = 1048576" "MaxKeyBytes (svc_cfg s) = 1024" by (rule responsible_node[OF assms])
  let ?r = "outbound (caller h) sample_put"
  have key: "checkKey s ''k'' = None" using s by (simp add: checkKey_def Let_def)
  have "caller_partitionCount (caller h) = tbl_partitionCount (table h)" using assms by (simp add: cluster_ok_def)
  then have "checkPartitionCount s ?r = None" using s(6) by (intro checkPartitionCount_own) (simp add: outbound_def)
  then have "write_decoded s ?r ''k'' = Inr (''1'', None, True)"
    using s(8) by (simp add: write_decoded_def outbound_def sample_put_def parseGuards_if_absent read_body_def)
  moreover have "Valid ''1''" by (simp add: json_eval)
  ultimately have plan: "plan_of isPrint s ?r = Perform (WriteCall sample_op) (answer isPrint ''k'')"
    using s(8) key mux_find_key_path[of "''k''" "''PUT''"]
    by (simp add: plan_of_def plan_write_def sample_op_def store_op_def sample_put_def outbound_def)
  then have "makes isPrint s ?r (WriteCall sample_op)" by (simp add: makes_def)
  moreover have "key_method (Method sample_put)" "PartitionHeader sample_put = []" "EscapedPath sample_put = key_path ''k''"
    "\<not> BodyBroken sample_put"
    by (simp_all add: sample_put_def key_method_def)
  ultimately have "sent isPrint h net sample_put (base, WriteCall sample_op, x)" for x
    unfolding sent_def prod.case using s(2-4) by blast
  with that s(4,6) plan show thesis by blast
qed

lemma cluster_lins_node: "cluster_lins (map (Pair base) tr) = map (Pair base) (lins tr)"
  by (induction tr rule: lins.induct) simp_all

lemma trace_at_node: "trace_at b (map (Pair base) tr) = (if b = base then tr else [])"
  by (auto simp: trace_at_def filter_map comp_def)


end
