(* ===== verification/Cluster_Listing.thy ===== *)
theory Cluster_Listing
  imports Cluster_Concurrent
begin

text \<open>
  A listing through the proxy while clients write: every node runs \<open>Store.Keys\<close> among its other
  goroutines, at a time of its own, and the proxy merges what the nodes' handlers stream. The listing is
  no snapshot of any one moment, but it misses no key that was there before, and makes up none.
\<close>

section \<open>The keys of one node\<close>

text \<open>
  From \<open>s\<close> to \<open>s'\<close> some goroutine calls \<open>Keys\<close>, which passes the keys \<open>ks\<close> to its callback.
\<close>

definition lists :: "cstate \<Rightarrow> go_string list \<Rightarrow> event list \<Rightarrow> cstate \<Rightarrow> bool" where
  "lists s ks tr s' \<longleftrightarrow> (\<exists>t tr1 s1 tr2 s2 tr3. tr = tr1 @ tr2 @ tr3 \<and> exec s tr1 s1 \<and> thr s1 t = enter KeysCall \<and>
     exec s1 tr2 s2 \<and> (\<forall>c r. Ret t c r \<notin> set tr2) \<and> thr s2 t = Finished KeysCall (KeysRet ks) \<and> exec s2 tr3 s')"

lemma present_step:
  assumes "inv s m" "thread_step s u = Some (s', ev)"
  shows "present (sh s) \<subseteq> present (sh s')"
proof -
  obtain d pc' lin m' where e: "effect (sh s) (thr s u) = (d, pc', lin)" "sh s' = d" by (rule inv_step[OF assms])
  have "maps_ok (sh s)" using invD(2)[OF assms(1)] by (simp add: mem_ok_def)
  from effect_lookup[OF e(1) this] e(2) show ?thesis by (auto simp: present_def)
qed

lemma present_exec:
  assumes "exec s tr' s'" "exec (initial n) tr s" "ValidPartitionCount n"
  shows "present (sh s) \<subseteq> present (sh s')"
  using assms(1)
proof (induction rule: exec.induct)
  case (exec_step tr1 s1 u s2 ev)
  obtain m where "inv s1 m" using exec_inv[OF exec_trans[OF exec_step.hyps(1) assms(2)] assms(3)] by blast
  from present_step[OF this exec_step.hyps(2)] exec_step.IH show ?case by blast
qed simp_all

lemma lists_keys:
  assumes "lists s ks tr' s'" "exec (initial n) tr s" "ValidPartitionCount n"
  shows "distinct ks" "present (sh s) \<subseteq> set ks" "set ks \<subseteq> present (sh s')" "exec (initial n) (tr @ tr') s'"
proof -
  obtain t tr1 s1 tr2 s2 tr3 where l: "tr' = tr1 @ tr2 @ tr3" "exec s tr1 s1" "thr s1 t = enter KeysCall"
    "exec s1 tr2 s2" "\<forall>c r. Ret t c r \<notin> set tr2" "thr s2 t = Finished KeysCall (KeysRet ks)" "exec s2 tr3 s'"
    using assms(1) unfolding lists_def by blast
  note e1 = exec_trans[OF l(2) assms(2)] and e2 = exec_trans[OF l(4) exec_trans[OF l(2) assms(2)]]
  show "exec (initial n) (tr @ tr') s'" using exec_trans[OF l(7) e2] l(1) by simp
  note k = Keys_while_writing[OF assms(3) e1 l(3-6)]
  show "distinct ks" "present (sh s) \<subseteq> set ks" "set ks \<subseteq> present (sh s')"
    using present_exec[OF l(2) assms(2,3)] k present_exec[OF l(7) e2 assms(3)] by blast+
qed

text \<open>Every key in memory has been written.\<close>

lemma legal_dom:
  "legal m es = Some m' \<Longrightarrow> k \<in> dom m' \<Longrightarrow> k \<in> dom m \<or> (\<exists>opn x. (WriteCall opn, x) \<in> set es \<and> Key opn = k)"
proof (induction es arbitrary: m)
  case (Cons e es)
  obtain c r where e: "e = (c, r)" by (cases e)
  then obtain m1 where m1: "spec_call m c = Some (m1, r)" "legal m1 es = Some m'"
    using Cons.prems(1) by (auto split: option.splits prod.splits if_splits)
  from Cons.IH[OF m1(2) Cons.prems(2)] show ?case
  proof
    assume "k \<in> dom m1"
    then show ?thesis using m1(1) e spec_write_dom[of k m] by (cases c) auto
  qed auto
qed simp

lemma present_written:
  assumes "exec (initial n) tr s" "ValidPartitionCount n" "k \<in> present (sh s)"
  obtains opn x where "(WriteCall opn, x) \<in> set (lins tr)" "Key opn = k"
proof -
  obtain m where m: "legal Map.empty (lins tr) = Some m" "inv s m" using exec_inv[OF assms(1,2)] by blast
  have "k \<in> dom m" using invD(2)[OF m(2)] assms(3) by (auto simp: mem_ok_def present_def)
  with legal_dom[OF m(1)] that show thesis by auto
qed

section \<open>The listing of the cluster\<close>

text \<open>What the handler of a node answers when \<open>Keys\<close> passes the keys \<open>ks\<close> to its callback.\<close>

definition listing_answer :: "Service \<Rightarrow> Request \<Rightarrow> go_string list \<Rightarrow> Response" where
  "listing_answer s r ks =
     (case checkPartitionCount s r of
        Some resp \<Rightarrow> resp
      | None \<Rightarrow> \<lparr>Status = 200, RespContentType = ''application/x-ndjson'', Allow = [],
                 RespBody = l_out (fst (yield_keys (list_line (\<lambda>_. True) (NodeID s)) \<lparr>l_out = [], l_written = 0, l_flushes = 0\<rparr> ks))\<rparr>)"

lemma listing_answer_listKeys: "snd (listKeys (\<lambda>_. True) s r) = listing_answer s r (all_keys (svc_store s))"
  by (simp add: listKeys_def listing_answer_def list_keys_def Service_Keys_def Keys_all_keys Let_def split: option.split)

text \<open>The network, when the goroutine that lists the node at address \<open>base\<close> gets the keys \<open>K base\<close>.\<close>

definition live :: "(go_string \<Rightarrow> go_string list) \<Rightarrow> network transport" where
  "live K net base r =
     (case net base of
        None \<Rightarrow> (net, Inl ''connection refused'')
      | Some s \<Rightarrow> (net, Inr (listing_answer s r (K base), False)))"

text \<open>The keys in the memory of the cluster, each at the node responsible for it.\<close>

definition in_memory :: "Handler \<Rightarrow> (go_string \<Rightarrow> cstate) \<Rightarrow> go_string set" where
  "in_memory h ms = {k. \<exists>nid base. NodeFor (table h) k = Some nid \<and> addresses (caller h) nid = Some base \<and> memory_at ms base k \<noteq> None}"

lemma live_node:
  assumes "net base = Some s" "addresses c nid = Some base" "NodeID s = nid"
    "caller_partitionCount c = cfg_PartitionCount (svc_cfg s)" "\<forall>k \<in> set (K base). fits nid k"
  shows "streamNode (live K) net c nid = (net, map (\<lambda>k. object_text (keyLine k nid)) (K base))"
proof (rule streamNode_lines)
  have "checkPartitionCount s (list_request c) = None"
    using assms(4) by (intro checkPartitionCount_own) (simp add: list_request_def)
  then show "LocalKeys (live K) net c nid = (net, Inr (key_lines nid (K base), False))"
    using assms(1-3) yield_list_line[of nid "[]" 0 "K base"] by (simp add: LocalKeys_def live_def listing_answer_def)
qed (rule assms(5))

lemma sent_write_routed:
  assumes "sent isPrint h net r (base, WriteCall opn, x)"
  obtains nid where "NodeFor (table h) (Key opn) = Some nid" "addresses (caller h) nid = Some base"
proof -
  obtain key nid s where k: "key \<noteq> []" "key \<noteq> ''/''" "EscapedPath r = key_path key" "NodeFor (table h) key = Some nid"
    "addresses (caller h) nid = Some base" "makes isPrint s (outbound (caller h) r) (WriteCall opn)"
    using assms unfolding sent_def prod.case by blast
  have "Key opn = key"
    using k(3,6) mux_find_key_path[OF k(1,2), of "Method r"]
    by (auto simp: makes_def plan_of_def plan_get_def plan_write_def write_request_def outbound_def
        split: plan.splits option.splits sum.splits if_splits prod.splits)
  with k that show thesis by blast
qed

lemma trace_at_append [simp]: "trace_at base (tr @ tr') = trace_at base tr @ trace_at base tr'"
  by (simp add: trace_at_def)

lemma cluster_lins_append [simp]: "cluster_lins (tr @ tr') = cluster_lins tr @ cluster_lins tr'"
  by (induction tr rule: cluster_lins.induct) simp_all

lemma key_at_its_node:
  assumes "exec (initial n) (trace_at base tr) m" "ValidPartitionCount n" "list_all2 (sent isPrint h net) rs (cluster_lins tr)"
    "k \<in> present (sh m)"
  obtains nid where "NodeFor (table h) k = Some nid" "addresses (caller h) nid = Some base"
proof -
  obtain opn x where w: "(WriteCall opn, x) \<in> set (lins (trace_at base tr))" "Key opn = k"
    by (rule present_written[OF assms(1,2,4)])
  then have "(base, WriteCall opn, x) \<in> set (cluster_lins tr)" by (auto simp: lins_trace_at lins_at_def)
  then obtain r where "sent isPrint h net r (base, WriteCall opn, x)"
    using assms(3) by (metis list_all2_conv_all_nth in_set_conv_nth)
  from sent_write_routed[OF this] w(2) that show thesis by blast
qed

lemma memory_present: "memory_at ms base k \<noteq> None \<longleftrightarrow> k \<in> present (sh (ms base))"
  by (simp add: memory_at_def present_def)

text \<open>An address belongs to one node only.\<close>

lemma address_unique:
  assumes "cluster_ok mv mk h net" "nid \<in> set (NodeIDs (table h))" "nid' \<in> set (NodeIDs (table h))"
    "addresses (caller h) nid = Some base" "addresses (caller h) nid' = Some base"
  shows "nid' = nid"
proof -
  have "\<exists>s. net base = Some s \<and> NodeID s = n" if n: "n \<in> set (NodeIDs (table h))" "addresses (caller h) n = Some base" for n
  proof -
    obtain i where i: "i < length (NodeIDs (table h))" "n = NodeIDs (table h) ! i" using n(1) by (metis in_set_conv_nth)
    obtain s where "node_at h net n = Some s" "NodeID s = n" using slot_node[OF assms(1) i(1)] i(2) by metis
    with n(2) show ?thesis by (simp add: node_at_def)
  qed
  with assms(2-5) show ?thesis by (metis option.inject)
qed

text \<open>What one node contributes to a listing between \<open>ms\<close> and \<open>ms'\<close>.\<close>

lemma node_contributes:
  assumes "cluster_ok mv mk h net" "cluster_exec net tr ms" "list_all2 (sent isPrint h net) rs (cluster_lins (tr @ tr'))"
    "\<forall>nid \<in> set (NodeIDs (table h)). \<forall>base. addresses (caller h) nid = Some base \<longrightarrow>
       lists (ms base) (K base) (trace_at base tr') (ms' base)" "nid \<in> set (NodeIDs (table h))"
  obtains base s where "addresses (caller h) nid = Some base" "net base = Some s" "NodeID s = nid"
    "cfg_PartitionCount (svc_cfg s) = tbl_partitionCount (table h)" "distinct (K base)"
    "\<forall>k \<in> set (K base). NodeFor (table h) k = Some nid \<and> k \<in> in_memory h ms'"
    "\<forall>k \<in> in_memory h ms. NodeFor (table h) k = Some nid \<longrightarrow> k \<in> set (K base)"
proof -
  obtain i where i: "i < length (NodeIDs (table h))" "nid = NodeIDs (table h) ! i" using assms(5) by (metis in_set_conv_nth)
  obtain s where s: "node_at h net nid = Some s" "NodeID s = nid"
    "cfg_PartitionCount (svc_cfg s) = tbl_partitionCount (table h)" using slot_node[OF assms(1) i(1)] i(2) by metis
  then obtain base where base: "addresses (caller h) nid = Some base" "net base = Some s"
    by (auto simp: node_at_def bind_eq_Some_conv)
  let ?n = "cfg_PartitionCount (svc_cfg s)"
  have x: "New ?n = Inr (svc_store s)" "exec (initial ?n) (trace_at base tr) (ms base)"
    using assms(2) base(2) by (auto simp: cluster_exec_def)
  have "lists (ms base) (K base) (trace_at base tr') (ms' base)" using assms(4,5) base(1) by blast
  note l = lists_keys[OF this x(2) New_valid[OF x(1)]]
  have "NodeFor (table h) k = Some nid \<and> k \<in> in_memory h ms'" if k: "k \<in> set (K base)" for k
  proof -
    have p: "k \<in> present (sh (ms' base))" using l(3) k by blast
    have "exec (initial ?n) (trace_at base (tr @ tr')) (ms' base)" using l(4) by simp
    from key_at_its_node[OF this New_valid[OF x(1)] assms(3) p] obtain nid' where
      n: "NodeFor (table h) k = Some nid'" "addresses (caller h) nid' = Some base" .
    have "nid' \<in> set (NodeIDs (table h))" using responsible_node[OF assms(1), of k] n(1) by (metis nth_mem option.inject)
    then have "nid' = nid" using address_unique[OF assms(1,5) _ base(1) n(2)] by blast
    then show ?thesis using n p memory_present[of ms' base k] unfolding in_memory_def by blast
  qed
  moreover have "k \<in> set (K base)" if k: "k \<in> in_memory h ms" "NodeFor (table h) k = Some nid" for k
  proof -
    have "k \<in> present (sh (ms base))" using k base(1) memory_present[of ms base k] by (auto simp: in_memory_def)
    then show ?thesis using l(2) by blast
  qed
  ultimately show thesis using that base s(2,3) l(1) by blast
qed

text \<open>
  C13. A listing among writers: whenever the goroutines of the nodes that serve it run, and however they
  interleave with those of clients that write through the proxy, the listing is answered with status 200 and
  one whole line per key, no key twice, each naming the node responsible for it; every key in
  memory when the listing arrived is there, and every key that is there is in memory when it is complete.
\<close>

theorem listing_among_writers:
  assumes "cluster_ok mv mk h net" "cluster_exec net tr ms" "list_all2 (sent isPrint h net) rs (cluster_lins (tr @ tr'))"
    "\<forall>nid \<in> set (NodeIDs (table h)). \<forall>base. addresses (caller h) nid = Some base \<longrightarrow>
       lists (ms base) (K base) (trace_at base tr') (ms' base)"
    "\<forall>nid \<in> set (NodeIDs (table h)). \<forall>k \<in> in_memory h ms'. fits nid k"
  shows "\<exists>ks. distinct ks \<and> in_memory h ms \<subseteq> set ks \<and> set ks \<subseteq> in_memory h ms' \<and>
     (\<exists>resp. proxy_listing (live K) net h resp) \<and>
     (\<forall>resp. proxy_listing (live K) net h resp \<longrightarrow> Status resp = 200 \<and>
        (\<exists>ls. RespBody resp = lines_text ls \<and>
              mset ls = image_mset (\<lambda>k. object_text (keyLine k (the (NodeFor (table h) k)))) (mset ks)))"
proof -
  let ?ids = "NodeIDs (table h)" and ?line = "\<lambda>k. object_text (keyLine k (the (NodeFor (table h) k)))"
  let ?L = "\<lambda>nid. K (the (addresses (caller h) nid))"
  let ?ks = "concat (map ?L ?ids)"
  have node: "distinct (?L nid) \<and> (\<forall>k \<in> set (?L nid). NodeFor (table h) k = Some nid \<and> k \<in> in_memory h ms') \<and>
      (\<forall>k \<in> in_memory h ms. NodeFor (table h) k = Some nid \<longrightarrow> k \<in> set (?L nid)) \<and>
      streamNode (live K) net (caller h) nid = (net, map ?line (?L nid))" if n: "nid \<in> set ?ids" for nid
  proof -
    obtain base s where b: "addresses (caller h) nid = Some base" "net base = Some s" "NodeID s = nid"
      "cfg_PartitionCount (svc_cfg s) = tbl_partitionCount (table h)" "distinct (K base)"
      "\<forall>k \<in> set (K base). NodeFor (table h) k = Some nid \<and> k \<in> in_memory h ms'"
      "\<forall>k \<in> in_memory h ms. NodeFor (table h) k = Some nid \<longrightarrow> k \<in> set (K base)"
      by (rule node_contributes[OF assms(1-4) n])
    have "caller_partitionCount (caller h) = cfg_PartitionCount (svc_cfg s)" using assms(1) b(4) by (simp add: cluster_ok_def)
    then have "streamNode (live K) net (caller h) nid = (net, map (\<lambda>k. object_text (keyLine k nid)) (K base))"
      using b(1-3,6) assms(5) n by (intro live_node) auto
    moreover have "map (\<lambda>k. object_text (keyLine k nid)) (K base) = map ?line (K base)" using b(6) by simp
    ultimately have "streamNode (live K) net (caller h) nid = (net, map ?line (K base))" by simp
    moreover have "?L nid = K base" using b(1) by simp
    ultimately show ?thesis using b(5-7) by presburger
  qed
  have all: "stream_all (live K) net (caller h) ?ids = (net, map (\<lambda>nid. map ?line (?L nid)) ?ids)"
    using node by (intro stream_all_map) blast
  have lines: "concat (map (\<lambda>nid. map ?line (?L nid)) ?ids) = map ?line ?ks" by (simp add: map_concat comp_def)
  have "distinct ?ks"
    using assms(1) node by (intro distinct_concat_owned[where owner = "\<lambda>k. the (NodeFor (table h) k)"]) (auto simp: cluster_ok_def)
  moreover have "in_memory h ms \<subseteq> set ?ks"
  proof
    fix k assume k: "k \<in> in_memory h ms"
    obtain nid where n: "NodeFor (table h) k = Some nid" "nid \<in> set ?ids"
      using responsible_node[OF assms(1), of k] by (metis nth_mem)
    then show "k \<in> set ?ks" using node[OF n(2)] k by auto
  qed
  moreover have "set ?ks \<subseteq> in_memory h ms'" using node by auto
  moreover have "Status resp = 200 \<and> (\<exists>ls. RespBody resp = lines_text ls \<and> mset ls = image_mset ?line (mset ?ks))"
    if "proxy_listing (live K) net h resp" for resp
    using proxy_listing_lines[OF that _ lines] all by simp
  ultimately show ?thesis using proxy_listing_total[of "live K" net h] by blast
qed

section \<open>An execution\<close>

text \<open>A goroutine that lists alone returns.\<close>

lemma solo_listing:
  assumes "inv s m" "listing_at K0 (sh s) (thr s t)" "K0 \<subseteq> present (sh s)" "\<forall>u. u \<noteq> t \<longrightarrow> thr s u = Idle"
  shows "\<exists>s' ks. exec s [] s' \<and> thr s' t = Finished KeysCall (KeysRet ks)"
  using assms
proof (induction "rank (sh s) (thr s t)" arbitrary: s m rule: less_induct)
  case less
  show ?case
  proof (cases "\<exists>ks. thr s t = Finished KeysCall (KeysRet ks)")
    case True
    then show ?thesis using exec_start by blast
  next
    case False
    obtain ins where "lock_instr (sh s) (thr s t) = Some ins"
      by (rule listing_cases[OF less.prems(2)]) (use False in \<open>auto split: if_splits\<close>)
    from progress[OF invD(1)[OF less.prems(1)] this] obtain v where v: "thread_step s v \<noteq> None" by blast
    moreover have "v = t" using v less.prems(4) by (cases "v = t") (auto simp: thread_step_def)
    ultimately obtain s1 ev where st: "thread_step s t = Some (s1, ev)" by auto
    obtain d pc' lin m1 where e: "effect (sh s) (thr s t) = (d, pc', lin)" "thr s1 = (thr s)(t := pc')" "sh s1 = d"
      "ev = events t (thr s t) lin" "inv s1 m1" by (rule inv_step[OF less.prems(1) st])
    have "ev = []" by (rule listing_cases[OF less.prems(2)]) (use False e(1,4) in \<open>auto split: if_splits\<close>)
    then have st': "thread_step s t = Some (s1, [])" using st by simp
    have l: "listing_at K0 (sh s1) (thr s1 t)" "K0 \<subseteq> present (sh s1)" using listing_step[OF less.prems(1) st' less.prems(2,3)] by simp_all
    have o: "\<forall>u. u \<noteq> t \<longrightarrow> thr s1 u = Idle" using less.prems(4) e(2) by simp
    from less.hyps[OF rank_step(1)[OF less.prems(1) st] e(5) l o] obtain s' ks where
      "exec s1 [] s'" "thr s' t = Finished KeysCall (KeysRet ks)" by blast
    with exec_trans[OF this(1) exec_step[OF exec_start st']] show ?thesis by auto
  qed
qed

lemma solo_lists:
  assumes "exec (initial n) tr s" "ValidPartitionCount n" "\<forall>t. thr s t = Idle"
  obtains ks s' where "lists s ks [Inv 2 KeysCall] s'"
proof -
  let ?s = "s\<lparr>thr := (thr s)(2 := enter KeysCall)\<rparr>"
  have c: "exec s [Inv 2 KeysCall] ?s" using exec_call[OF exec_start, of s 2 KeysCall] assms(3) by simp
  obtain m where m: "inv ?s m" using exec_inv[OF exec_trans[OF c assms(1)] assms(2)] by blast
  have "listing_at {} (sh ?s) (thr ?s 2)" "{} \<subseteq> present (sh ?s)" by (simp_all add: listed_def)
  moreover have "\<forall>u. u \<noteq> 2 \<longrightarrow> thr ?s u = Idle" using assms(3) by simp
  ultimately obtain s' ks where s': "exec ?s [] s'" "thr s' 2 = Finished KeysCall (KeysRet ks)" using solo_listing[OF m] by blast
  have "lists s ks ([Inv 2 KeysCall] @ [] @ []) s'"
    unfolding lists_def using c s' exec_start[of s']
    by (intro exI[of _ 2] exI[of _ "[Inv 2 KeysCall]"] exI[of _ ?s] exI[of _ "[]"] exI[of _ s'] exI[of _ "[]"]) simp
  with that show thesis by simp
qed

text \<open>The sample cluster after two clients have tried to create the same key.\<close>

lemma sample_written:
  obtains h net rs tr ms where "cluster_ok 1048576 1024 h net" "NodeIDs (table h) = [''n1'', ''n2'']"
    "addresses (caller h) = [''n1'' \<mapsto> ''http://n1'', ''n2'' \<mapsto> ''http://n2'']" "cluster_exec net tr ms"
    "\<forall>b t. thr (ms b) t = Idle" "list_all2 (sent (\<lambda>_. True) h net) rs (cluster_lins tr)"
    "\<forall>b opn x. (b, WriteCall opn, x) \<in> set (cluster_lins tr) \<longrightarrow> Key opn = ''k''" "''k'' \<in> in_memory h ms"
proof -
  obtain h net s1 where c: "cluster_ok 1048576 1024 h net" "NodeIDs (table h) = [''n1'', ''n2'']"
    "addresses (caller h) = [''n1'' \<mapsto> ''http://n1'', ''n2'' \<mapsto> ''http://n2'']" "tbl_partitionCount (table h) = 1024"
    "\<forall>base s. net base = Some s \<longrightarrow> New (cfg_PartitionCount (svc_cfg s)) = Inr (svc_store s)" by (rule sample_cluster)
  obtain base s where b: "net base = Some s" "cfg_PartitionCount (svc_cfg s) = 1024"
    "\<forall>x. sent (\<lambda>_. True) h net sample_put (base, WriteCall sample_op, x)"
    using sample_put_sent[OF c(1), of "\<lambda>_. True"] c(4) by metis
  obtain m tr0 where m: "exec (initial 1024) tr0 m" "\<forall>t. thr m t = Idle" "lookup (sh m) ''k'' \<noteq> None"
    "map fst (lins tr0) = [WriteCall sample_op, WriteCall sample_op]" by (rule sample_exec_1024) simp
  let ?tr = "map (Pair base) tr0" and ?ms = "\<lambda>x. if x = base then m else initial (cfg_PartitionCount (svc_cfg (the (net x))))"
  have x: "cluster_exec net ?tr ?ms" using c(5) b(1,2) m(1) exec_start by (auto simp: cluster_exec_def trace_at_node)
  obtain x1 x2 where lins: "lins tr0 = [(WriteCall sample_op, x1), (WriteCall sample_op, x2)]" using m(4) by (auto simp: map_eq_Cons_conv)
  have "list_all2 (sent (\<lambda>_. True) h net) [sample_put, sample_put] (cluster_lins ?tr)" using b(3) lins by (simp add: cluster_lins_node)
  moreover have "\<forall>b opn x. (b, WriteCall opn, x) \<in> set (cluster_lins ?tr) \<longrightarrow> Key opn = ''k''"
    using lins by (auto simp: cluster_lins_node sample_op_def)
  moreover have "sent (\<lambda>_. True) h net sample_put (base, WriteCall sample_op, x1)" using b(3) by blast
  then obtain nid where "NodeFor (table h) ''k'' = Some nid" "addresses (caller h) nid = Some base"
    by (rule sent_write_routed) (simp add: sample_op_def)
  then have "''k'' \<in> in_memory h ?ms" using m(3) memory_present[of ?ms base "''k''"] by (auto simp: in_memory_def present_def)
  moreover have "\<forall>b t. thr (?ms b) t = Idle" using m(2) by (simp add: initial_def)
  ultimately show thesis using that[OF c(1-3) x] by blast
qed

lemma idle_cluster_lists:
  assumes "cluster_exec net tr ms" "\<forall>b t. thr (ms b) t = Idle"
  obtains K ms' where "\<forall>b. net b \<noteq> None \<longrightarrow> lists (ms b) (K b) [Inv 2 KeysCall] (ms' b)"
proof -
  have "\<exists>ks s'. net b \<noteq> None \<longrightarrow> lists (ms b) ks [Inv 2 KeysCall] s'" for b
  proof (cases "net b")
    case (Some s)
    then have x: "New (cfg_PartitionCount (svc_cfg s)) = Inr (svc_store s)"
      "exec (initial (cfg_PartitionCount (svc_cfg s))) (trace_at b tr) (ms b)" using assms(1) by (auto simp: cluster_exec_def)
    have "\<forall>t. thr (ms b) t = Idle" using assms(2) by blast
    from solo_lists[OF x(2) New_valid[OF x(1)] this] show ?thesis by metis
  qed simp
  with that show thesis by metis
qed

text \<open>A listing lists only keys that were written.\<close>

lemma in_memory_written:
  assumes "cluster_ok mv mk h net" "cluster_exec net tr ms" "k \<in> in_memory h ms'"
    "\<forall>nid \<in> set (NodeIDs (table h)). \<forall>b. addresses (caller h) nid = Some b \<longrightarrow> lists (ms b) (K b) (trace_at b tr') (ms' b)"
  obtains b opn x where "(b, WriteCall opn, x) \<in> set (cluster_lins (tr @ tr'))" "Key opn = k"
proof -
  obtain nid b where n: "NodeFor (table h) k = Some nid" "addresses (caller h) nid = Some b" "k \<in> present (sh (ms' b))"
    using assms(3) memory_present[of ms' _ k] unfolding in_memory_def by blast
  have nid: "nid \<in> set (NodeIDs (table h))" using responsible_node[OF assms(1), of k] n(1) by (metis nth_mem option.inject)
  obtain s where "net b = Some s" using responsible_node[OF assms(1), of k] n(1,2) by (metis option.inject)
  then have x: "New (cfg_PartitionCount (svc_cfg s)) = Inr (svc_store s)"
    "exec (initial (cfg_PartitionCount (svc_cfg s))) (trace_at b tr) (ms b)" using assms(2) by (auto simp: cluster_exec_def)
  have "lists (ms b) (K b) (trace_at b tr') (ms' b)" using assms(4) nid n(2) by blast
  from lists_keys(4)[OF this x(2) New_valid[OF x(1)]]
  have "exec (initial (cfg_PartitionCount (svc_cfg s))) (trace_at b (tr @ tr')) (ms' b)" by simp
  from present_written[OF this New_valid[OF x(1)] n(3)] obtain opn y where
    "(WriteCall opn, y) \<in> set (lins (trace_at b (tr @ tr')))" "Key opn = k" .
  with that[of b opn y] show thesis unfolding lins_trace_at by (auto simp: lins_at_def)
qed

theorem listing_among_writers_witness:
  "\<exists>h net tr ms K ms' resp. cluster_ok 1048576 1024 h net \<and> cluster_exec net tr ms \<and> ''k'' \<in> in_memory h ms \<and>
     proxy_listing (live K) net h resp \<and> Status resp = 200 \<and>
     (\<exists>ls. RespBody resp = lines_text ls \<and> object_text (keyLine ''k'' (the (NodeFor (table h) ''k''))) \<in> set ls)"
proof -
  obtain h net rs tr ms where c: "cluster_ok 1048576 1024 h net" "NodeIDs (table h) = [''n1'', ''n2'']"
    "addresses (caller h) = [''n1'' \<mapsto> ''http://n1'', ''n2'' \<mapsto> ''http://n2'']" "cluster_exec net tr ms"
    "\<forall>b t. thr (ms b) t = Idle" "list_all2 (sent (\<lambda>_. True) h net) rs (cluster_lins tr)"
    "\<forall>b opn x. (b, WriteCall opn, x) \<in> set (cluster_lins tr) \<longrightarrow> Key opn = ''k''" "''k'' \<in> in_memory h ms" by (rule sample_written)
  obtain K ms' where l: "\<forall>b. net b \<noteq> None \<longrightarrow> lists (ms b) (K b) [Inv 2 KeysCall] (ms' b)"
    by (rule idle_cluster_lists[OF c(4,5)])
  let ?tr' = "[(''http://n1'', Inv 2 KeysCall), (''http://n2'', Inv 2 KeysCall)]"
  have "net b \<noteq> None \<and> trace_at b ?tr' = [Inv 2 KeysCall]" if n: "nid \<in> set (NodeIDs (table h))" "addresses (caller h) nid = Some b" for nid b
  proof -
    obtain i where i: "i < length (NodeIDs (table h))" "nid = NodeIDs (table h) ! i" using n(1) by (metis in_set_conv_nth)
    obtain t where "node_at h net nid = Some t" using slot_node[OF c(1) i(1)] i(2) by metis
    moreover have "nid = ''n1'' \<and> b = ''http://n1'' \<or> nid = ''n2'' \<and> b = ''http://n2''" using n c(2,3) by auto
    ultimately show ?thesis using n(2) by (auto simp: node_at_def trace_at_def)
  qed
  with l have lists: "\<forall>nid \<in> set (NodeIDs (table h)). \<forall>b. addresses (caller h) nid = Some b \<longrightarrow> lists (ms b) (K b) (trace_at b ?tr') (ms' b)"
    by metis
  have quiet: "cluster_lins (tr @ ?tr') = cluster_lins tr" by simp
  have "k = ''k''" if "k \<in> in_memory h ms'" for k using in_memory_written[OF c(1,4) that lists] c(7) unfolding quiet by metis
  moreover have "\<forall>nid \<in> set (NodeIDs (table h)). fits nid ''k''" by (simp add: c(2) fits_def maxTokenSize_def)
  ultimately have fits: "\<forall>nid \<in> set (NodeIDs (table h)). \<forall>k \<in> in_memory h ms'. fits nid k" by blast
  let ?line = "\<lambda>k. object_text (keyLine k (the (NodeFor (table h) k)))"
  obtain ks resp ls where r: "in_memory h ms \<subseteq> set ks" "proxy_listing (live K) net h resp" "Status resp = 200"
    "RespBody resp = lines_text ls" "mset ls = image_mset ?line (mset ks)"
    using listing_among_writers[OF c(1,4) _ lists fits, of "\<lambda>_. True" rs] c(6) unfolding quiet by blast
  have "set ls = ?line ` set ks" using arg_cong[OF r(5), of set_mset] by simp
  then have "?line ''k'' \<in> set ls" using r(1) c(8) by blast
  then show ?thesis using c(1,4,8) r(2-4) by blast
qed

end
