(* ===== verification/Lifecycle.thy ===== *)
theory Lifecycle
  imports Cluster
begin

text \<open>
  The processes: \<open>main\<close> and \<open>run\<close> of \<open>cmd/node/main.go\<close> and \<open>cmd/proxy/main.go\<close>, from the environment
  to the exit status. Both start an \<open>http.Server\<close> in a goroutine, wait for it to fail or for a
  signal, and then shut it down within ten seconds. The main goroutine, the serving goroutine, the
  channels between them and the parts of \<open>http.Server\<close> and \<open>os/signal\<close> that they use are one state
  machine, whose events are the steps of the two goroutines and what the outside world does.
\<close>

section \<open>The server\<close>

definition Second :: nat where
  "Second = 10 ^ 9"

record 'h http_server =
  Addr :: go_string
  ServerHandler :: 'h
  ReadHeaderTimeout :: nat
  IdleTimeout :: nat

definition node_server :: "environment \<Rightarrow> start_error + Service http_server" where
  "node_server getenv =
     (case node_run getenv of
        Inl err \<Rightarrow> Inl err
      | Inr svc \<Rightarrow>
          (case LoadNode getenv of
             Inl err \<Rightarrow> Inl (ConfigFailed err)
           | Inr cfg \<Rightarrow> Inr \<lparr>Addr = n_ListenAddr cfg, ServerHandler = svc,
                             ReadHeaderTimeout = 5 * Second, IdleTimeout = 60 * Second\<rparr>))"

definition proxy_server ::
    "(go_string \<Rightarrow> go_string + go_int) \<Rightarrow> environment \<Rightarrow> (start_error + Handler http_server) option" where
  "proxy_server parseDuration getenv =
     (case proxy_run parseDuration getenv of
        None \<Rightarrow> None
      | Some (Inl err) \<Rightarrow> Some (Inl err)
      | Some (Inr h) \<Rightarrow>
          (case LoadProxy parseDuration getenv of
             Inl err \<Rightarrow> Some (Inl (ConfigFailed err))
           | Inr cfg \<Rightarrow> Some (Inr \<lparr>Addr = p_ListenAddr cfg, ServerHandler = h,
                                   ReadHeaderTimeout = 5 * Second, IdleTimeout = 60 * Second\<rparr>)))"

section \<open>The state of a process\<close>

datatype signal = Interrupt | SIGTERM

text \<open>What \<open>ListenAndServe\<close> returns.\<close>

datatype serve_error = ErrServerClosed | ServeError go_string

text \<open>What \<open>run\<close> returns once the server has been started.\<close>

datatype run_error = ServeFailed go_string | ListenerClose go_string | DeadlineExceeded

text \<open>
  The main goroutine: before \<open>signal.Notify\<close>, at the \<open>select\<close>, before and in \<open>srv.Shutdown\<close>, and after
  \<open>run\<close>; \<open>Killed\<close> by a signal that nobody is notified of.
\<close>

datatype main_pc = Registering | Selecting | Stopping | Waiting | Returned "run_error option" | Killed signal

text \<open>The goroutine that serves: before it listens, accepting connections, sending on \<open>errCh\<close>, ended.\<close>

datatype serve_pc = Starting | Accepting | Sending go_string | Ended

record process =
  main_at :: main_pc
  serve_at :: serve_pc
  errCh :: "go_string list"
  stop :: "signal list"
  inShutdown :: bool
  lnerr :: "go_string option"
  deadline :: nat
  clock :: nat
  busy :: nat
  idle :: nat

definition start_process :: process where
  "start_process = \<lparr>main_at = Registering, serve_at = Starting, errCh = [], stop = [], inShutdown = False, lnerr = None,
     deadline = 0, clock = 0, busy = 0, idle = 0\<rparr>"

definition running :: "process \<Rightarrow> bool" where
  "running p \<longleftrightarrow> (case main_at p of Returned r \<Rightarrow> False | Killed sig \<Rightarrow> False | _ \<Rightarrow> True)"

section \<open>The steps\<close>

text \<open>The goroutine after \<open>ListenAndServe\<close>: errors other than \<open>http.ErrServerClosed\<close> are sent.\<close>

definition after_serve :: "serve_error option \<Rightarrow> serve_pc" where
  "after_serve err = (case err of Some (ServeError e) \<Rightarrow> Sending e | _ \<Rightarrow> Ended)"

datatype event =
    Bind "go_string option"
  | Connect
  | Respond
  | Resume
  | Hangup
  | AcceptFails go_string
  | Send
  | Arrives signal
  | Notify
  | TakeErr
  | TakeSignal
  | Shutdown "go_string option"
  | Poll
  | Expire
  | Tick nat

text \<open>
  \<open>Bind\<close>: \<open>net.Listen\<close> in \<open>ListenAndServe\<close> succeeds or fails; a server that is being shut down does not
  serve any more. \<open>Connect\<close>, \<open>Respond\<close>, \<open>Resume\<close>, \<open>Hangup\<close>: a connection is accepted with a request,
  its response is complete, another request comes on it, it is closed while idle. A signal goes to
  the channel once \<open>Notify\<close> has been called, unless the channel is full; before, it ends the process.
  \<open>Shutdown\<close> is the call: it closes the listener, whose error it keeps; \<open>Poll\<close> and \<open>Expire\<close> are its
  loop, which closes idle connections and returns when no other is left or when the context ends.
\<close>

fun advance :: "process \<Rightarrow> event \<Rightarrow> process option" where
  "advance p (Bind r) =
     (if serve_at p = Starting
      then Some (p\<lparr>serve_at :=
        (case r of Some e \<Rightarrow> after_serve (Some (ServeError e))
         | None \<Rightarrow> if inShutdown p then after_serve (Some ErrServerClosed) else Accepting)\<rparr>)
      else None)"
| "advance p Connect = (if serve_at p = Accepting \<and> \<not> inShutdown p then Some (p\<lparr>busy := Suc (busy p)\<rparr>) else None)"
| "advance p Respond = (if 0 < busy p then Some (p\<lparr>busy := busy p - 1, idle := Suc (idle p)\<rparr>) else None)"
| "advance p Resume = (if 0 < idle p then Some (p\<lparr>busy := Suc (busy p), idle := idle p - 1\<rparr>) else None)"
| "advance p Hangup = (if 0 < idle p then Some (p\<lparr>idle := idle p - 1\<rparr>) else None)"
| "advance p (AcceptFails e) =
     (if serve_at p = Accepting
      then Some (p\<lparr>serve_at := after_serve (Some (if inShutdown p then ErrServerClosed else ServeError e))\<rparr>) else None)"
| "advance p Send =
     (case serve_at p of
        Sending e \<Rightarrow> if length (errCh p) < 1 then Some (p\<lparr>errCh := errCh p @ [e], serve_at := Ended\<rparr>) else None
      | _ \<Rightarrow> None)"
| "advance p (Arrives sig) =
     Some (if main_at p = Registering then p\<lparr>main_at := Killed sig\<rparr>
           else if length (stop p) < 1 then p\<lparr>stop := stop p @ [sig]\<rparr> else p)"
| "advance p Notify = (if main_at p = Registering then Some (p\<lparr>main_at := Selecting\<rparr>) else None)"
| "advance p TakeErr =
     (case errCh p of
        e # es \<Rightarrow> if main_at p = Selecting then Some (p\<lparr>errCh := es, main_at := Returned (Some (ServeFailed e))\<rparr>) else None
      | [] \<Rightarrow> None)"
| "advance p TakeSignal =
     (case stop p of
        sig # sigs \<Rightarrow> if main_at p = Selecting then Some (p\<lparr>stop := sigs, main_at := Stopping\<rparr>) else None
      | [] \<Rightarrow> None)"
| "advance p (Shutdown err) =
     (if main_at p = Stopping
      then Some (p\<lparr>main_at := Waiting, deadline := clock p + 10 * Second, inShutdown := True, lnerr := err\<rparr>) else None)"
| "advance p Poll =
     (if main_at p = Waiting
      then Some (p\<lparr>idle := 0, main_at := (if busy p = 0 then Returned (map_option ListenerClose (lnerr p)) else Waiting)\<rparr>) else None)"
| "advance p Expire =
     (if main_at p = Waiting \<and> deadline p \<le> clock p then Some (p\<lparr>main_at := Returned (Some DeadlineExceeded)\<rparr>) else None)"
| "advance p (Tick d) = Some (p\<lparr>clock := clock p + d\<rparr>)"

fun life :: "process \<Rightarrow> event list \<Rightarrow> process option" where
  "life p [] = Some p"
| "life p (e # es) = (if running p then case advance p e of None \<Rightarrow> None | Some p' \<Rightarrow> life p' es else None)"

text \<open>A process: start-up, then the events. \<open>None\<close> says that no execution has these events.\<close>

definition node_main :: "environment \<Rightarrow> event list \<Rightarrow> (start_error + Service http_server \<times> process) option" where
  "node_main getenv es =
     (case node_server getenv of
        Inl err \<Rightarrow> Some (Inl err)
      | Inr srv \<Rightarrow> map_option (\<lambda>p. Inr (srv, p)) (life start_process es))"

definition proxy_main ::
    "(go_string \<Rightarrow> go_string + go_int) \<Rightarrow> environment \<Rightarrow> event list \<Rightarrow> (start_error + Handler http_server \<times> process) option" where
  "proxy_main parseDuration getenv es =
     (case proxy_server parseDuration getenv of
        None \<Rightarrow> None
      | Some (Inl err) \<Rightarrow> Some (Inl err)
      | Some (Inr srv) \<Rightarrow> map_option (\<lambda>p. Inr (srv, p)) (life start_process es))"

text \<open>The exit status that \<open>main\<close> gives the process, if it has ended by itself.\<close>

fun exit_status :: "start_error + 's \<times> process \<Rightarrow> nat option" where
  "exit_status (Inl err) = Some 1"
| "exit_status (Inr (srv, p)) =
     (case main_at p of Returned None \<Rightarrow> Some 0 | Returned (Some err) \<Rightarrow> Some 1 | _ \<Rightarrow> None)"

section \<open>What the exit status says\<close>

definition signalled :: "event list \<Rightarrow> bool" where
  "signalled es \<longleftrightarrow> (\<exists>sig. Arrives sig \<in> set es)"

definition serve_failed :: "go_string \<Rightarrow> event list \<Rightarrow> bool" where
  "serve_failed e es \<longleftrightarrow> Bind (Some e) \<in> set es \<or> AcceptFails e \<in> set es"

text \<open>The time since \<open>srv.Shutdown\<close> was called.\<close>

definition since_shutdown :: "event list \<Rightarrow> nat" where
  "since_shutdown es = foldl (\<lambda>t e. case e of Tick d \<Rightarrow> t + d | Shutdown l \<Rightarrow> 0 | _ \<Rightarrow> t) 0 es"

text \<open>The requests that the server has been sent and the responses it has completed.\<close>

definition requests :: "event list \<Rightarrow> nat" where
  "requests es = count_list es Connect + count_list es Resume"

definition responses :: "event list \<Rightarrow> nat" where
  "responses es = count_list es Respond"

lemma trace_snoc [simp]:
  "signalled (es @ [e]) \<longleftrightarrow> signalled es \<or> (\<exists>sig. e = Arrives sig)"
  "serve_failed x (es @ [e]) \<longleftrightarrow> serve_failed x es \<or> e = Bind (Some x) \<or> e = AcceptFails x"
  "since_shutdown (es @ [e]) = (case e of Tick d \<Rightarrow> since_shutdown es + d | Shutdown l \<Rightarrow> 0 | _ \<Rightarrow> since_shutdown es)"
  "requests (es @ [e]) = requests es + (if e = Connect \<or> e = Resume then 1 else 0)"
  "responses (es @ [e]) = responses es + (if e = Respond then 1 else 0)"
  by (auto simp: signalled_def serve_failed_def since_shutdown_def requests_def responses_def split: event.split)

lemma life_snoc:
  "life p (es @ [e]) = (case life p es of None \<Rightarrow> None | Some p' \<Rightarrow> if running p' then advance p' e else None)"
  by (induction es arbitrary: p) (auto split: option.splits)

lemma life_append: "life p (es @ es') = (case life p es of None \<Rightarrow> None | Some p' \<Rightarrow> life p' es')"
  by (induction es arbitrary: p) (auto split: option.splits)

lemma life_induct [consumes 1, case_names start advance]:
  assumes "life start_process es = Some p" "P [] start_process"
    "\<And>es p e p'. life start_process es = Some p \<Longrightarrow> running p \<Longrightarrow> P es p \<Longrightarrow> advance p e = Some p' \<Longrightarrow> P (es @ [e]) p'"
  shows "P es p"
  using assms(1)
proof (induction es arbitrary: p rule: rev_induct)
  case Nil
  then show ?case using assms(2) by simp
next
  case (snoc e es)
  then obtain p0 where "life start_process es = Some p0" "running p0" "advance p0 e = Some p"
    by (auto simp: life_snoc split: option.splits if_splits)
  then show ?case using snoc.IH assms(3) by blast
qed

text \<open>When an event is possible and what it leads to.\<close>

lemma advance_iff:
  "advance p (Bind r) = Some p' \<longleftrightarrow> serve_at p = Starting \<and>
     (case r of Some x \<Rightarrow> p' = p\<lparr>serve_at := Sending x\<rparr> | None \<Rightarrow> p' = p\<lparr>serve_at := (if inShutdown p then Ended else Accepting)\<rparr>)"
  "advance p Connect = Some p' \<longleftrightarrow> serve_at p = Accepting \<and> \<not> inShutdown p \<and> p' = p\<lparr>busy := Suc (busy p)\<rparr>"
  "advance p Respond = Some p' \<longleftrightarrow> 0 < busy p \<and> p' = p\<lparr>busy := busy p - 1, idle := Suc (idle p)\<rparr>"
  "advance p Resume = Some p' \<longleftrightarrow> 0 < idle p \<and> p' = p\<lparr>busy := Suc (busy p), idle := idle p - 1\<rparr>"
  "advance p Hangup = Some p' \<longleftrightarrow> 0 < idle p \<and> p' = p\<lparr>idle := idle p - 1\<rparr>"
  "advance p (AcceptFails x) = Some p' \<longleftrightarrow> serve_at p = Accepting \<and>
     p' = p\<lparr>serve_at := (if inShutdown p then Ended else Sending x)\<rparr>"
  "advance p Send = Some p' \<longleftrightarrow> (\<exists>x. serve_at p = Sending x \<and> errCh p = [] \<and> p' = p\<lparr>errCh := [x], serve_at := Ended\<rparr>)"
  "advance p Notify = Some p' \<longleftrightarrow> main_at p = Registering \<and> p' = p\<lparr>main_at := Selecting\<rparr>"
  "advance p TakeErr = Some p' \<longleftrightarrow> main_at p = Selecting \<and>
     (\<exists>x xs. errCh p = x # xs \<and> p' = p\<lparr>errCh := xs, main_at := Returned (Some (ServeFailed x))\<rparr>)"
  "advance p TakeSignal = Some p' \<longleftrightarrow> main_at p = Selecting \<and>
     (\<exists>sig sigs. stop p = sig # sigs \<and> p' = p\<lparr>stop := sigs, main_at := Stopping\<rparr>)"
  "advance p (Shutdown err) = Some p' \<longleftrightarrow> main_at p = Stopping \<and>
     p' = p\<lparr>main_at := Waiting, deadline := clock p + 10 * Second, inShutdown := True, lnerr := err\<rparr>"
  "advance p Poll = Some p' \<longleftrightarrow> main_at p = Waiting \<and>
     p' = p\<lparr>idle := 0, main_at := (if busy p = 0 then Returned (map_option ListenerClose (lnerr p)) else Waiting)\<rparr>"
  "advance p Expire = Some p' \<longleftrightarrow> main_at p = Waiting \<and> deadline p \<le> clock p \<and> p' = p\<lparr>main_at := Returned (Some DeadlineExceeded)\<rparr>"
  by (auto simp: after_serve_def split: option.split serve_pc.split list.split)

lemmas life_steps = advance_iff running_def
declare advance.simps(1-7,9-14) [simp del]

text \<open>The channels are never over-full, and what is in them comes from the server and from the outside.\<close>

lemma channels_ok:
  "life start_process es = Some p \<Longrightarrow>
   length (errCh p) \<le> 1 \<and> (serve_at p \<noteq> Ended \<longrightarrow> errCh p = [])"
proof (induction rule: life_induct)
  case (advance es p e p')
  then show ?case
    by (cases e) (auto simp: life_steps split: option.splits if_splits)
qed (simp add: start_process_def)

lemma errors_from_server:
  "life start_process es = Some p \<Longrightarrow>
   (\<forall>x. serve_at p = Sending x \<or> x \<in> set (errCh p) \<or> main_at p = Returned (Some (ServeFailed x)) \<longrightarrow> serve_failed x es)"
proof (induction rule: life_induct)
  case (advance es p e p')
  then show ?case
    by (cases e) (auto simp: life_steps split: option.splits if_splits)
qed (simp add: start_process_def)

lemma stops_on_signal:
  "life start_process es = Some p \<Longrightarrow>
   (stop p \<noteq> [] \<or> main_at p = Stopping \<or> inShutdown p \<longrightarrow> signalled es) \<and> (main_at p = Waiting \<longrightarrow> inShutdown p)"
proof (induction rule: life_induct)
  case (advance es p e p')
  then show ?case
    by (cases e) (auto simp: life_steps split: option.splits if_splits)
qed (simp add: start_process_def)

text \<open>The clock of a shutdown runs from its call, requests are answered or busy, each return has its cause.\<close>

lemma shutdown_clock:
  "life start_process es = Some p \<Longrightarrow>
   inShutdown p \<longrightarrow> clock p + 10 * Second = deadline p + since_shutdown es \<and> Shutdown (lnerr p) \<in> set es"
proof (induction rule: life_induct)
  case (advance es p e p')
  then show ?case
    by (cases e) (auto simp: life_steps split: option.splits if_splits)
qed (simp add: start_process_def)

lemma requests_pending:
  "life start_process es = Some p \<Longrightarrow>
   requests es = responses es + busy p"
proof (induction rule: life_induct)
  case (advance es p e p')
  then show ?case
    by (cases e) (auto simp: life_steps split: option.splits if_splits)
qed (simp add: start_process_def requests_def responses_def)

lemma returns_from_shutdown:
  "life start_process es = Some p \<Longrightarrow>
   (main_at p = Returned None \<longrightarrow> inShutdown p \<and> lnerr p = None \<and> busy p = 0) \<and>
   (\<forall>x. main_at p = Returned (Some (ListenerClose x)) \<longrightarrow> inShutdown p \<and> lnerr p = Some x) \<and>
   (main_at p = Returned (Some DeadlineExceeded) \<longrightarrow> inShutdown p \<and> deadline p \<le> clock p)"
proof (induction rule: life_induct)
  case (advance es p e p')
  then show ?case
    using stops_on_signal[OF advance.hyps(1)]
    by (cases e) (auto simp: life_steps split: option.splits if_splits)
qed (simp add: start_process_def)

text \<open>
  What an exit status tells: 0 that a signal had arrived and that every request had been answered; 1
  that the process could not start, that the server had failed, that closing the listener had, or
  that after a signal requests had been given ten seconds to complete.
\<close>

definition exit_explained :: "event list \<Rightarrow> start_error + 's \<times> process \<Rightarrow> bool" where
  "exit_explained es r \<longleftrightarrow>
     (exit_status r = Some 0 \<longrightarrow> signalled es \<and> Shutdown None \<in> set es \<and> requests es = responses es) \<and>
     (exit_status r = Some 1 \<longrightarrow>
        (\<exists>err. r = Inl err) \<or> (\<exists>x. serve_failed x es) \<or>
        signalled es \<and> ((\<exists>x. Shutdown (Some x) \<in> set es) \<or> 10 * Second \<le> since_shutdown es)) \<and>
     exit_status r \<in> {None, Some 0, Some 1}"

lemma life_exit_explained:
  assumes "life start_process es = Some p"
  shows "exit_explained es (Inr (srv, p))"
proof -
  note R = returns_from_shutdown[OF assms] and S = stops_on_signal[OF assms] and C = shutdown_clock[OF assms]
    and E = errors_from_server[OF assms] and Q = requests_pending[OF assms]
  show ?thesis
  proof (cases "main_at p")
    case (Returned ret)
    show ?thesis
    proof (cases ret)
      case None
      then show ?thesis using Returned R S C Q by (auto simp: exit_explained_def)
    next
      case (Some err)
      then show ?thesis using Returned R S C E by (cases err) (auto simp: exit_explained_def; metis)+
    qed
  qed (simp_all add: exit_explained_def)
qed

section \<open>Stopping\<close>

text \<open>The steps that the process takes by itself, and time.\<close>

definition own :: "event \<Rightarrow> bool" where
  "own e \<longleftrightarrow> e \<in> {TakeErr, TakeSignal, Expire} \<or> (\<exists>l. e = Shutdown l) \<or> (\<exists>d. e = Tick d)"

definition duration :: "event list \<Rightarrow> nat" where
  "duration es = sum_list (map (\<lambda>e. case e of Tick d \<Rightarrow> d | _ \<Rightarrow> 0) es)"

definition ends :: "process \<Rightarrow> bool" where
  "ends p \<longleftrightarrow> (\<exists>es p' r. life p es = Some p' \<and> main_at p' = Returned r \<and> list_all own es \<and> duration es \<le> 10 * Second)"

lemma ends_Waiting:
  assumes "main_at p = Waiting" "deadline p \<le> clock p + 10 * Second"
  shows "ends p"
  unfolding ends_def
  using assms
  by (intro exI[of _ "[Tick (10 * Second), Expire]"] exI[of _ "p\<lparr>clock := clock p + 10 * Second, main_at := Returned (Some DeadlineExceeded)\<rparr>"])
    (simp add: advance.simps running_def own_def duration_def)

lemma ends_step:
  assumes "running p" "advance p e = Some p'" "ends p'" "own e" "duration [e] = 0"
  shows "ends p"
proof -
  obtain es q r where "life p' es = Some q" "main_at q = Returned r" "list_all own es" "duration es \<le> 10 * Second"
    using assms(3) by (auto simp: ends_def)
  then show ?thesis unfolding ends_def using assms
    by (intro exI[of _ "e # es"] exI[of _ q]) (simp add: duration_def)
qed

lemma ends_Stopping: "main_at p = Stopping \<Longrightarrow> ends p"
  by (rule ends_step[of p "Shutdown None"]) (auto simp: advance.simps running_def own_def duration_def intro: ends_Waiting)

lemma ends_Selecting:
  assumes "main_at p = Selecting" "stop p \<noteq> [] \<or> errCh p \<noteq> []"
  shows "ends p"
proof (cases "stop p")
  case (Cons sig sigs)
  then show ?thesis using assms(1)
    by (intro ends_step[of p TakeSignal]) (auto simp: advance.simps running_def own_def duration_def intro: ends_Stopping)
next
  case Nil
  then obtain x xs where "errCh p = x # xs" using assms(2) by (cases "errCh p") auto
  then have "life p [TakeErr] = Some (p\<lparr>errCh := xs, main_at := Returned (Some (ServeFailed x))\<rparr>)" using assms(1) by (simp add: advance.simps running_def)
  then show ?thesis unfolding ends_def by (intro exI[of _ "[TakeErr]"]) (simp add: own_def duration_def)
qed

text \<open>A signal after \<open>Notify\<close> stays in the channel until the main goroutine takes it.\<close>

fun noticed :: "event list \<Rightarrow> bool" where
  "noticed [] \<longleftrightarrow> False"
| "noticed (Notify # es) \<longleftrightarrow> signalled es"
| "noticed (e # es) \<longleftrightarrow> noticed es"

lemma noticed_snoc: "noticed (es @ [e]) \<longleftrightarrow> noticed es \<or> Notify \<in> set es \<and> (\<exists>sig. e = Arrives sig)"
  by (induction es rule: noticed.induct; cases e) (auto simp: signalled_def)

lemma noticed_Notify: "noticed es \<Longrightarrow> Notify \<in> set es"
  by (induction es rule: noticed.induct) auto

lemma signal_pending:
  "life start_process es = Some p \<Longrightarrow>
   (Notify \<in> set es \<longleftrightarrow> main_at p \<noteq> Registering \<and> (\<forall>sig. main_at p \<noteq> Killed sig)) \<and>
   (noticed es \<and> main_at p = Selecting \<longrightarrow> stop p \<noteq> []) \<and>
   (main_at p = Waiting \<longrightarrow> deadline p \<le> clock p + 10 * Second)"
proof (induction rule: life_induct)
  case (advance es p e p')
  then show ?case
    using noticed_Notify[of es]
    by (cases e) (auto simp: noticed_snoc life_steps split: option.splits if_splits main_pc.splits)
qed (simp add: start_process_def)

lemma life_ends:
  assumes "life start_process es = Some p" "noticed es \<or> errCh p \<noteq> []" "running p" "main_at p \<noteq> Registering"
  shows "ends p"
proof -
  note S = signal_pending[OF assms(1)]
  show ?thesis
  proof (cases "main_at p")
    case Selecting
    then show ?thesis using S assms(2) by (intro ends_Selecting) auto
  next
    case Waiting
    then show ?thesis using S by (intro ends_Waiting) auto
  qed (use assms(3,4) in \<open>simp_all add: ends_Stopping running_def\<close>)
qed

section \<open>Both programs\<close>

text \<open>
  What the two commands have in common: a start-up that gives a server or an error, and then the
  life of the process. The facts about a process are derived from that once.
\<close>

locale program =
  fixes start :: "'a \<Rightarrow> (start_error + 'h http_server) option"
    and main :: "'a \<Rightarrow> event list \<Rightarrow> (start_error + 'h http_server \<times> process) option"
  assumes main_start: "main a es = (case start a of
        None \<Rightarrow> None
      | Some (Inl err) \<Rightarrow> Some (Inl err)
      | Some (Inr srv) \<Rightarrow> map_option (\<lambda>p. Inr (srv, p)) (life start_process es))"
begin

lemma main_life: "main a es = Some (Inr (srv, p)) \<Longrightarrow> life start_process es = Some p"
  by (auto simp: main_start split: option.splits sum.splits)

lemma main_exit: "main a es = Some r \<Longrightarrow> exit_explained es r"
proof (cases r)
  case (Inl err)
  then show ?thesis by (simp add: exit_explained_def)
next
  case (Inr sp)
  moreover assume "main a es = Some r"
  ultimately show ?thesis using life_exit_explained[OF main_life] by (cases sp) auto
qed

lemma main_stops:
  assumes "main a es = Some (Inr (srv, p))" "running p" "noticed es"
  shows "ends p"
  using life_ends[OF main_life[OF assms(1)]] signal_pending[OF main_life[OF assms(1)]] noticed_Notify assms(2,3) by blast

lemma main_send:
  assumes "main a es = Some (Inr (srv, p))" "serve_at p = Sending x"
  shows "advance p Send = Some (p\<lparr>errCh := [x], serve_at := Ended\<rparr>)"
  using channels_ok[OF main_life[OF assms(1)]] assms(2) by (simp add: advance.simps)

end

interpretation node_program: program "\<lambda>getenv. Some (node_server getenv)" node_main
  by unfold_locales (simp add: node_main_def)

interpretation proxy_program: program "\<lambda>(parseDuration, getenv). proxy_server parseDuration getenv"
  "\<lambda>(parseDuration, getenv). proxy_main parseDuration getenv"
  by unfold_locales (simp add: proxy_main_def split: prod.split)

text \<open>
  C16. The exit status of a process, node or proxy, tells how it ended: 0 only after a signal and with
  every request answered, 1 only if it could not start, the server failed, the listener could not be closed
  or the requests in progress did not complete within ten seconds of a signal.
\<close>

theorem exit_status_meaning:
  "(node_main getenv es = Some r \<longrightarrow> exit_explained es r) \<and>
   (proxy_main parseDuration getenv es = Some r' \<longrightarrow> exit_explained es r')"
  using node_program.main_exit[of getenv es r] proxy_program.main_exit[of "(parseDuration, getenv)" es r'] by simp

text \<open>
  C17. A signal ends a process: whatever has happened before, a process that still runs when it has been
  notified of a signal can return with its own steps within ten seconds, and the goroutine that
  serves never blocks on the channel for its error.
\<close>

theorem stops_on_signal_in_time:
  "(node_main getenv es = Some (Inr (srv, p)) \<and> running p \<and> noticed es \<longrightarrow> ends p) \<and>
   (proxy_main parseDuration getenv es = Some (Inr (srv', p)) \<and> running p \<and> noticed es \<longrightarrow> ends p) \<and>
   (node_main getenv es = Some (Inr (srv, p)) \<and> serve_at p = Sending x \<longrightarrow> advance p Send \<noteq> None) \<and>
   (proxy_main parseDuration getenv es = Some (Inr (srv', p)) \<and> serve_at p = Sending x \<longrightarrow> advance p Send \<noteq> None)"
  using node_program.main_stops[of getenv es srv p] proxy_program.main_stops[of "(parseDuration, getenv)" es srv' p]
    node_program.main_send[of getenv es srv p x] proxy_program.main_send[of "(parseDuration, getenv)" es srv' p x] by auto

text \<open>A node that is told to stop while it serves a request, and a proxy that is told to stop at once.\<close>

definition sample_life :: "event list" where
  "sample_life = [Bind None, Notify, Connect, Arrives SIGTERM, TakeSignal, Shutdown None, Poll, Tick Second, Respond, Poll]"

lemma sample_node_server: obtains srv where "node_server (sample_nenv 0) = Inr srv"
proof -
  obtain h where h: "proxy_run (\<lambda>_. Inl []) sample_penv = Some (Inr h)" "NodeIDs (table h) = [''n1'', ''n2'']"
    by (rule sample_proxy)
  have slots: "\<forall>i < length (NodeIDs (table h)). slot_env (NodeIDs (table h)) sample_penv 1048576 1024 i (sample_nenv i)"
    unfolding h(2) using sample_slots by blast
  have "0 < length (NodeIDs (table h))" by (simp add: h(2))
  then obtain s where "node_run (sample_nenv 0) = Inr s" using startup_aux[OF h(1) slots] by blast
  then show thesis using that by (auto simp: node_server_def node_run_def split: sum.splits)
qed

lemma sample_proxy_server: obtains srv where "proxy_server (\<lambda>_. Inl []) sample_penv = Some (Inr srv)"
proof -
  obtain h where "proxy_run (\<lambda>_. Inl []) sample_penv = Some (Inr h)" by (rule sample_proxy)
  then show thesis using that by (auto simp: proxy_server_def proxy_run_def split: sum.splits option.splits)
qed

lemma sample_life_runs:
  "\<exists>p. life start_process sample_life = Some p \<and> main_at p = Returned None"
  "\<exists>p. life start_process (take 4 sample_life) = Some p \<and> running p \<and> busy p = 1"
  by (simp_all add: sample_life_def start_process_def advance.simps running_def)

theorem exit_status_meaning_witness:
  "\<exists>srv p srv' p'. node_main (sample_nenv 0) sample_life = Some (Inr (srv, p)) \<and> exit_status (Inr (srv, p)) = Some 0 \<and>
     proxy_main (\<lambda>_. Inl []) sample_penv sample_life = Some (Inr (srv', p')) \<and> exit_status (Inr (srv', p')) = Some 0 \<and>
     requests sample_life = responses sample_life"
proof -
  obtain srv where srv: "node_server (sample_nenv 0) = Inr srv" by (rule sample_node_server)
  obtain srv' where srv': "proxy_server (\<lambda>_. Inl []) sample_penv = Some (Inr srv')" by (rule sample_proxy_server)
  obtain p where p: "life start_process sample_life = Some p" "main_at p = Returned None" using sample_life_runs(1) by blast
  then have m: "node_main (sample_nenv 0) sample_life = Some (Inr (srv, p))"
    "proxy_main (\<lambda>_. Inl []) sample_penv sample_life = Some (Inr (srv', p))"
    using srv srv' by (simp_all add: node_main_def proxy_main_def)
  then have "exit_explained sample_life (Inr (srv, p))" using exit_status_meaning by blast
  then show ?thesis using m p(2) by (auto simp: exit_explained_def)
qed

theorem stops_on_signal_in_time_witness:
  "\<exists>srv p srv'. node_main (sample_nenv 0) (take 4 sample_life) = Some (Inr (srv, p)) \<and>
     proxy_main (\<lambda>_. Inl []) sample_penv (take 4 sample_life) = Some (Inr (srv', p)) \<and> busy p = 1 \<and> ends p"
proof -
  obtain srv where srv: "node_server (sample_nenv 0) = Inr srv" by (rule sample_node_server)
  obtain srv' where srv': "proxy_server (\<lambda>_. Inl []) sample_penv = Some (Inr srv')" by (rule sample_proxy_server)
  obtain p where p: "life start_process (take 4 sample_life) = Some p" "running p" "busy p = 1" using sample_life_runs(2) by blast
  then have m: "node_main (sample_nenv 0) (take 4 sample_life) = Some (Inr (srv, p))"
    "proxy_main (\<lambda>_. Inl []) sample_penv (take 4 sample_life) = Some (Inr (srv', p))"
    using srv srv' by (simp_all add: node_main_def proxy_main_def)
  moreover have "noticed (take 4 sample_life)" by (simp add: sample_life_def signalled_def)
  ultimately have "ends p" using stops_on_signal_in_time p(2) by blast
  with m p(3) show ?thesis by blast
qed

end
