(* ===== verification/Spec2Isabelle.thy ===== *)
theory Spec2Isabelle
  imports Store_Counter Store_Aliasing Store_Text Proxy_Concurrent Cluster_Retry Cluster_Listing Lifecycle
begin

text \<open>
  A verification of \<^bold>\<open>codakv\<close>, a versioned key/value service written in Go: nodes that each hold a
  share of the keys in memory, and a stateless proxy that routes requests to them.

  \<^bold>\<open>The program and the theories.\<close> A request for a key enters the proxy (\<open>internal/proxy\<close>), which
  hashes the key to a partition, looks the partition's node up in a table (\<open>internal/routing\<close>) and
  forwards the request; the node's HTTP handler (\<open>internal/node/handler.go\<close>) decodes it, the
  service (\<open>internal/node/service.go\<close>) checks key and body, and the store (\<open>internal/store\<close>) runs
  the read or write under its locks, merging JSON objects (\<open>internal/jsonmerge\<close>) for a PATCH.

  \<^item> \<open>Kv_Prelude\<close>, \<open>Go_Strings\<close>, \<open>Go_Http\<close>: what the code uses of Go and its library: 64-bit
    integers as words, strings as byte lists, \<open>strconv\<close>, \<open>strings\<close>, \<open>url\<close>, and the routing of
    \<open>http.ServeMux\<close>. \<open>Json_Scan\<close>, \<open>Json_Text\<close>, \<open>Json_Object\<close>: \<open>encoding/json\<close> byte by byte, i.e.
    validation, compaction, string quoting, and decoding and encoding an object.
  \<^item> \<open>Routing\<close> (\<open>internal/routing/routing.go\<close>): the hash, the ranges of the nodes, the table and
    the text form of ranges. The ranges tile the partitions, and the table and the ranges
    that the nodes compute on their own agree. The locale \<open>tiling\<close> carries these proofs.
  \<^item> \<open>Jsonmerge\<close> (\<open>internal/jsonmerge/merge.go\<close>): a PATCH is a shallow merge, keeps JSON valid, and
    does not depend on the iteration order of Go's maps.
  \<^item> \<open>Kv_Store\<close> (\<open>internal/store\<close>): the store as one goroutine sees it. It refines the abstract map
    \<open>spec_write\<close>; the locale \<open>versioned_kv\<close> derives from that what clients rely on, e.g. that of all
    writes guarded by one version at most one succeeds.
  \<^item> \<open>Store_Concurrent\<close> (the same files): \<open>Get\<close>, \<open>Write\<close> and \<open>Keys\<close> statement by statement, for
    any number of goroutines and any scheduling, with the partitions' and the entries' locks. The
    store is linearizable, but for its listing, with respect to the sequential code of \<open>Kv_Store\<close>, free of data races
    and of deadlock, and every call returns: its loop is repeated at most once. That is why the
    other theories may treat a store operation as one step. \<open>Store_Cas\<close> adds what concurrent
    clients rely on: guards decide between them, and every successful write has a version of its own.
    \<open>Store_Counter\<close> follows clients that read, compute and write back under a guard: no update is lost.
  \<^item> \<open>Store_Aliasing\<close> (\<open>internal/store\<close> and \<open>internal/jsonmerge\<close> once more): the store over a heap of byte
    arrays, whose slices callers hold too. It refines \<open>Kv_Store\<close>, and no value it has handed out
    ever changes. \<open>Store_Text\<close>: the messages of \<open>internal/store/entry.go\<close>.
  \<^item> \<open>Node_Service\<close>, \<open>Node_Handler\<close> (\<open>internal/node\<close>): the checks, the status codes and the bytes
    of every response. No request makes a node panic or store anything but valid JSON under
    keys of its own; a client can decode each response; a conflict carries the version a
    retry needs. \<open>Node_Concurrent\<close>: handlers run concurrently, and their clients get the responses of
    a node that serves one request after the other; linearizability carries over from the store.
  \<^item> \<open>Config\<close> (\<open>internal/config/config.go\<close>): both loaders, for an arbitrary environment.
  \<^item> \<open>Proxy\<close> (\<open>internal/proxy\<close>): forwarding, the listing that merges the nodes' streams in any
    interleaving, and the other endpoints, over an arbitrary transport. \<open>Proxy_Concurrent\<close>: the goroutines
    of a listing, their mutex and their wait group statement by statement; lines stay whole, whatever
    the scheduling, and the handler returns.
  \<^item> \<open>Cluster\<close> (\<open>cmd/node/main.go\<close>, \<open>cmd/proxy/main.go\<close> and all of the above together): processes
    started from matching environments form a consistent cluster, and a consistent cluster
    answers requests for keys as a single node would (by the locale \<open>lockstep\<close>), except when a
    request's own body breaks off, which the proxy answers with 503. With nodes
    down, the rest of the keys is served as before, and a listing says what is missing.
    \<open>Cluster_Concurrent\<close> composes this with \<open>Node_Concurrent\<close>: clients that use the cluster at the same
    time get the responses of a single node that serves one request after the other. \<open>Cluster_Listing\<close>: a
    listing that runs meanwhile has every key that was there before it, and no key that is not
    there at its end. \<open>Cluster_Retry\<close>: a guarded write whose answer is lost may be sent again,
    and is never done twice.
  \<^item> \<open>Lifecycle\<close> (\<open>main\<close> and \<open>run\<close> of both commands): the two goroutines of a process, their channels,
    signals, connections and the graceful shutdown as a state machine. The locale \<open>program\<close> carries
    what holds of both commands: what the exit status says, and that a signal ends the process in time.

  \<^bold>\<open>How code becomes definitions.\<close> A struct is a record, an error value a constructor, a returned
  \<open>(T, error)\<close> a sum, a panic the outer \<open>None\<close>. Machine integers stay 64 bits wide. Stateful code
  takes the state and returns it. Every loop of the code is a total recursive function: no fuel is
  used anywhere. The nesting limit of the JSON scanner is Go's, 10000. The statements that may
  interleave are steps of \<open>thread_step\<close>, executions are the relation \<open>exec\<close>; the steps of a process are
  \<open>advance\<close>, driven by a list of events. Time is a natural number of nanoseconds.

  \<^bold>\<open>What is assumed.\<close> Parameters stand for what the sources only call: \<open>isPrint\<close> for the table of
  \<open>strconv.IsPrint\<close> (used by \<open>%q\<close> in an error text), \<open>parseDuration\<close> for \<open>time.ParseDuration\<close>,
  \<open>send\<close> for the HTTP client and the network, \<open>conn\<close> for whether a client still reads. No property of
  them is assumed, except that \<open>Cluster\<close> instantiates \<open>send\<close> with a network that delivers requests
  to the nodes that run, refuses connections to the others, and fails when the body of the request
  cannot be read to its end, as \<open>http.Client\<close> does; \<open>Cluster_Retry\<close> with one that loses
  the answer of a request that was served, and \<open>Cluster_Listing\<close> with one whose nodes list what their
  goroutines find.

  \<^bold>\<open>Not modelled.\<close> Logging; connection pooling and timeouts beyond their effect that a call fails or a
  body breaks off; the HTTP wire format; the bodies of the redirects that \<open>http.ServeMux\<close> answers for
  paths that are not clean; the \<open>Len\<close> of a store that is written to meanwhile; tests, scripts and
  deployment files. The sequential theories take \<open>clone\<close> for the identity on bytes, which
  \<open>Store_Aliasing\<close> justifies, and a store operation for one step, which \<open>Store_Concurrent\<close> does.
\<close>

end
